(* ===== verification/Prelude.thy ===== *)
theory Prelude
  imports Main "HOL-Library.Word" "HOL-Library.Multiset"
begin

text \<open>
  What the components share: the outcome type of C code that may hit undefined behaviour,
  its sequencing operator, the collections of rewrite rules the component proofs use, and
  generic lemmas on lists.
\<close>

section \<open>Outcomes of C code\<close>

text \<open>
  A C function of the program either returns a value or runs into a fault: it follows a null
  or uninitialised pointer, touches freed memory, reads or writes outside a buffer, divides by
  zero, reads a word at an address the machine cannot read words from, fails an assertion, does
  not return, or ends the program on an error of a system call. A fault is a value of the
  model, so that the absence of faults is a theorem about a function and not a convention.
\<close>

datatype fault =
    Null_Deref
  | Uninitialised
  | Use_After_Free
  | Out_Of_Bounds
  | Div_By_Zero
  | Bus_Error
  | Assert_Failed
  | Diverges
  | Exits

type_synonym 'a result = "fault + 'a"

definition rbind :: "'a result \<Rightarrow> ('a \<Rightarrow> 'b result) \<Rightarrow> 'b result" where
  "rbind m f = (case m of Inl e \<Rightarrow> Inl e | Inr x \<Rightarrow> f x)"

named_theorems result_simps \<open>rewrite rules for sequencing outcomes\<close>

lemma rbind_Inl [simp, result_simps]: "rbind (Inl e) f = Inl e"
  by (simp add: rbind_def)

lemma rbind_Inr [simp, result_simps]: "rbind (Inr x) f = f x"
  by (simp add: rbind_def)

lemma rbind_eq_Inr_iff [result_simps]:
  "rbind m f = Inr y \<longleftrightarrow> (\<exists>x. m = Inr x \<and> f x = Inr y)"
  by (cases m) auto

lemma rbind_eq_Inl_iff:
  "rbind m f = Inl e \<longleftrightarrow> m = Inl e \<or> (\<exists>x. m = Inr x \<and> f x = Inl e)"
  by (cases m) auto

lemma rbind_assoc: "rbind (rbind m f) g = rbind m (\<lambda>x. rbind (f x) g)"
  by (cases m) auto

lemma rbind_cong [fundef_cong]:
  "m = m' \<Longrightarrow> (\<And>x. m' = Inr x \<Longrightarrow> f x = g x) \<Longrightarrow> rbind m f = rbind m' g"
  by (cases m') auto

text \<open>A null pointer as \<open>None\<close>: following it is a fault.\<close>

definition deref :: "'a option \<Rightarrow> 'a result" where
  "deref p = (case p of None \<Rightarrow> Inl Null_Deref | Some x \<Rightarrow> Inr x)"

lemma deref_simps [simp, result_simps]:
  "deref None = Inl Null_Deref"
  "deref (Some x) = Inr x"
  by (simp_all add: deref_def)

text \<open>A loop over a list whose body may fault.\<close>

primrec fold_result :: "('x \<Rightarrow> 's \<Rightarrow> 's result) \<Rightarrow> 'x list \<Rightarrow> 's \<Rightarrow> 's result" where
  "fold_result f [] s = Inr s"
| "fold_result f (x # xs) s = rbind (f x s) (fold_result f xs)"

lemma fold_result_Inr: "fold_result (\<lambda>x s. Inr (g x s)) xs s = Inr (fold g xs s)"
  by (induction xs arbitrary: s) auto

lemma fold_result_append:
  "fold_result f (xs @ ys) s = rbind (fold_result f xs s) (fold_result f ys)"
  by (induction xs arbitrary: s) (auto simp: rbind_def split: sum.splits)

lemma fold_result_map: "fold_result f (map g xs) s = fold_result (\<lambda>x. f (g x)) xs s"
  by (induction xs arbitrary: s) (auto simp: rbind_def split: sum.splits)

section \<open>Lists\<close>

lemma fold_Cons_rev: "fold (#) xs ys = rev xs @ ys"
  by (induction xs arbitrary: ys) auto

lemma fold_filter_Cons_rev: "fold (\<lambda>x ys. if P x then x # ys else ys) xs ys = rev (filter P xs) @ ys"
  by (induction xs arbitrary: ys) auto

lemma nth_Cons_append_last: "(xs @ [y]) ! length xs = y"
  by simp

lemma map_upt_nth: "map (\<lambda>i. xs ! i) [0..<length xs] = xs"
  by (rule map_nth)

lemma find_eq_None_iff: "List.find P xs = None \<longleftrightarrow> (\<forall>x\<in>set xs. \<not> P x)"
  by (auto simp: find_None_iff)

lemma find_SomeD: "List.find P xs = Some x \<Longrightarrow> x \<in> set xs \<and> P x"
  by (auto simp: find_Some_iff)


text \<open>Inserting at a position and deleting at a position.\<close>

lemma set_insert_at: "set (take n xs @ x # drop n xs) = insert x (set xs)"
proof -
  have "set (take n xs) \<union> set (drop n xs) = set xs"
    by (metis append_take_drop_id set_append)
  then show ?thesis by auto
qed

lemma distinct_insert_at:
  "distinct xs \<Longrightarrow> x \<notin> set xs \<Longrightarrow> distinct (take n xs @ x # drop n xs)"
  using set_take_disj_set_drop_if_distinct [of xs n n]
  by (auto dest: in_set_takeD in_set_dropD)

lemma set_delete_at:
  assumes "distinct xs" and "n < length xs"
  shows "set (take n xs @ drop (Suc n) xs) = set xs - {xs ! n}"
proof -
  define us vs y where "us = take n xs" and "vs = drop (Suc n) xs" and "y = xs ! n"
  then have xs: "xs = us @ y # vs"
    using id_take_nth_drop [OF assms(2)] by simp
  then have "distinct (us @ y # vs)" using assms(1) by simp
  then have "set (us @ vs) = set (us @ y # vs) - {y}" by auto
  then show ?thesis by (simp only: us_def vs_def y_def id_take_nth_drop [OF assms(2), symmetric])
qed

text \<open>Association lists with distinct keys.\<close>

lemma map_of_append_new: "k \<notin> fst ` set xs \<Longrightarrow> map_of (xs @ [(k, v)]) = (map_of xs)(k \<mapsto> v)"
  by (induction xs) (auto simp: fun_upd_twist)

lemma map_of_absent: "k \<notin> fst ` set xs \<Longrightarrow> map_of xs k = None"
  by (simp add: map_of_eq_None_iff)

lemma map_of_delete_present:
  assumes "distinct (map fst (us @ (k, v) # vs))"
  shows "map_of (us @ vs) = (map_of (us @ (k, v) # vs))(k := None)"
proof (rule ext)
  fix j
  have "map_of us k = None" "map_of vs k = None"
    using assms by (auto intro!: map_of_absent)
  then show "map_of (us @ vs) j = ((map_of (us @ (k, v) # vs))(k := None)) j"
    by (simp add: map_add_def split: option.splits)
qed

end
