(* ===== verification/Libc.thy ===== *)
theory Libc
  imports Prelude "HOL-Library.Sublist"
begin

text \<open>
  The C library functions the program's logic rests on, as its standard (and, where the
  standard leaves it open, the GNU library) defines them: character classes, \<open>strtol\<close> and
  its casts, decimal output, \<open>strstr\<close> and \<open>strtok_r\<close>. A C string is the list of its bytes
  before the terminating NUL.
\<close>

section \<open>Characters and numbers\<close>

definition c_isspace :: "char \<Rightarrow> bool" where
  "c_isspace c \<longleftrightarrow> (of_char c :: nat) = 32 \<or> (9 \<le> (of_char c :: nat) \<and> (of_char c :: nat) \<le> 13)"

definition c_isblank :: "char \<Rightarrow> bool" where
  "c_isblank c \<longleftrightarrow> (of_char c :: nat) = 32 \<or> (of_char c :: nat) = 9"

definition c_isdigit :: "char \<Rightarrow> bool" where
  "c_isdigit c \<longleftrightarrow> 48 \<le> (of_char c :: nat) \<and> (of_char c :: nat) \<le> 57"

definition digits_value :: "string \<Rightarrow> int" where
  "digits_value ds = foldl (\<lambda>n c. 10 * n + (of_char c - 48)) 0 ds"

text \<open>
  \<open>strtol(s, NULL, 10)\<close>: leading white space, an optional sign, digits; out of range it
  returns \<open>LONG_MIN\<close> or \<open>LONG_MAX\<close>. \<open>atol\<close> is this value, \<open>atoi\<close> its cast to \<open>int\<close>.
\<close>

definition strtol10 :: "string \<Rightarrow> int" where
  "strtol10 s =
     (let s1 = dropWhile c_isspace s;
          (sgn, s2) = (case s1 of [] \<Rightarrow> (1, [])
                       | c # r \<Rightarrow> if c = CHR ''-'' then (-1, r) else if c = CHR ''+'' then (1, r) else (1, s1));
          v = sgn * digits_value (takeWhile c_isdigit s2)
      in max (- (2 ^ 63)) (min (2 ^ 63 - 1) v))"

definition atol :: "string \<Rightarrow> int" where
  "atol s = strtol10 s"

definition atoi :: "string \<Rightarrow> int" where
  "atoi s = signed_take_bit 31 (strtol10 s)"

text \<open>The output of \<open>%u\<close> and \<open>%lu\<close>.\<close>

fun dec :: "nat \<Rightarrow> string" where
  "dec n = (if n < 10 then [char_of (48 + n)] else dec (n div 10) @ [char_of (48 + n mod 10)])"

declare dec.simps [simp del]

text \<open>The output of \<open>%d\<close>.\<close>

definition dec_int :: "int \<Rightarrow> string" where
  "dec_int i = (if i < 0 then CHR ''-'' # dec (nat (- i)) else dec (nat i))"

section \<open>Searching and splitting\<close>

fun strstr :: "string \<Rightarrow> string \<Rightarrow> nat option" where
  "strstr [] needle = (if needle = [] then Some 0 else None)"
| "strstr (c # cs) needle =
     (if take (length needle) (c # cs) = needle then Some 0 else map_option Suc (strstr cs needle))"

definition strtok_r :: "string \<Rightarrow> string \<Rightarrow> (string \<times> string) option" where
  "strtok_r delim s =
     (let s1 = dropWhile (\<lambda>c. c \<in> set delim) s
      in if s1 = [] then None
         else Some (takeWhile (\<lambda>c. c \<notin> set delim) s1, drop 1 (dropWhile (\<lambda>c. c \<notin> set delim) s1)))"

section \<open>Facts\<close>

lemma dec_nonempty [simp]: "dec n \<noteq> []"
  by (subst dec.simps) simp

lemma of_char_digit: "n < 10 \<Longrightarrow> (of_char (char_of (48 + n :: nat)) :: nat) = 48 + n"
  by (simp add: take_bit_eq_mod)

lemma c_isdigit_digit: "n < 10 \<Longrightarrow> c_isdigit (char_of (48 + n :: nat))"
  by (simp only: c_isdigit_def of_char_digit) simp

lemma dec_digits: "\<forall>c \<in> set (dec n). c_isdigit c"
proof (induction n rule: dec.induct)
  case (1 n)
  then show ?case
    by (subst dec.simps) (auto intro: c_isdigit_digit)
qed

lemma digits_value_snoc: "digits_value (ds @ [c]) = 10 * digits_value ds + (of_char c - 48)"
  by (simp add: digits_value_def)

lemma of_char_int_digit: "n < 10 \<Longrightarrow> (of_char (char_of (48 + n :: nat)) :: int) = 48 + int n"
  using of_char_digit [of n] of_nat_of_char [of "char_of (48 + n :: nat)", where 'a = int] by simp

lemma digits_value_dec: "digits_value (dec n) = int n"
proof (induction n rule: dec.induct)
  case (1 n)
  show ?case
  proof (cases "n < 10")
    case True
    then show ?thesis
      by (subst dec.simps) (simp add: digits_value_def of_char_int_digit del: of_char_of)
  next
    case False
    have "10 * int (n div 10) + int (n mod 10) = int (10 * (n div 10) + n mod 10)"
      by (simp only: of_nat_add of_nat_mult of_nat_numeral)
    then have "10 * int (n div 10) + int (n mod 10) = int n" by (simp only: mult_div_mod_eq)
    with False show ?thesis
      using 1 by (subst dec.simps) (simp add: digits_value_snoc of_char_int_digit del: of_char_of)
  qed
qed

lemma strstr_Some:
  "strstr s d = Some n \<Longrightarrow> s = take n s @ d @ drop (n + length d) s \<and> n + length d \<le> length s"
proof (induction s d arbitrary: n rule: strstr.induct)
  case (1 d)
  then show ?case by (auto split: if_splits)
next
  case (2 c cs d)
  show ?case
  proof (cases "take (length d) (c # cs) = d")
    case True
    with 2(2) have "n = 0" by simp
    with True show ?thesis
      by (metis append_Nil append_take_drop_id length_take min_def nat_le_linear plus_nat.add_0 take0 take_all)
  next
    case False
    with 2(2) obtain m where "strstr cs d = Some m" and "n = Suc m" by auto
    with 2(1) [OF False] show ?thesis by simp
  qed
qed

lemma strstr_None_iff: "strstr s d = None \<longleftrightarrow> \<not> sublist d s"
proof (induction s d rule: strstr.induct)
  case (1 d)
  then show ?case by simp
next
  case (2 c cs d)
  have "take (length d) (c # cs) = d \<longleftrightarrow> prefix d (c # cs)"
    by (metis append_eq_conv_conj prefix_def take_is_prefix)
  with 2 show ?case by (auto simp: sublist_Cons_right)
qed

lemma strstr_first:
  "strstr s d = Some n \<Longrightarrow> m < n \<Longrightarrow> take (length d) (drop m s) \<noteq> d"
proof (induction s d arbitrary: n m rule: strstr.induct)
  case (1 d)
  then show ?case by (auto split: if_splits)
next
  case (2 c cs d)
  then show ?case by (cases m) (auto split: if_splits)
qed

lemma strtok_r_shorter: "strtok_r delim s = Some (p, r) \<Longrightarrow> length r < length s"
proof -
  assume "strtok_r delim s = Some (p, r)"
  then have ne: "dropWhile (\<lambda>c. c \<in> set delim) s \<noteq> []"
    and r: "r = drop 1 (dropWhile (\<lambda>c. c \<notin> set delim) (dropWhile (\<lambda>c. c \<in> set delim) s))"
    by (auto simp: strtok_r_def Let_def split: if_splits)
  have "hd (dropWhile (\<lambda>c. c \<in> set delim) s) \<notin> set delim"
    using hd_dropWhile [OF ne] by simp
  then have "length (dropWhile (\<lambda>c. c \<notin> set delim) (dropWhile (\<lambda>c. c \<in> set delim) s))
      < length (dropWhile (\<lambda>c. c \<in> set delim) s)"
    using ne by (cases "dropWhile (\<lambda>c. c \<in> set delim) s") (auto simp: length_dropWhile_le le_imp_less_Suc)
  moreover have "length (dropWhile (\<lambda>c. c \<in> set delim) s) \<le> length s"
    by (rule length_dropWhile_le)
  ultimately show ?thesis using r by simp
qed

end
