(* ===== verification/Cpp_Streams.thy ===== *)
theory Cpp_Streams
  imports Libc
begin

text \<open>
  What the C++ tracker uses of the standard library's strings: words and lines of a \<open>stringstream\<close>, \<open>stoul\<close> and
  \<open>stoi\<close>, \<open>string::find\<close>, and with them \<open>split\<close> of \<open>tracker_cpp/common/Util.cpp\<close>.
\<close>

section \<open>String streams\<close>

text \<open>The characters left and the two state bits. A stream is \<open>good\<close> if neither is set.\<close>

record sstream =
  rest :: string
  eofbit :: bool
  failbit :: bool

definition sstream_of :: "string \<Rightarrow> sstream" where
  "sstream_of s = \<lparr>rest = s, eofbit = False, failbit = False\<rparr>"

definition good :: "sstream \<Rightarrow> bool" where
  "good s \<longleftrightarrow> \<not> eofbit s \<and> \<not> failbit s"

text \<open>\<open>s >> v\<close>: the variable keeps its value \<open>v\<close> when the stream is not good or has no word left.\<close>

definition read_word :: "sstream \<Rightarrow> string \<Rightarrow> string \<times> sstream" where
  "read_word s v =
     (if \<not> good s then (v, s\<lparr>failbit := True\<rparr>)
      else let r = dropWhile c_isspace (rest s)
           in if r = [] then (v, \<lparr>rest = [], eofbit = True, failbit = True\<rparr>)
              else let w = takeWhile (\<lambda>c. \<not> c_isspace c) r; r' = dropWhile (\<lambda>c. \<not> c_isspace c) r
                   in (w, \<lparr>rest = r', eofbit = r' = [], failbit = False\<rparr>))"

text \<open>\<open>getline(s, v, d)\<close>: the delimiter is taken from the stream and is not part of the line.\<close>

definition read_line :: "sstream \<Rightarrow> char \<Rightarrow> string \<Rightarrow> string \<times> sstream" where
  "read_line s d v =
     (if \<not> good s then (v, s\<lparr>failbit := True\<rparr>)
      else let w = takeWhile (\<lambda>c. c \<noteq> d) (rest s); r = dropWhile (\<lambda>c. c \<noteq> d) (rest s)
           in if r = [] then (w, \<lparr>rest = [], eofbit = True, failbit = rest s = []\<rparr>)
              else (w, s\<lparr>rest := tl r\<rparr>))"

lemma length_dropWhile_less: "d \<in> set xs \<Longrightarrow> length (dropWhile P xs) - Suc 0 < length xs"
  using length_dropWhile_le [of P xs] by (cases xs) auto

function split_from :: "char \<Rightarrow> sstream \<Rightarrow> string list" where
  "split_from d s =
     (case read_line s d [] of (tok, s') \<Rightarrow> if failbit s' then [] else tok # split_from d s')"
  by pat_completeness auto
termination
  by (relation "measure (\<lambda>(d, s). length (rest s) + (if eofbit s then 0 else 1))")
    (auto simp: read_line_def good_def Let_def split: if_splits intro: length_dropWhile_less)

declare split_from.simps [simp del]

definition split_string :: "string \<Rightarrow> char \<Rightarrow> string list" where
  "split_string str delimiter = split_from delimiter (sstream_of str)"

section \<open>Numbers\<close>

text \<open>
  The sign and the digits behind white space. \<open>stoul\<close> and \<open>stoi\<close> throw, here \<open>None\<close>, without digits and out of range;
  \<open>stoul\<close> negates in the type of the result.
\<close>

definition sign_digits :: "string \<Rightarrow> bool \<times> string" where
  "sign_digits s =
     (let s1 = dropWhile c_isspace s;
          (neg, s2) = (case s1 of [] \<Rightarrow> (False, [])
                       | c # r \<Rightarrow> if c = CHR ''-'' then (True, r) else if c = CHR ''+'' then (False, r) else (False, s1))
      in (neg, takeWhile c_isdigit s2))"

definition stoul :: "string \<Rightarrow> 64 word option" where
  "stoul s =
     (let (neg, ds) = sign_digits s; v = digits_value ds
      in if ds = [] \<or> 2 ^ 64 \<le> v then None else Some (if neg then - word_of_int v else word_of_int v))"

definition stoi :: "string \<Rightarrow> int option" where
  "stoi s =
     (let (neg, ds) = sign_digits s; v = (if neg then - digits_value ds else digits_value ds)
      in if ds = [] \<or> v < - (2 ^ 31) \<or> 2 ^ 31 \<le> v then None else Some v)"

section \<open>Facts\<close>

lemma sign_digits_dec: "sign_digits (dec n) = (False, dec n)"
proof -
  obtain c cs where c: "dec n = c # cs" by (cases "dec n") auto
  with dec_digits [of n] have d: "c_isdigit c" by simp
  then have "\<not> c_isspace c" "c \<noteq> CHR ''-''" "c \<noteq> CHR ''+''" by (auto simp: c_isdigit_def c_isspace_def)
  moreover have "takeWhile c_isdigit (dec n) = dec n" using dec_digits [of n] by (simp add: takeWhile_eq_all_conv)
  ultimately show ?thesis by (simp add: sign_digits_def c)
qed

lemma stoul_dec: "n < 2 ^ 64 \<Longrightarrow> stoul (dec n) = Some (of_nat n)"
  by (simp add: stoul_def sign_digits_dec digits_value_dec)

lemma stoi_dec: "n < 2 ^ 31 \<Longrightarrow> stoi (dec n) = Some (int n)"
  by (simp add: stoi_def sign_digits_dec digits_value_dec)

lemma read_word_word:
  assumes "w \<noteq> []" and "\<forall>c \<in> set w. \<not> c_isspace c" and "\<forall>c \<in> set sp. c_isspace c" and "r = [] \<or> c_isspace (hd r)"
  shows "read_word \<lparr>rest = sp @ w @ r, eofbit = False, failbit = False\<rparr> v = (w, \<lparr>rest = r, eofbit = r = [], failbit = False\<rparr>)"
proof -
  have "dropWhile c_isspace (sp @ w @ r) = w @ r"
    using assms(1-3) by (cases w) (simp_all add: dropWhile_append2)
  moreover have "takeWhile (\<lambda>c. \<not> c_isspace c) (w @ r) = w" "dropWhile (\<lambda>c. \<not> c_isspace c) (w @ r) = r"
    using assms(2,4) by (cases r; simp add: takeWhile_append2 dropWhile_append2)+
  ultimately show ?thesis using assms(1) by (simp add: read_word_def good_def Let_def)
qed

lemma read_line_delim:
  assumes "d \<notin> set w"
  shows "read_line \<lparr>rest = w @ d # r, eofbit = False, failbit = False\<rparr> d v = (w, \<lparr>rest = r, eofbit = False, failbit = False\<rparr>)"
proof -
  have "takeWhile (\<lambda>c. c \<noteq> d) (w @ d # r) = w" "dropWhile (\<lambda>c. c \<noteq> d) (w @ d # r) = d # r"
    using assms by (induction w) auto
  then show ?thesis by (simp add: read_line_def good_def Let_def)
qed

lemma read_line_last:
  "d \<notin> set w \<Longrightarrow> w \<noteq> [] \<Longrightarrow>
    read_line \<lparr>rest = w, eofbit = False, failbit = False\<rparr> d v = (w, \<lparr>rest = [], eofbit = True, failbit = False\<rparr>)"
proof -
  assume a: "d \<notin> set w" "w \<noteq> []"
  have "takeWhile (\<lambda>c. c \<noteq> d) w = w" "dropWhile (\<lambda>c. c \<noteq> d) w = []" using a by (auto simp: takeWhile_eq_all_conv)
  with a show ?thesis by (simp add: read_line_def good_def Let_def)
qed

lemma split_string_delim: "d \<notin> set w \<Longrightarrow> split_string (w @ d # r) d = w # split_string r d"
  using read_line_delim [of d w r "[]"]
  by (simp add: split_string_def sstream_of_def split_from.simps [of d "\<lparr>rest = w @ d # r, eofbit = False, failbit = False\<rparr>"])

lemma split_string_last: "d \<notin> set w \<Longrightarrow> split_string w d = (if w = [] then [] else [w])"
proof (cases "w = []")
  case True
  then show ?thesis by (simp add: split_string_def sstream_of_def split_from.simps read_line_def good_def)
next
  case False
  assume "d \<notin> set w"
  with False read_line_last [of d w "[]"] show ?thesis
    by (simp add: split_string_def sstream_of_def split_from.simps [of d "\<lparr>rest = w, eofbit = False, failbit = False\<rparr>"]
      split_from.simps [of d "\<lparr>rest = [], eofbit = True, failbit = False\<rparr>"] read_line_def good_def)
qed

end
