(* ===== verification/Uthash.thy ===== *)
theory Uthash
  imports Prelude
begin

text \<open>
  The part of \<open>cutil/uthash.h\<close> the program uses: the Jenkins hash, lookup in a bucket,
  insertion with bucket expansion and deletion. An entry is a hashed element with its
  \<open>UT_hash_handle\<close>; \<open>entry_id\<close> is its address. The bucket chain (\<open>hh_next\<close>) and the
  application order (\<open>next\<close>) are lists of entries.
\<close>

unbundle bit_operations_syntax

section \<open>Data\<close>

type_synonym u32 = "32 word"

record 'a entry =
  entry_id :: nat
  entry_key :: string
  entry_data :: 'a
  entry_hashv :: u32

record 'a bucket =
  hh_chain :: "'a entry list"
  hh_count :: nat
  expand_mult :: nat

record 'a ut_table =
  buckets :: "'a bucket list"
  num_buckets :: nat
  log2_num_buckets :: nat
  num_items :: nat
  app_order :: "'a entry list"
  ideal_chain_maxlen :: nat
  nonideal_items :: nat
  ineff_expands :: nat
  noexpand :: bool

section \<open>The Jenkins hash\<close>

definition hash_jen_mix :: "u32 \<Rightarrow> u32 \<Rightarrow> u32 \<Rightarrow> u32 \<times> u32 \<times> u32" where
  "hash_jen_mix a b c =
     (let a = a - b; a = a - c; a = a XOR drop_bit 13 c;
          b = b - c; b = b - a; b = b XOR push_bit 8 a;
          c = c - a; c = c - b; c = c XOR drop_bit 13 b;
          a = a - b; a = a - c; a = a XOR drop_bit 12 c;
          b = b - c; b = b - a; b = b XOR push_bit 16 a;
          c = c - a; c = c - b; c = c XOR drop_bit 5 b;
          a = a - b; a = a - c; a = a XOR drop_bit 3 c;
          b = b - c; b = b - a; b = b XOR push_bit 10 a;
          c = c - a; c = c - b; c = c XOR drop_bit 15 b
      in (a, b, c))"

text \<open>
  \<open>byte_at ks n\<close> is the byte \<open>_hj_key[n]\<close>, or 0 past the end: in the final \<open>switch\<close>
  a case that is not reached adds nothing.
\<close>

definition byte_at :: "u32 list \<Rightarrow> nat \<Rightarrow> u32" where
  "byte_at ks n = (if n < length ks then ks ! n else 0)"

definition word_at :: "u32 list \<Rightarrow> nat \<Rightarrow> u32" where
  "word_at ks n = byte_at ks n + push_bit 8 (byte_at ks (n + 1))
     + push_bit 16 (byte_at ks (n + 2)) + push_bit 24 (byte_at ks (n + 3))"

function hash_jen_loop :: "u32 list \<Rightarrow> u32 \<Rightarrow> u32 \<Rightarrow> u32 \<Rightarrow> u32 list \<times> u32 \<times> u32 \<times> u32" where
  "hash_jen_loop ks i j hashv =
     (if 12 \<le> length ks
      then (let (i', j', h') = hash_jen_mix (i + word_at ks 0) (j + word_at ks 4) (hashv + word_at ks 8)
            in hash_jen_loop (drop 12 ks) i' j' h')
      else (ks, i, j, hashv))"
  by pat_completeness auto
termination
  by (relation "measure (\<lambda>(ks, i, j, h). length ks)") auto

declare hash_jen_loop.simps [simp del]

definition hash_jen :: "string \<Rightarrow> u32" where
  "hash_jen key =
     (let (ks, i, j, hashv) = hash_jen_loop (map of_char key) 0x9e3779b9 0x9e3779b9 0xfeedbeef;
          hashv = hashv + of_nat (length key);
          hashv = hashv + push_bit 24 (byte_at ks 10) + push_bit 16 (byte_at ks 9)
                        + push_bit 8 (byte_at ks 8);
          j = j + push_bit 24 (byte_at ks 7) + push_bit 16 (byte_at ks 6)
                + push_bit 8 (byte_at ks 5) + byte_at ks 4;
          i = i + push_bit 24 (byte_at ks 3) + push_bit 16 (byte_at ks 2)
                + push_bit 8 (byte_at ks 1) + byte_at ks 0;
          (_, _, h) = hash_jen_mix i j hashv
      in h)"

definition hash_to_bkt :: "u32 \<Rightarrow> nat \<Rightarrow> nat" where
  "hash_to_bkt hashv num_bkts = unat (hashv AND (of_nat num_bkts - 1))"

section \<open>Lookup\<close>

text \<open>\<open>HASH_KEYCMP\<close> is \<open>memcmp\<close> over the length of the searched key.\<close>

fun hash_find_in_bkt :: "'a entry list \<Rightarrow> string \<Rightarrow> 'a entry option" where
  "hash_find_in_bkt [] key = None"
| "hash_find_in_bkt (e # es) key =
     (if length (entry_key e) = length key \<and> take (length key) (entry_key e) = key then Some e
      else hash_find_in_bkt es key)"

definition hash_find :: "'a ut_table option \<Rightarrow> string \<Rightarrow> 'a entry option" where
  "hash_find head key =
     (case head of
        None \<Rightarrow> None
      | Some t \<Rightarrow>
          hash_find_in_bkt (hh_chain (buckets t ! hash_to_bkt (hash_jen key) (num_buckets t))) key)"

section \<open>Insertion\<close>

definition empty_bucket :: "'a bucket" where
  "empty_bucket = \<lparr>hh_chain = [], hh_count = 0, expand_mult = 0\<rparr>"

definition hash_make_table :: "'a ut_table" where
  "hash_make_table =
     \<lparr>buckets = replicate 32 empty_bucket, num_buckets = 32, log2_num_buckets = 5,
      num_items = 0, app_order = [], ideal_chain_maxlen = 0, nonideal_items = 0,
      ineff_expands = 0, noexpand = False\<rparr>"

text \<open>
  One step of the inner loop of \<open>HASH_EXPAND_BUCKETS\<close>: an entry moves to the front of its new
  bucket; the state is the new bucket array and the count of nonideal items.
\<close>

definition redistribute ::
  "nat \<Rightarrow> nat \<Rightarrow> 'a entry \<Rightarrow> 'a bucket list \<times> nat \<Rightarrow> 'a bucket list \<times> nat" where
  "redistribute nb ideal e st =
     (let (bs, nonideal) = st;
          bkt = hash_to_bkt (entry_hashv e) nb;
          b = bs ! bkt;
          cnt = hh_count b + 1;
          over = ideal < cnt;
          b' = \<lparr>hh_chain = e # hh_chain b, hh_count = cnt,
                expand_mult = (if over then cnt div ideal else expand_mult b)\<rparr>
      in (bs[bkt := b'], if over then nonideal + 1 else nonideal))"

definition hash_expand_buckets :: "'a ut_table \<Rightarrow> 'a ut_table" where
  "hash_expand_buckets t =
     (let nb = 2 * num_buckets t;
          ideal = drop_bit (log2_num_buckets t + 1) (num_items t)
                  + (if num_items t AND (nb - 1) \<noteq> 0 then 1 else 0);
          (bs, nonideal) = fold (redistribute nb ideal) (concat (map hh_chain (buckets t)))
                                (replicate nb empty_bucket, 0);
          ineff = (if drop_bit 1 (num_items t) < nonideal then ineff_expands t + 1 else 0)
      in t\<lparr>buckets := bs, num_buckets := nb, log2_num_buckets := log2_num_buckets t + 1,
           ideal_chain_maxlen := ideal, nonideal_items := nonideal, ineff_expands := ineff,
           noexpand := (if 1 < ineff then True else noexpand t)\<rparr>)"

definition hash_add_to_bkt :: "'a ut_table \<Rightarrow> nat \<Rightarrow> 'a entry \<Rightarrow> 'a ut_table" where
  "hash_add_to_bkt t bkt e =
     (let b = buckets t ! bkt;
          b' = b\<lparr>hh_count := hh_count b + 1, hh_chain := e # hh_chain b\<rparr>;
          t' = t\<lparr>buckets := (buckets t)[bkt := b']\<rparr>
      in if (expand_mult b' + 1) * 10 \<le> hh_count b' \<and> \<not> noexpand t'
         then hash_expand_buckets t' else t')"

definition hash_add :: "'a ut_table option \<Rightarrow> nat \<Rightarrow> string \<Rightarrow> 'a \<Rightarrow> 'a ut_table option" where
  "hash_add head a key data =
     (let t = (case head of None \<Rightarrow> hash_make_table | Some t \<Rightarrow> t);
          e = \<lparr>entry_id = a, entry_key = key, entry_data = data, entry_hashv = hash_jen key\<rparr>;
          t = t\<lparr>app_order := app_order t @ [e], num_items := num_items t + 1\<rparr>
      in Some (hash_add_to_bkt t (hash_to_bkt (entry_hashv e) (num_buckets t)) e))"

section \<open>Deletion\<close>

definition hash_del_in_bkt :: "'a bucket \<Rightarrow> 'a entry \<Rightarrow> 'a bucket" where
  "hash_del_in_bkt b e = b\<lparr>hh_count := hh_count b - 1, hh_chain := remove1 e (hh_chain b)\<rparr>"

text \<open>The table is freed with its last entry (the one without \<open>prev\<close> and \<open>next\<close>).\<close>

definition hash_delete :: "'a ut_table option \<Rightarrow> 'a entry \<Rightarrow> 'a ut_table option" where
  "hash_delete head e =
     (case head of
        None \<Rightarrow> None
      | Some t \<Rightarrow>
          if app_order t = [e] then None
          else let bkt = hash_to_bkt (entry_hashv e) (num_buckets t)
               in Some (t\<lparr>app_order := remove1 e (app_order t),
                          buckets := (buckets t)[bkt := hash_del_in_bkt (buckets t ! bkt) e],
                          num_items := num_items t - 1\<rparr>))"

definition hash_entries :: "'a ut_table option \<Rightarrow> 'a entry list" where
  "hash_entries head = (case head of None \<Rightarrow> [] | Some t \<Rightarrow> app_order t)"

definition hash_count :: "'a ut_table option \<Rightarrow> nat" where
  "hash_count head = (case head of None \<Rightarrow> 0 | Some t \<Rightarrow> num_items t)"

section \<open>Integrity\<close>

text \<open>
  \<open>HASH_FSCK\<close> is the header's own integrity check: every bucket's count is the length of its
  chain, the counts sum up to \<open>num_items\<close>, and \<open>num_items\<close> is also the length of the list in
  application order. (Its checks of the back pointers hold by representation.)
\<close>

definition hash_fsck :: "'a ut_table \<Rightarrow> bool" where
  "hash_fsck t \<longleftrightarrow>
     length (buckets t) = num_buckets t \<and>
     (\<forall>b \<in> set (buckets t). hh_count b = length (hh_chain b)) \<and>
     sum_list (map hh_count (buckets t)) = num_items t \<and>
     length (app_order t) = num_items t"

text \<open>
  The invariant behind it: a power of two of buckets, distinct entries with their cached hash
  values, and in bucket \<open>i\<close> exactly the entries whose hash value selects \<open>i\<close>.
\<close>

definition bucket_ok :: "'a entry list \<Rightarrow> nat \<Rightarrow> nat \<Rightarrow> 'a bucket \<Rightarrow> bool" where
  "bucket_ok es nb i b \<longleftrightarrow>
     mset (hh_chain b) = filter_mset (\<lambda>e. hash_to_bkt (entry_hashv e) nb = i) (mset es) \<and>
     hh_count b = length (hh_chain b)"

definition table_core :: "'a ut_table \<Rightarrow> bool" where
  "table_core t \<longleftrightarrow>
     num_buckets t = 2 ^ log2_num_buckets t \<and>
     length (buckets t) = num_buckets t \<and>
     (\<forall>i < num_buckets t. bucket_ok (app_order t) (num_buckets t) i (buckets t ! i)) \<and>
     num_items t = length (app_order t) \<and>
     distinct (map entry_id (app_order t)) \<and>
     (\<forall>e \<in> set (app_order t). entry_hashv e = hash_jen (entry_key e))"

definition table_inv :: "'a ut_table \<Rightarrow> bool" where
  "table_inv t \<longleftrightarrow> table_core t \<and> app_order t \<noteq> []"

definition hash_inv :: "'a ut_table option \<Rightarrow> bool" where
  "hash_inv head \<longleftrightarrow> (case head of None \<Rightarrow> True | Some t \<Rightarrow> table_inv t)"

subsection \<open>Bucket numbers\<close>

lemma hash_to_bkt_less:
  assumes "nb = 2 ^ k"
  shows "hash_to_bkt hashv nb < nb"
proof (cases "k < 32")
  case True
  have "hashv AND (of_nat nb - 1) = take_bit k hashv"
    using True by (simp add: assms take_bit_eq_mask mask_eq_decr_exp)
  then have "hash_to_bkt hashv nb = take_bit k (unat hashv)"
    by (simp add: hash_to_bkt_def unsigned_take_bit_eq)
  then show ?thesis by (simp add: assms take_bit_eq_mod)
next
  case False
  then have "(2::nat) ^ 32 \<le> nb" using power_increasing [of 32 k "2::nat"] by (simp add: assms)
  moreover have "hash_to_bkt hashv nb < 2 ^ 32"
    unfolding hash_to_bkt_def by (rule order.strict_trans2 [OF unsigned_less]) simp
  ultimately show ?thesis by simp
qed

lemma table_core_bkt: "table_core t \<Longrightarrow> hash_to_bkt hashv (num_buckets t) < num_buckets t"
  by (auto simp: table_core_def intro: hash_to_bkt_less)

lemma filter_mset_partition:
  assumes "\<And>e. e \<in># M \<Longrightarrow> f e < (n :: nat)"
  shows "(\<Sum>i<n. filter_mset (\<lambda>e. f e = i) M) = M"
  using assms
proof (induction M)
  case empty
  then show ?case by simp
next
  case (add x M)
  have fx: "f x \<in> {..<n}" using add.prems by simp
  have "(\<Sum>i<n. filter_mset (\<lambda>e. f e = i) (add_mset x M))
      = (\<Sum>i<n. (if f x = i then {#x#} else {#}) + filter_mset (\<lambda>e. f e = i) M)"
    by (intro sum.cong) auto
  also have "\<dots> = {#x#} + M"
  proof -
    have "(\<Sum>i<n. (if f x = i then {#x#} else {#})) = {#x#}"
      using fx by (subst sum.delta') auto
    moreover have "(\<Sum>i<n. filter_mset (\<lambda>e. f e = i) M) = M"
      using add by simp
    ultimately show ?thesis by (simp only: sum.distrib)
  qed
  finally show ?case by simp
qed

lemma mset_concat_nth: "mset (concat (map g bs)) = (\<Sum>i<length bs. mset (g (bs ! i)))"
proof -
  have "mset (concat (map g bs)) = sum_list (map (\<lambda>b. mset (g b)) bs)"
    by (simp add: mset_concat comp_def)
  also have "\<dots> = (\<Sum>i<length bs. mset (g (bs ! i)))"
    by (simp add: sum_list_sum_nth atLeast0LessThan)
  finally show ?thesis .
qed

text \<open>All chains together hold the entries of the application order.\<close>

lemma table_core_chains:
  assumes "table_core t"
  shows "mset (concat (map hh_chain (buckets t))) = mset (app_order t)"
proof -
  have "mset (concat (map hh_chain (buckets t)))
      = (\<Sum>i<num_buckets t. filter_mset (\<lambda>e. hash_to_bkt (entry_hashv e) (num_buckets t) = i) (mset (app_order t)))"
    using assms by (auto simp: mset_concat_nth table_core_def bucket_ok_def intro!: sum.cong)
  also have "\<dots> = mset (app_order t)"
    using table_core_bkt [OF assms] by (intro filter_mset_partition) auto
  finally show ?thesis .
qed

lemma table_core_fsck: assumes "table_core t" shows "hash_fsck t"
proof -
  have len: "length (buckets t) = num_buckets t" using assms by (simp add: table_core_def)
  have cnt: "hh_count b = length (hh_chain b)" if "b \<in> set (buckets t)" for b
    using that assms by (auto simp: table_core_def bucket_ok_def in_set_conv_nth)
  then have "sum_list (map hh_count (buckets t)) = sum_list (map (\<lambda>b. length (hh_chain b)) (buckets t))"
    by (intro arg_cong [of _ _ sum_list]) simp
  also have "\<dots> = length (concat (map hh_chain (buckets t)))"
    by (simp add: length_concat comp_def)
  also have "\<dots> = length (app_order t)"
    using table_core_chains [OF assms] by (metis size_mset)
  finally show ?thesis
    using assms len cnt by (simp add: hash_fsck_def table_core_def)
qed

lemma table_core_bucket:
  "table_core t \<Longrightarrow> i < num_buckets t \<Longrightarrow> bucket_ok (app_order t) (num_buckets t) i (buckets t ! i)"
  unfolding table_core_def by blast

subsection \<open>Lookup\<close>

lemma hash_find_in_bkt_find: "hash_find_in_bkt es key = List.find (\<lambda>e. entry_key e = key) es"
  by (induction es) auto

lemma hash_find_spec:
  assumes "hash_inv head"
  shows "case hash_find head key of
      None \<Rightarrow> \<forall>e \<in> set (hash_entries head). entry_key e \<noteq> key
    | Some e \<Rightarrow> e \<in> set (hash_entries head) \<and> entry_key e = key"
proof (cases head)
  case None
  then show ?thesis by (simp add: hash_find_def hash_entries_def)
next
  case (Some t)
  let ?i = "hash_to_bkt (hash_jen key) (num_buckets t)"
  have core: "table_core t" using assms Some by (simp add: hash_inv_def table_inv_def)
  then have "bucket_ok (app_order t) (num_buckets t) ?i (buckets t ! ?i)"
    by (intro table_core_bucket table_core_bkt)
  then have "mset (hh_chain (buckets t ! ?i)) =
      filter_mset (\<lambda>e. hash_to_bkt (entry_hashv e) (num_buckets t) = ?i) (mset (app_order t))"
    by (simp add: bucket_ok_def)
  from arg_cong [OF this, of set_mset] have "set (hh_chain (buckets t ! ?i)) =
      {e \<in> set (app_order t). hash_to_bkt (entry_hashv e) (num_buckets t) = ?i}"
    by simp
  moreover have "\<forall>e \<in> set (app_order t). entry_hashv e = hash_jen (entry_key e)"
    using core unfolding table_core_def by blast
  ultimately have ch: "e \<in> set (hh_chain (buckets t ! ?i)) \<and> entry_key e = key \<longleftrightarrow>
      e \<in> set (app_order t) \<and> entry_key e = key" for e
    by auto
  have f: "hash_find head key = List.find (\<lambda>e. entry_key e = key) (hh_chain (buckets t ! ?i))"
    by (simp add: hash_find_def Some hash_find_in_bkt_find)
  show ?thesis
  proof (cases "hash_find head key")
    case None
    from f None have "List.find (\<lambda>e. entry_key e = key) (hh_chain (buckets t ! ?i)) = None" by simp
    then have "\<forall>e \<in> set (hh_chain (buckets t ! ?i)). entry_key e \<noteq> key"
      by (simp only: find_eq_None_iff)
    then show ?thesis unfolding None using ch \<open>head = Some t\<close> by (auto simp: hash_entries_def)
  next
    case (Some e)
    from f Some have "List.find (\<lambda>e. entry_key e = key) (hh_chain (buckets t ! ?i)) = Some e" by simp
    from find_SomeD [OF this] have "e \<in> set (hh_chain (buckets t ! ?i)) \<and> entry_key e = key" .
    then show ?thesis unfolding Some using ch \<open>head = Some t\<close> by (simp add: hash_entries_def)
  qed
qed

lemma hash_find_None_iff:
  "hash_inv head \<Longrightarrow> hash_find head key = None \<longleftrightarrow> (\<forall>e \<in> set (hash_entries head). entry_key e \<noteq> key)"
  using hash_find_spec [of head key] by (auto split: option.splits)

lemma hash_find_SomeD:
  "hash_inv head \<Longrightarrow> hash_find head key = Some e \<Longrightarrow> e \<in> set (hash_entries head) \<and> entry_key e = key"
  using hash_find_spec [of head key] by simp

subsection \<open>Expansion\<close>

lemma redistribute_fold:
  assumes "nb = 2 ^ k" and "length bs = nb"
    and "fold (redistribute nb ideal) es (bs, c) = (bs', c')"
  shows "length bs' = nb \<and>
    (\<forall>i < nb. hh_chain (bs' ! i) = rev (filter (\<lambda>e. hash_to_bkt (entry_hashv e) nb = i) es) @ hh_chain (bs ! i) \<and>
       hh_count (bs' ! i) = hh_count (bs ! i) + length (filter (\<lambda>e. hash_to_bkt (entry_hashv e) nb = i) es))"
  using assms(2,3)
proof (induction es arbitrary: bs c)
  case Nil
  then show ?case by simp
next
  case (Cons e es)
  let ?j = "hash_to_bkt (entry_hashv e) nb"
  obtain bs1 c1 where st: "redistribute nb ideal e (bs, c) = (bs1, c1)" by fastforce
  then have bs1: "bs1 = bs[?j := \<lparr>hh_chain = e # hh_chain (bs ! ?j), hh_count = hh_count (bs ! ?j) + 1,
      expand_mult = (if ideal < hh_count (bs ! ?j) + 1 then (hh_count (bs ! ?j) + 1) div ideal
                     else expand_mult (bs ! ?j))\<rparr>]"
    by (auto simp: redistribute_def Let_def)
  have j: "?j < nb" by (rule hash_to_bkt_less [OF assms(1)])
  have "fold (redistribute nb ideal) es (bs1, c1) = (bs', c')"
    using Cons.prems(2) st by simp
  moreover have "length bs1 = nb" using Cons.prems(1) bs1 by simp
  ultimately have IH: "length bs' = nb \<and>
    (\<forall>i < nb. hh_chain (bs' ! i) = rev (filter (\<lambda>e. hash_to_bkt (entry_hashv e) nb = i) es) @ hh_chain (bs1 ! i) \<and>
       hh_count (bs' ! i) = hh_count (bs1 ! i) + length (filter (\<lambda>e. hash_to_bkt (entry_hashv e) nb = i) es))"
    by (rule Cons.IH [rotated])
  have "hh_chain (bs1 ! i) = (if i = ?j then e # hh_chain (bs ! i) else hh_chain (bs ! i))"
    "hh_count (bs1 ! i) = (if i = ?j then hh_count (bs ! i) + 1 else hh_count (bs ! i))" for i
    using j Cons.prems(1) by (auto simp: bs1 nth_list_update)
  with IH show ?case by simp
qed

lemma hash_expand_core:
  assumes "table_core t"
  shows "table_core (hash_expand_buckets t)" and "app_order (hash_expand_buckets t) = app_order t"
proof -
  let ?nb = "2 * num_buckets t" and ?es = "concat (map hh_chain (buckets t))"
  let ?ideal = "drop_bit (log2_num_buckets t + 1) (num_items t)
      + (if num_items t AND (?nb - 1) \<noteq> 0 then 1 else 0)"
  obtain bs c where f: "fold (redistribute ?nb ?ideal) ?es (replicate ?nb empty_bucket, 0) = (bs, c)"
    by fastforce
  have nb: "?nb = 2 ^ (log2_num_buckets t + 1)"
    using assms by (simp add: table_core_def)
  have r: "length bs = ?nb" "\<And>i. i < ?nb \<Longrightarrow>
      hh_chain (bs ! i) = rev (filter (\<lambda>e. hash_to_bkt (entry_hashv e) ?nb = i) ?es) \<and>
      hh_count (bs ! i) = length (filter (\<lambda>e. hash_to_bkt (entry_hashv e) ?nb = i) ?es)"
    using redistribute_fold [OF nb _ f] by (simp_all add: empty_bucket_def)
  have "bucket_ok (app_order t) ?nb i (bs ! i)" if "i < ?nb" for i
    using r(2) [OF that] table_core_chains [OF assms]
    by (simp add: bucket_ok_def mset_filter)
  then show "table_core (hash_expand_buckets t)"
    using assms r(1) f nb by (simp add: table_core_def hash_expand_buckets_def Let_def)
  show "app_order (hash_expand_buckets t) = app_order t"
    using f by (simp add: hash_expand_buckets_def Let_def)
qed

subsection \<open>Insertion\<close>

lemma make_table_core: "table_core hash_make_table"
  by (simp add: table_core_def hash_make_table_def bucket_ok_def empty_bucket_def)

lemma hash_add_core:
  assumes "table_core t" and "\<forall>e \<in> set (app_order t). entry_id e \<noteq> a"
    and e: "e = \<lparr>entry_id = a, entry_key = key, entry_data = data, entry_hashv = hash_jen key\<rparr>"
    and t1: "t1 = t\<lparr>app_order := app_order t @ [e], num_items := num_items t + 1\<rparr>"
    and t2: "t2 = hash_add_to_bkt t1 (hash_to_bkt (entry_hashv e) (num_buckets t1)) e"
  shows "table_core t2" and "app_order t2 = app_order t @ [e]"
proof -
  let ?bkt = "hash_to_bkt (hash_jen key) (num_buckets t)"
  let ?b = "buckets t ! ?bkt"
  let ?t' = "t1\<lparr>buckets := (buckets t)[?bkt := ?b\<lparr>hh_count := hh_count ?b + 1, hh_chain := e # hh_chain ?b\<rparr>]\<rparr>"
  have bkt: "?bkt < num_buckets t" by (rule table_core_bkt [OF assms(1)])
  have "bucket_ok (app_order t @ [e]) (num_buckets t) i (buckets ?t' ! i)" if "i < num_buckets t" for i
    using that assms(1) bkt by (auto simp: table_core_def bucket_ok_def nth_list_update e)
  then have core: "table_core ?t'"
    using assms(1,2) by (auto simp: table_core_def t1 e)
  have t2': "t2 = (if (expand_mult ?b + 1) * 10 \<le> hh_count ?b + 1 \<and> \<not> noexpand t1
      then hash_expand_buckets ?t' else ?t')"
    by (simp add: t2 hash_add_to_bkt_def Let_def t1 e)
  show "table_core t2"
    using core hash_expand_core(1) [OF core] by (simp add: t2')
  show "app_order t2 = app_order t @ [e]"
    using hash_expand_core(2) [OF core] by (simp add: t2' t1)
qed

lemma hash_add_inv:
  assumes "hash_inv head" and "\<forall>e \<in> set (hash_entries head). entry_id e \<noteq> a"
  shows "hash_inv (hash_add head a key data) \<and>
    hash_entries (hash_add head a key data) =
      hash_entries head @ [\<lparr>entry_id = a, entry_key = key, entry_data = data, entry_hashv = hash_jen key\<rparr>]"
proof -
  define t where "t = (case head of None \<Rightarrow> hash_make_table | Some t \<Rightarrow> t)"
  have core: "table_core t" and es: "app_order t = hash_entries head"
    using assms(1) make_table_core
    by (auto simp: t_def hash_inv_def table_inv_def hash_entries_def hash_make_table_def split: option.splits)
  have fr: "\<forall>e \<in> set (app_order t). entry_id e \<noteq> a" using assms(2) es by simp
  show ?thesis
    using hash_add_core [OF core fr refl refl refl, of key data] es
    by (simp add: hash_add_def Let_def t_def [symmetric] hash_inv_def table_inv_def hash_entries_def)
qed

subsection \<open>Deletion\<close>

lemma hash_delete_core:
  assumes "table_core t" and e: "e \<in> set (app_order t)"
    and t1: "t1 = t\<lparr>app_order := remove1 e (app_order t),
                   buckets := (buckets t)[hash_to_bkt (entry_hashv e) (num_buckets t) :=
                      hash_del_in_bkt (buckets t ! hash_to_bkt (entry_hashv e) (num_buckets t)) e],
                   num_items := num_items t - 1\<rparr>"
  shows "table_core t1"
proof -
  let ?bkt = "hash_to_bkt (entry_hashv e) (num_buckets t)"
  have bkt: "?bkt < num_buckets t" by (rule table_core_bkt [OF assms(1)])
  have ok: "bucket_ok (app_order t) (num_buckets t) i (buckets t ! i)" if "i < num_buckets t" for i
    using assms(1) that by (rule table_core_bucket)
  have "e \<in># mset (hh_chain (buckets t ! ?bkt))"
    using ok [OF bkt] e by (simp add: bucket_ok_def)
  then have inb: "e \<in> set (hh_chain (buckets t ! ?bkt))" by simp
  have "bucket_ok (remove1 e (app_order t)) (num_buckets t) i (buckets t1 ! i)" if i: "i < num_buckets t" for i
  proof (cases "i = ?bkt")
    case True
    then show ?thesis
      using ok [OF i] assms(1) i e inb
      by (auto simp: t1 table_core_def bucket_ok_def hash_del_in_bkt_def length_remove1)
  next
    case False
    then show ?thesis
      using ok [OF i] assms(1) i by (auto simp: t1 table_core_def bucket_ok_def)
  qed
  moreover have "distinct (map entry_id (remove1 e (app_order t)))"
    using assms(1) by (auto simp: table_core_def distinct_map intro: distinct_remove1 inj_on_subset dest: notin_set_remove1)
  ultimately show ?thesis
    using assms(1) e by (auto simp: table_core_def t1 length_remove1 dest: set_remove1_subset [THEN subsetD])
qed

lemma hash_delete_inv:
  assumes "hash_inv head" and "e \<in> set (hash_entries head)"
  shows "hash_inv (hash_delete head e) \<and> hash_entries (hash_delete head e) = remove1 e (hash_entries head)"
proof (cases head)
  case None
  with assms show ?thesis by (simp add: hash_entries_def)
next
  case (Some t)
  then have core: "table_core t" and e: "e \<in> set (app_order t)" and ne: "app_order t \<noteq> []"
    using assms by (simp_all add: hash_inv_def table_inv_def hash_entries_def)
  show ?thesis
  proof (cases "app_order t = [e]")
    case True
    with Some show ?thesis by (simp add: hash_delete_def hash_inv_def hash_entries_def)
  next
    case False
    then have "remove1 e (app_order t) \<noteq> []"
      using e ne by (cases "app_order t"; cases "tl (app_order t)") auto
    with hash_delete_core [OF core e refl] False Some show ?thesis
      by (simp add: hash_delete_def Let_def hash_inv_def table_inv_def hash_entries_def)
  qed
qed

lemma hash_count_entries: "hash_inv head \<Longrightarrow> hash_count head = length (hash_entries head)"
  by (auto simp: hash_inv_def table_inv_def table_core_def hash_count_def hash_entries_def split: option.splits)

end
