(* ===== verification/CList.thy ===== *)
theory CList
  imports Prelude
begin

text \<open>
  \<open>cutil/list.c\<close> and \<open>cutil/list_node.h\<close>: a singly linked list between two sentinel nodes,
  with a cached cursor. The nodes live in an explicit heap; a list owns its nodes, so each
  list record carries its own heap and allocator.
\<close>

section \<open>Nodes and lists\<close>

type_synonym addr = nat

record 'a node =
  node_data :: "'a option"
  node_next :: "addr option"
  node_sentinel :: bool

text \<open>
  \<open>node_next\<close> is \<open>None\<close> while the field is uninitialised: \<open>node_new\<close> mallocs a node and
  does not set it. \<open>node_data\<close> is \<open>None\<close> for \<open>NULL\<close>, the data of a sentinel.
\<close>

type_synonym 'a heap = "addr \<Rightarrow> 'a node option"

record 'a clist =
  heap :: "'a heap"
  fresh :: addr
  front_sentinel :: addr
  cursor :: addr
  lsize :: nat
  curpos :: nat
  li_free :: bool

definition node_new :: "'a option \<Rightarrow> bool \<Rightarrow> 'a node" where
  "node_new da sen = \<lparr>node_data = da, node_next = None, node_sentinel = sen\<rparr>"

definition node_get :: "'a heap \<Rightarrow> addr \<Rightarrow> 'a node result" where
  "node_get h a = (case h a of None \<Rightarrow> Inl Use_After_Free | Some nd \<Rightarrow> Inr nd)"

definition node_get_next :: "'a heap \<Rightarrow> addr \<Rightarrow> addr result" where
  "node_get_next h a =
     rbind (node_get h a) (\<lambda>nd. case node_next nd of None \<Rightarrow> Inl Uninitialised | Some b \<Rightarrow> Inr b)"

definition node_set_next :: "'a heap \<Rightarrow> addr \<Rightarrow> addr \<Rightarrow> 'a heap result" where
  "node_set_next h a b =
     rbind (node_get h a) (\<lambda>nd. Inr (h(a \<mapsto> nd\<lparr>node_next := Some b\<rparr>)))"

definition node_free :: "'a heap \<Rightarrow> addr \<Rightarrow> 'a heap result" where
  "node_free h a = rbind (node_get h a) (\<lambda>_. Inr (h(a := None)))"


section \<open>Operations\<close>

definition list_size :: "'a clist \<Rightarrow> nat" where
  "list_size l = lsize l"

text \<open>
  \<open>list_new(flags)\<close> without \<open>LI_ELEM\<close>: two sentinels, the cursor on the front one. The
  argument says whether \<open>LI_FREE\<close> is among the flags.
\<close>

definition list_new :: "bool \<Rightarrow> 'a clist" where
  "list_new flag_free =
     \<lparr>heap = [0 \<mapsto> \<lparr>node_data = None, node_next = Some 1, node_sentinel = True\<rparr>,
             1 \<mapsto> node_new None True],
      fresh = 2, front_sentinel = 0, cursor = 0, lsize = 0, curpos = 0, li_free = flag_free\<rparr>"

text \<open>The loop of \<open>list_get_node\<close>: \<open>k\<close> times \<open>node = node->next\<close>.\<close>

fun walk :: "'a heap \<Rightarrow> nat \<Rightarrow> addr \<Rightarrow> addr result" where
  "walk h 0 a = Inr a"
| "walk h (Suc k) a = rbind (node_get_next h a) (walk h k)"

definition list_get_node :: "'a clist \<Rightarrow> nat \<Rightarrow> (addr \<times> 'a clist) result" where
  "list_get_node l n =
     (let (k, node) = (if curpos l \<le> n then (n - curpos l, cursor l) else (n, front_sentinel l))
      in rbind (walk (heap l) k node)
           (\<lambda>node'. Inr (node', l\<lparr>cursor := node', curpos := n\<rparr>)))"

definition list_get :: "'a clist \<Rightarrow> nat \<Rightarrow> ('a option \<times> 'a clist) result" where
  "list_get l n =
     rbind (list_get_node l n)
       (\<lambda>(node, l'). rbind (node_get (heap l') node) (\<lambda>nd. Inr (node_data nd, l')))"

text \<open>\<open>unsigned int n - 1\<close> wraps around at 0.\<close>

definition pred32 :: "nat \<Rightarrow> nat" where
  "pred32 n = (if n = 0 then 2 ^ 32 - 1 else n - 1)"

text \<open>\<open>malloc\<close> returns an address that is not in use.\<close>

definition list_add :: "'a clist \<Rightarrow> 'a \<Rightarrow> 'a clist result" where
  "list_add l x =
     (let tmp = fresh l; h0 = (heap l)(tmp \<mapsto> node_new (Some x) False)
      in rbind (node_get_next h0 (front_sentinel l))
           (\<lambda>first. rbind (node_set_next h0 tmp first)
           (\<lambda>h1. rbind (node_set_next h1 (front_sentinel l) tmp)
           (\<lambda>h2. Inr (l\<lparr>heap := h2, fresh := Suc tmp, lsize := Suc (lsize l),
                       curpos := (if curpos l \<noteq> 0 then Suc (curpos l) else curpos l)\<rparr>)))))"

definition list_insert :: "'a clist \<Rightarrow> nat \<Rightarrow> 'a \<Rightarrow> 'a clist result" where
  "list_insert l n x =
     rbind (list_get_node l (pred32 n))
       (\<lambda>(previous, l1).
          let tmp = fresh l1; h0 = (heap l1)(tmp \<mapsto> node_new (Some x) False)
          in rbind (node_get_next h0 previous)
               (\<lambda>nx. rbind (node_set_next h0 tmp nx)
               (\<lambda>h1. rbind (node_set_next h1 previous tmp)
               (\<lambda>h2. Inr (l1\<lparr>heap := h2, fresh := Suc tmp, lsize := Suc (lsize l1)\<rparr>)))))"

definition list_append :: "'a clist \<Rightarrow> 'a \<Rightarrow> 'a clist result" where
  "list_append l x = list_insert l (list_size l + 1) x"

text \<open>
  The second component of the result is the list of data pointers handed to
  \<open>free_element\<close>: the removed element where the list has the flag \<open>LI_FREE\<close>.
\<close>

definition list_remove :: "'a clist \<Rightarrow> nat \<Rightarrow> ('a clist \<times> 'a option list) result" where
  "list_remove l n =
     rbind (list_get_node l (pred32 n))
       (\<lambda>(previous, l1). rbind (node_get_next (heap l1) previous)
       (\<lambda>tmp. rbind (node_get_next (heap l1) tmp)
       (\<lambda>nx. rbind (node_set_next (heap l1) previous nx)
       (\<lambda>h1. rbind (node_get h1 tmp)
       (\<lambda>nd. rbind (node_free h1 tmp)
       (\<lambda>h2. Inr (l1\<lparr>heap := h2, lsize := lsize l1 - 1\<rparr>,
                  if li_free l1 then [node_data nd] else [])))))))"

section \<open>The abstraction to lists\<close>

primrec chain :: "'a heap \<Rightarrow> addr \<Rightarrow> (addr \<times> 'a option \<times> bool) list \<Rightarrow> addr \<Rightarrow> bool" where
  "chain h p [] q \<longleftrightarrow> p = q"
| "chain h p (c # cs) q \<longleftrightarrow>
     p = fst c \<and>
     (\<exists>nx. h p = Some \<lparr>node_data = fst (snd c), node_next = Some nx, node_sentinel = snd (snd c)\<rparr>
           \<and> chain h nx cs q)"

lemma chain_append: "chain h p (cs @ ds) q \<longleftrightarrow> (\<exists>m. chain h p cs m \<and> chain h m ds q)"
  by (induction cs arbitrary: p) auto

lemma chain_upd [simp]: "a \<notin> fst ` set cs \<Longrightarrow> chain (h(a := y)) p cs q = chain h p cs q"
  by (induction cs arbitrary: p) auto

lemma walk_chain:
  "chain h p cs q \<Longrightarrow> k \<le> length cs \<Longrightarrow> walk h k p = Inr ((map fst cs @ [q]) ! k)"
proof (induction cs arbitrary: p k)
  case Nil
  then show ?case by simp
next
  case (Cons c cs)
  then show ?case
    by (cases k) (auto simp: node_get_next_def node_get_def)
qed

lemma chain_drop:
  "chain h p cs q \<Longrightarrow> i \<le> length cs \<Longrightarrow> chain h ((map fst cs @ [q]) ! i) (drop i cs) q"
proof (induction cs arbitrary: p i)
  case Nil
  then show ?case by simp
next
  case (Cons c cs)
  then show ?case by (cases i) auto
qed

lemma chain_nth:
  "chain h p cs q \<Longrightarrow> i < length cs \<Longrightarrow>
   \<exists>nx. h (fst (cs ! i)) =
     Some \<lparr>node_data = fst (snd (cs ! i)), node_next = Some nx, node_sentinel = snd (snd (cs ! i))\<rparr>"
proof (induction cs arbitrary: p i)
  case Nil
  then show ?case by simp
next
  case (Cons c cs)
  then show ?case by (cases i) auto
qed

lemma chain_insert:
  assumes "chain h p (cs @ c # ds) q"
    and "distinct (map fst (cs @ c # ds))" and "tmp \<notin> fst ` set (cs @ c # ds)"
  shows "\<exists>nx. node_get_next h (fst c) = Inr nx \<and>
     chain (h(tmp \<mapsto> \<lparr>node_data = d, node_next = Some nx, node_sentinel = s\<rparr>,
              fst c \<mapsto> \<lparr>node_data = fst (snd c), node_next = Some tmp, node_sentinel = snd (snd c)\<rparr>))
       p (cs @ c # (tmp, d, s) # ds) q"
  using assms by (auto simp: chain_append node_get_next_def node_get_def image_Un)

lemma chain_remove:
  assumes "chain h p (cs @ c # r # ds) q" and "distinct (map fst (cs @ c # r # ds))"
  shows "\<exists>nx. node_get_next h (fst c) = Inr (fst r) \<and> node_get_next h (fst r) = Inr nx \<and>
     chain (h(fst c \<mapsto> \<lparr>node_data = fst (snd c), node_next = Some nx, node_sentinel = snd (snd c)\<rparr>,
              fst r := None)) p (cs @ c # ds) q"
  using assms by (auto simp: chain_append node_get_next_def node_get_def image_Un)

definition data_cell :: "addr \<times> 'a \<Rightarrow> addr \<times> 'a option \<times> bool" where
  "data_cell p = (fst p, Some (snd p), False)"

lemma fst_data_cell [simp]: "fst (data_cell p) = fst p"
  by (simp add: data_cell_def)

lemma snd_data_cell [simp]: "snd (data_cell p) = (Some (snd p), False)"
  by (simp add: data_cell_def)

lemma fst_o_data_cell [simp]: "fst \<circ> data_cell = fst"
  by (rule ext) simp

definition cells :: "'a clist \<Rightarrow> (addr \<times> 'a) list \<Rightarrow> (addr \<times> 'a option \<times> bool) list" where
  "cells l ps = (front_sentinel l, None, True) # map data_cell ps"

definition addrs :: "'a clist \<Rightarrow> (addr \<times> 'a) list \<Rightarrow> addr \<Rightarrow> addr list" where
  "addrs l ps b = front_sentinel l # map fst ps @ [b]"

text \<open>
  \<open>list_rep l ps b\<close>: the list \<open>l\<close> holds the elements of \<open>ps\<close> at the addresses given there,
  in this order, between its front sentinel and the back sentinel \<open>b\<close>; its heap holds these
  nodes and no other (nothing leaked), its size is exact, and the cursor points to the node
  whose position the list has cached.
\<close>

definition list_rep :: "'a clist \<Rightarrow> (addr \<times> 'a) list \<Rightarrow> addr \<Rightarrow> bool" where
  "list_rep l ps b \<longleftrightarrow>
     chain (heap l) (front_sentinel l) (cells l ps) b \<and>
     heap l b = Some (node_new None True) \<and>
     distinct (addrs l ps b) \<and>
     dom (heap l) = set (addrs l ps b) \<and>
     (\<forall>a \<in> dom (heap l). a < fresh l) \<and>
     lsize l = length ps \<and>
     curpos l \<le> Suc (length ps) \<and>
     cursor l = addrs l ps b ! curpos l"

definition list_rel :: "'a clist \<Rightarrow> 'a list \<Rightarrow> bool" where
  "list_rel l xs \<longleftrightarrow> (\<exists>ps b. list_rep l ps b \<and> xs = map snd ps)"

lemma list_relI: "list_rep l ps b \<Longrightarrow> list_rel l (map snd ps)"
  by (auto simp: list_rel_def)

lemma list_relE:
  assumes "list_rel l xs"
  obtains ps b where "list_rep l ps b" and "xs = map snd ps"
  using assms by (auto simp: list_rel_def)

lemma map_fst_cells: "map fst (cells l ps) @ [b] = addrs l ps b"
  by (simp add: cells_def addrs_def)

lemma length_cells [simp]: "length (cells l ps) = Suc (length ps)"
  by (simp add: cells_def)

lemma cells_cursor [simp]:
  "cells (l\<lparr>cursor := c, curpos := n\<rparr>) ps = cells l ps"
  "addrs (l\<lparr>cursor := c, curpos := n\<rparr>) ps b = addrs l ps b"
  by (simp_all add: cells_def addrs_def)

lemma list_rep_cursor:
  "list_rep l ps b \<Longrightarrow> n \<le> Suc (length ps) \<Longrightarrow>
   list_rep (l\<lparr>cursor := addrs l ps b ! n, curpos := n\<rparr>) ps b"
  by (simp add: list_rep_def)

lemma list_get_node_rep:
  assumes rep: "list_rep l ps b" and n: "n \<le> Suc (length ps)"
  shows "list_get_node l n =
    Inr (addrs l ps b ! n, l\<lparr>cursor := addrs l ps b ! n, curpos := n\<rparr>)"
proof -
  let ?cs = "cells l ps"
  from rep have ch: "chain (heap l) (front_sentinel l) ?cs b"
    and cp: "curpos l \<le> Suc (length ps)" and cur: "cursor l = addrs l ps b ! curpos l"
    by (simp_all add: list_rep_def)
  have front: "walk (heap l) n (front_sentinel l) = Inr (addrs l ps b ! n)"
    using walk_chain [OF ch, of n] n by (simp add: map_fst_cells)
  have "walk (heap l) (n - curpos l) (cursor l) = Inr (addrs l ps b ! n)" if le: "curpos l \<le> n"
  proof -
    have "chain (heap l) (cursor l) (drop (curpos l) ?cs) b"
      using chain_drop [OF ch, of "curpos l"] cp by (simp add: map_fst_cells cur)
    moreover have "map fst (drop (curpos l) ?cs) @ [b] = drop (curpos l) (addrs l ps b)"
      using cp by (simp add: drop_map map_fst_cells [symmetric])
    ultimately show ?thesis
      using walk_chain [of "heap l" "cursor l" "drop (curpos l) ?cs" b "n - curpos l"] n le cp
      by (simp add: addrs_def)
  qed
  with front show ?thesis by (simp add: list_get_node_def)
qed

lemma addrs_nth_node:
  assumes rep: "list_rep l ps b" and n: "n \<le> Suc (length ps)"
  shows "\<exists>nd. heap l (addrs l ps b ! n) = Some nd \<and>
    node_data nd = (if 0 < n \<and> n \<le> length ps then Some (snd (ps ! (n - 1))) else None)"
proof (cases "n = Suc (length ps)")
  case True
  with rep show ?thesis
    by (auto simp: list_rep_def addrs_def nth_append node_new_def)
next
  case False
  with n have lt: "n < length (cells l ps)" by simp
  then have "addrs l ps b ! n = fst (cells l ps ! n)"
    by (simp add: map_fst_cells [symmetric] nth_append)
  moreover from rep have "chain (heap l) (front_sentinel l) (cells l ps) b"
    by (simp add: list_rep_def)
  ultimately show ?thesis
    using chain_nth [of "heap l" "front_sentinel l" "cells l ps" b n] lt
    by (cases n) (auto simp: cells_def)
qed

lemma length_addrs [simp]: "length (addrs l ps b) = length ps + 2"
  by (simp add: addrs_def)

lemma map_fst_map_data_cell [simp]: "map fst (map data_cell ps) = map fst ps"
  by simp

lemma list_rep_new: "\<exists>b. list_rep (list_new f) [] b"
  by (rule exI [of _ 1]) (auto simp: list_rep_def list_new_def cells_def addrs_def node_new_def)

lemma list_rep_fresh: "list_rep l ps b \<Longrightarrow> fresh l \<notin> set (addrs l ps b) \<and> heap l (fresh l) = None"
  unfolding list_rep_def by (metis domIff less_irrefl)

text \<open>Linking a fresh node in after the node at position \<open>n\<close>.\<close>

lemma link_after:
  assumes rep: "list_rep l ps b" and n: "n \<le> length ps"
    and h0: "h0 = (heap l)(fresh l \<mapsto> node_new (Some x) False)"
    and prev: "prev = addrs l ps b ! n"
    and ps': "ps' = take n ps @ (fresh l, x) # drop n ps"
  shows "\<exists>nx h1 h2. node_get_next h0 prev = Inr nx \<and> node_set_next h0 (fresh l) nx = Inr h1 \<and>
    node_set_next h1 prev (fresh l) = Inr h2 \<and>
    chain h2 (front_sentinel l) (cells l ps') b \<and> h2 b = Some (node_new None True) \<and>
    dom h2 = insert (fresh l) (dom (heap l))"
proof -
  let ?tmp = "fresh l" and ?cs = "take n (cells l ps)" and ?c = "cells l ps ! n"
  let ?ds = "map data_cell (drop n ps)"
  have split: "cells l ps = ?cs @ ?c # ?ds"
    using n id_take_nth_drop [of n "cells l ps"] by (simp add: cells_def drop_map)
  have prev': "prev = fst ?c"
    using n by (simp add: prev map_fst_cells [symmetric] nth_append)
  have cells': "cells l ps' = ?cs @ ?c # data_cell (?tmp, x) # ?ds"
    using n by (cases n) (auto simp: ps' cells_def take_map take_Suc_conv_app_nth)
  have fr: "?tmp \<notin> set (addrs l ps b)" "heap l ?tmp = None"
    using list_rep_fresh [OF rep] by auto
  have dist: "distinct (map fst (cells l ps))" and bn: "b \<notin> fst ` set (cells l ps)"
    using rep by (auto simp: list_rep_def map_fst_cells [symmetric])
  have fr': "?tmp \<notin> fst ` set (cells l ps)" and "?tmp \<noteq> b"
    using fr(1) by (auto simp: map_fst_cells [symmetric])
  have ch: "chain (heap l) (front_sentinel l) (?cs @ ?c # ?ds) b"
    using rep split by (simp add: list_rep_def)
  obtain nx where nx: "node_get_next (heap l) (fst ?c) = Inr nx" and ch':
    "chain ((heap l)(?tmp \<mapsto> \<lparr>node_data = Some x, node_next = Some nx, node_sentinel = False\<rparr>,
       fst ?c \<mapsto> \<lparr>node_data = fst (snd ?c), node_next = Some ?tmp, node_sentinel = snd (snd ?c)\<rparr>))
       (front_sentinel l) (?cs @ ?c # (?tmp, Some x, False) # ?ds) b"
    using chain_insert [OF ch, of ?tmp "Some x" False] dist fr' split by auto
  obtain nx' where at: "heap l (fst ?c) =
      Some \<lparr>node_data = fst (snd ?c), node_next = Some nx', node_sentinel = snd (snd ?c)\<rparr>"
    using chain_nth [OF ch, of n] n by (auto simp: nth_append cells_def)
  have ne: "fst ?c \<noteq> ?tmp" "fst ?c \<noteq> b"
    using fr' bn n by (metis image_eqI length_cells less_Suc_eq_le nth_mem)+
  have [simp]: "nx' = nx"
    using nx at by (simp add: node_get_next_def node_get_def)
  have hb: "heap l b = Some (node_new None True)"
    using rep by (simp add: list_rep_def)
  show ?thesis
    using at ne ch' hb \<open>?tmp \<noteq> b\<close>
    by (auto simp: h0 prev' cells' data_cell_def node_get_next_def node_set_next_def node_get_def
        node_new_def fun_upd_twist)
qed

lemma list_rep_insert:
  assumes rep: "list_rep l ps b" and n: "1 \<le> n" "n \<le> Suc (length ps)"
  shows "\<exists>l' a. list_insert l n x = Inr l' \<and> list_rep l' (take (n - 1) ps @ (a, x) # drop (n - 1) ps) b"
proof -
  let ?n = "n - 1" and ?ps = "take (n - 1) ps @ (fresh l, x) # drop (n - 1) ps"
  have le: "?n \<le> length ps" using n by simp
  let ?l1 = "l\<lparr>cursor := addrs l ps b ! ?n, curpos := ?n\<rparr>"
  have getn: "list_get_node l ?n = Inr (addrs l ps b ! ?n, ?l1)"
    using list_get_node_rep [OF rep, of ?n] le by simp
  obtain nx h1 h2 where h: "node_get_next ((heap l)(fresh l \<mapsto> node_new (Some x) False)) (addrs l ps b ! ?n) = Inr nx"
      "node_set_next ((heap l)(fresh l \<mapsto> node_new (Some x) False)) (fresh l) nx = Inr h1"
      "node_set_next h1 (addrs l ps b ! ?n) (fresh l) = Inr h2"
    and ch: "chain h2 (front_sentinel l) (cells l ?ps) b" and hb: "h2 b = Some (node_new None True)"
    and dm: "dom h2 = insert (fresh l) (dom (heap l))"
    using link_after [OF rep le refl refl refl] by blast
  let ?l2 = "?l1\<lparr>heap := h2, fresh := Suc (fresh l), lsize := Suc (lsize l)\<rparr>"
  have "list_insert l n x = Inr ?l2"
    using n getn h by (simp add: list_insert_def pred32_def Let_def)
  moreover have "list_rep ?l2 ?ps b"
  proof -
    have fr: "fresh l \<notin> set (addrs l ps b)" using list_rep_fresh [OF rep] by simp
    have ad: "addrs l ?ps b = take n (addrs l ps b) @ fresh l # drop n (addrs l ps b)"
      using n by (cases n) (simp_all add: addrs_def take_map drop_map)
    have eqs: "set (addrs l ?ps b) = insert (fresh l) (set (addrs l ps b))"
      by (simp only: ad set_insert_at)
    have dist: "distinct (addrs l ?ps b)"
      using fr rep unfolding ad by (intro distinct_insert_at) (simp_all add: list_rep_def)
    have cu: "addrs l ps b ! ?n = addrs l ?ps b ! ?n"
      unfolding ad using n by (simp add: nth_append)
    have cells2: "cells ?l2 ?ps = cells l ?ps" "addrs ?l2 ?ps b = addrs l ?ps b"
      by (simp_all add: cells_def addrs_def)
    show ?thesis
      unfolding list_rep_def cells2
      using rep ch hb dm dist eqs n cu by (auto simp: list_rep_def less_Suc_eq)
  qed
  ultimately show ?thesis by blast
qed

lemma list_rep_add:
  assumes rep: "list_rep l ps b"
  shows "\<exists>l' a. list_add l x = Inr l' \<and> list_rep l' ((a, x) # ps) b"
proof -
  let ?ps = "(fresh l, x) # ps"
  obtain nx h1 h2 where h: "node_get_next ((heap l)(fresh l \<mapsto> node_new (Some x) False)) (front_sentinel l) = Inr nx"
      "node_set_next ((heap l)(fresh l \<mapsto> node_new (Some x) False)) (fresh l) nx = Inr h1"
      "node_set_next h1 (front_sentinel l) (fresh l) = Inr h2"
    and ch: "chain h2 (front_sentinel l) (cells l ?ps) b" and hb: "h2 b = Some (node_new None True)"
    and dm: "dom h2 = insert (fresh l) (dom (heap l))"
    using link_after [OF rep, where n = 0 and x = x, OF _ refl refl refl] by (simp add: addrs_def) blast
  let ?cp = "if curpos l \<noteq> 0 then Suc (curpos l) else curpos l"
  let ?l2 = "l\<lparr>heap := h2, fresh := Suc (fresh l), lsize := Suc (lsize l), curpos := ?cp\<rparr>"
  have "list_add l x = Inr ?l2"
    using h by (simp add: list_add_def Let_def)
  moreover have "list_rep ?l2 ?ps b"
  proof -
    have fr: "fresh l \<notin> set (addrs l ps b)" using list_rep_fresh [OF rep] by simp
    have ad: "addrs l ?ps b = take 1 (addrs l ps b) @ fresh l # drop 1 (addrs l ps b)"
      by (simp add: addrs_def)
    have eqs: "set (addrs l ?ps b) = insert (fresh l) (set (addrs l ps b))"
      by (simp only: ad set_insert_at)
    have dist: "distinct (addrs l ?ps b)"
      using fr rep unfolding ad by (intro distinct_insert_at) (simp_all add: list_rep_def)
    have cu: "addrs l ps b ! curpos l = addrs l ?ps b ! ?cp"
      by (cases "curpos l") (simp_all add: addrs_def)
    have cells2: "cells ?l2 ?ps = cells l ?ps" "addrs ?l2 ?ps b = addrs l ?ps b"
      by (simp_all add: cells_def addrs_def)
    show ?thesis
      unfolding list_rep_def cells2
      using rep ch hb dm dist eqs cu by (auto simp: list_rep_def less_Suc_eq)
  qed
  ultimately show ?thesis by blast
qed

lemma list_rep_get:
  assumes rep: "list_rep l ps b" and n: "n \<le> Suc (length ps)"
  shows "\<exists>l'. list_get l n =
      Inr (if 0 < n \<and> n \<le> length ps then Some (snd (ps ! (n - 1))) else None, l') \<and> list_rep l' ps b"
proof -
  let ?l1 = "l\<lparr>cursor := addrs l ps b ! n, curpos := n\<rparr>"
  obtain nd where "heap l (addrs l ps b ! n) = Some nd"
    and "node_data nd = (if 0 < n \<and> n \<le> length ps then Some (snd (ps ! (n - 1))) else None)"
    using addrs_nth_node [OF rep n] by blast
  then have "list_get l n = Inr (if 0 < n \<and> n \<le> length ps then Some (snd (ps ! (n - 1))) else None, ?l1)"
    using list_get_node_rep [OF rep n] by (simp add: list_get_def node_get_def)
  moreover have "list_rep ?l1 ps b"
    by (rule list_rep_cursor [OF rep n])
  ultimately show ?thesis by blast
qed

lemma list_rep_remove:
  assumes rep: "list_rep l ps b" and n: "1 \<le> n" "n \<le> length ps"
  shows "\<exists>l'. list_remove l n = Inr (l', if li_free l then [Some (snd (ps ! (n - 1)))] else []) \<and>
    list_rep l' (take (n - 1) ps @ drop n ps) b"
proof -
  let ?m = "n - 1" and ?ps = "take (n - 1) ps @ drop n ps"
  let ?cs = "take (n - 1) (cells l ps)" and ?c = "cells l ps ! (n - 1)" and ?r = "cells l ps ! n"
  let ?ds = "map data_cell (drop n ps)"
  let ?l1 = "l\<lparr>cursor := addrs l ps b ! ?m, curpos := ?m\<rparr>"
  have getn: "list_get_node l ?m = Inr (addrs l ps b ! ?m, ?l1)"
    using list_get_node_rep [OF rep, of ?m] n by simp
  have split: "cells l ps = ?cs @ ?c # ?r # ?ds"
    using n id_take_nth_drop [of ?m "cells l ps"] id_take_nth_drop [of n "cells l ps"]
      Cons_nth_drop_Suc [of n "cells l ps"]
    by (simp add: cells_def drop_map)
  have cells': "cells l ?ps = ?cs @ ?c # ?ds"
    using n by (cases ?m) (auto simp: cells_def take_map take_Suc_conv_app_nth)
  have "?m < length (cells l ps)" and "n < length (cells l ps)"
    using n by (simp_all add: less_Suc_eq_le)
  then have prev: "addrs l ps b ! ?m = fst ?c" and rem: "addrs l ps b ! n = fst ?r"
    by (simp_all add: map_fst_cells [symmetric] nth_append)
  have r: "?r = data_cell (ps ! ?m)"
    using n by (cases n) (simp_all add: cells_def)
  have dist: "distinct (map fst (cells l ps))" and bn: "b \<notin> fst ` set (cells l ps)"
    using rep by (auto simp: list_rep_def map_fst_cells [symmetric])
  have dist_split: "distinct (map fst (?cs @ ?c # ?r # ?ds))"
    using dist by (simp only: split [symmetric])
  have ch: "chain (heap l) (front_sentinel l) (?cs @ ?c # ?r # ?ds) b"
    using rep split by (simp add: list_rep_def)
  have ch0: "chain (heap l) (front_sentinel l) (cells l ps) b"
    using rep by (simp add: list_rep_def)
  obtain nx where nx: "node_get_next (heap l) (fst ?c) = Inr (fst ?r)" "node_get_next (heap l) (fst ?r) = Inr nx"
    and ch': "chain ((heap l)(fst ?c \<mapsto> \<lparr>node_data = fst (snd ?c), node_next = Some nx,
        node_sentinel = snd (snd ?c)\<rparr>, fst ?r := None)) (front_sentinel l) (?cs @ ?c # ?ds) b"
    using chain_remove [OF ch dist_split] by blast
  obtain n1 n2 where at: "heap l (fst ?c) =
      Some \<lparr>node_data = fst (snd ?c), node_next = Some n1, node_sentinel = snd (snd ?c)\<rparr>"
     "heap l (fst ?r) = Some \<lparr>node_data = fst (snd ?r), node_next = Some n2, node_sentinel = snd (snd ?r)\<rparr>"
    using chain_nth [OF ch0 \<open>?m < length (cells l ps)\<close>] chain_nth [OF ch0 \<open>n < length (cells l ps)\<close>]
    by blast
  have in_cells: "?c \<in> set (cells l ps)" "?r \<in> set (cells l ps)"
    using n by simp_all
  then have ne: "fst ?c \<noteq> b" "fst ?r \<noteq> b" using bn by force+
  have ne2: "fst ?c \<noteq> fst ?r"
    using dist n nth_eq_iff_index_eq [OF dist, of ?m n] by simp
  define h2 where "h2 = (heap l)(fst ?c \<mapsto> \<lparr>node_data = fst (snd ?c), node_next = Some nx,
        node_sentinel = snd (snd ?c)\<rparr>, fst ?r := None)"
  let ?l2 = "?l1\<lparr>heap := h2, lsize := lsize l - 1\<rparr>"
  have "list_remove l n = Inr (?l2, if li_free l then [Some (snd (ps ! ?m))] else [])"
    using n getn nx at ne2
    by (simp add: list_remove_def pred32_def prev [simplified] node_set_next_def node_free_def node_get_def h2_def r)
  moreover have "list_rep ?l2 ?ps b"
  proof -
    have ad: "addrs l ?ps b = take n (addrs l ps b) @ drop (Suc n) (addrs l ps b)"
      using n by (cases n) (simp_all add: addrs_def take_map drop_map)
    have dps: "distinct (addrs l ps b)" using rep by (simp add: list_rep_def)
    have eqs: "set (addrs l ?ps b) = set (addrs l ps b) - {fst ?r}"
      unfolding ad using set_delete_at [OF dps, of n] n rem by simp
    have dist': "distinct (addrs l ?ps b)"
      unfolding ad using dps set_take_disj_set_drop_if_distinct [OF dps, of n "Suc n"] by simp
    have cu: "addrs l ps b ! ?m = addrs l ?ps b ! ?m"
      unfolding ad using n by (simp add: nth_append)
    have dm: "dom h2 = dom (heap l) - {fst ?r}"
      using ne2 at by (auto simp: h2_def)
    have hb: "h2 b = Some (node_new None True)"
      using rep ne by (simp add: h2_def list_rep_def)
    have cells2: "cells ?l2 ?ps = cells l ?ps" "addrs ?l2 ?ps b = addrs l ?ps b"
      by (simp_all add: cells_def addrs_def)
    show ?thesis
      unfolding list_rep_def cells2
      using rep ch' cells' hb dm dist' eqs n cu by (auto simp: list_rep_def h2_def)
  qed
  ultimately show ?thesis by blast
qed

section \<open>The list interface\<close>

text \<open>
  What the callers of a list rely on: reading by position (numbered from 1), prepending and
  appending. The loops of the code over a list are all of one shape,
  \<open>for (i = a; i < a + k; ++i) body(list_get(l, i))\<close>: \<open>list_iter\<close> with the body as its
  argument. Reading moves the cursor, so the list is threaded through.
\<close>

fun list_iter ::
  "('l \<Rightarrow> nat \<Rightarrow> ('a option \<times> 'l) result) \<Rightarrow> ('a option \<Rightarrow> 's \<Rightarrow> 's result) \<Rightarrow>
   nat \<Rightarrow> nat \<Rightarrow> 'l \<Rightarrow> 's \<Rightarrow> ('l \<times> 's) result" where
  "list_iter get f i 0 l s = Inr (l, s)"
| "list_iter get f i (Suc k) l s =
     rbind (get l i) (\<lambda>(x, l'). rbind (f x s) (\<lambda>s'. list_iter get f (Suc i) k l' s'))"

locale list_reader =
  fixes size :: "'l \<Rightarrow> nat"
    and get :: "'l \<Rightarrow> nat \<Rightarrow> ('a option \<times> 'l) result"
    and rel :: "'l \<Rightarrow> 'a list \<Rightarrow> bool"
  assumes size_rel: "rel l xs \<Longrightarrow> size l = length xs"
    and get_rel: "rel l xs \<Longrightarrow> 1 \<le> n \<Longrightarrow> n \<le> length xs \<Longrightarrow>
      \<exists>l'. get l n = Inr (Some (xs ! (n - 1)), l') \<and> rel l' xs"
begin

lemma iter_from:
  assumes "rel l xs" and "1 \<le> i" and "i - 1 + k \<le> length xs"
  shows "\<exists>l'. rel l' xs \<and>
    list_iter get f i k l s =
      rbind (fold_result f (map Some (take k (drop (i - 1) xs))) s) (\<lambda>s'. Inr (l', s'))"
  using assms
proof (induction k arbitrary: i l s)
  case 0
  then show ?case by auto
next
  case (Suc k)
  then obtain l1 where g: "get l i = Inr (Some (xs ! (i - 1)), l1)" and r: "rel l1 xs"
    using get_rel [of l xs i] by auto
  have dr: "take (Suc k) (drop (i - 1) xs) = xs ! (i - 1) # take k (drop i xs)"
    using Suc.prems Cons_nth_drop_Suc [of "i - 1" xs, symmetric] by simp
  show ?case
  proof (cases "f (Some (xs ! (i - 1))) s")
    case (Inl e)
    with g r show ?thesis by (auto simp: dr [simplified])
  next
    case (Inr s1)
    obtain l2 where "rel l2 xs" and "list_iter get f (Suc i) k l1 s1 =
        rbind (fold_result f (map Some (take k (drop i xs))) s1) (\<lambda>s'. Inr (l2, s'))"
      using Suc.IH [of l1 "Suc i" s1] Suc.prems r by auto
    with g Inr show ?thesis by (auto simp: dr [simplified])
  qed
qed

lemma iter_all:
  assumes "rel l xs"
  shows "\<exists>l'. rel l' xs \<and>
    list_iter get f 1 (size l) l s =
      rbind (fold_result f (map Some xs) s) (\<lambda>s'. Inr (l', s'))"
  using iter_from [OF assms, of 1 "length xs" f s] size_rel [OF assms] by simp

lemma iter_all_total:
  assumes "rel l xs"
  shows "\<exists>l'. rel l' xs \<and>
    list_iter get (\<lambda>x s. Inr (g x s)) 1 (size l) l s = Inr (l', fold g (map Some xs) s)"
  using iter_all [OF assms, of "\<lambda>x s. Inr (g x s)" s] by (simp add: fold_result_Inr)

end

locale list_builder = list_reader size get rel
  for size :: "'l \<Rightarrow> nat"
    and get :: "'l \<Rightarrow> nat \<Rightarrow> ('a option \<times> 'l) result"
    and rel :: "'l \<Rightarrow> 'a list \<Rightarrow> bool" +
  fixes new :: "'l" and add :: "'l \<Rightarrow> 'a \<Rightarrow> 'l result" and append :: "'l \<Rightarrow> 'a \<Rightarrow> 'l result"
  assumes new_rel: "rel new []"
    and add_rel: "rel l xs \<Longrightarrow> \<exists>l'. add l x = Inr l' \<and> rel l' (x # xs)"
    and append_rel: "rel l xs \<Longrightarrow> \<exists>l'. append l x = Inr l' \<and> rel l' (xs @ [x])"
begin

lemma add_all:
  "rel l xs \<Longrightarrow> \<exists>l'. fold_result (\<lambda>y l. add l y) ys l = Inr l' \<and> rel l' (rev ys @ xs)"
proof (induction ys arbitrary: l xs)
  case Nil
  then show ?case by simp
next
  case (Cons y ys)
  then obtain l1 where "add l y = Inr l1" and "rel l1 (y # xs)"
    using add_rel by blast
  with Cons.IH [of l1 "y # xs"] show ?case by simp
qed

lemma append_all:
  "rel l xs \<Longrightarrow> \<exists>l'. fold_result (\<lambda>y l. append l y) ys l = Inr l' \<and> rel l' (xs @ ys)"
proof (induction ys arbitrary: l xs)
  case Nil
  then show ?case by simp
next
  case (Cons y ys)
  then obtain l1 where "append l y = Inr l1" and "rel l1 (xs @ [y])"
    using append_rel by blast
  with Cons.IH [of l1 "xs @ [y]"] show ?case by simp
qed

text \<open>A loop that prepends the elements that pass a test builds the filtered list, reversed.\<close>

lemma select_all:
  assumes "rel nl ys"
  shows "\<exists>nl'. fold_result (\<lambda>x l. if P x then add l (the x) else Inr l) (map Some xs) nl = Inr nl' \<and>
    rel nl' (rev (filter (\<lambda>x. P (Some x)) xs) @ ys)"
  using assms
proof (induction xs arbitrary: nl ys)
  case Nil
  then show ?case by simp
next
  case (Cons x xs)
  show ?case
  proof (cases "P (Some x)")
    case True
    obtain l1 where "add nl x = Inr l1" and "rel l1 (x # ys)"
      using add_rel [OF Cons.prems] by blast
    with True Cons.IH [of l1 "x # ys"] show ?thesis by simp
  next
    case False
    with Cons.IH [OF Cons.prems] show ?thesis by simp
  qed
qed

end

lemma list_size_rel: "list_rel l xs \<Longrightarrow> list_size l = length xs"
  by (auto simp: list_rel_def list_rep_def list_size_def)

lemma list_get_rel:
  assumes "list_rel l xs" and "1 \<le> n" and "n \<le> length xs"
  shows "\<exists>l'. list_get l n = Inr (Some (xs ! (n - 1)), l') \<and> list_rel l' xs"
  using assms(1)
proof (rule list_relE)
  fix ps b
  assume rep: "list_rep l ps b" and xs: "xs = map snd ps"
  obtain l' where "list_get l n = Inr (Some (snd (ps ! (n - 1))), l')" and rep': "list_rep l' ps b"
    using list_rep_get [OF rep, of n] assms xs by auto
  then show ?thesis using list_relI [OF rep'] assms xs by simp
qed

lemma list_add_rel:
  assumes "list_rel l xs"
  shows "\<exists>l'. list_add l x = Inr l' \<and> list_rel l' (x # xs)"
  using assms
proof (rule list_relE)
  fix ps b
  assume rep: "list_rep l ps b" and xs: "xs = map snd ps"
  obtain l' a where "list_add l x = Inr l'" and rep': "list_rep l' ((a, x) # ps) b"
    using list_rep_add [OF rep] by blast
  then show ?thesis using list_relI [OF rep'] xs by simp
qed

lemma list_insert_rel:
  assumes "list_rel l xs" and "1 \<le> n" and "n \<le> Suc (length xs)"
  shows "\<exists>l'. list_insert l n x = Inr l' \<and> list_rel l' (take (n - 1) xs @ x # drop (n - 1) xs)"
  using assms(1)
proof (rule list_relE)
  fix ps b
  assume rep: "list_rep l ps b" and xs: "xs = map snd ps"
  with assms obtain l' a where "list_insert l n x = Inr l'"
    and rep': "list_rep l' (take (n - 1) ps @ (a, x) # drop (n - 1) ps) b"
    using list_rep_insert [OF rep, of n] by (metis length_map)
  then show ?thesis using list_relI [OF rep'] xs by (simp add: take_map drop_map)
qed

lemma list_append_rel: "list_rel l xs \<Longrightarrow> \<exists>l'. list_append l x = Inr l' \<and> list_rel l' (xs @ [x])"
  using list_insert_rel [of l xs "Suc (length xs)" x] by (simp add: list_append_def list_size_rel)

lemma list_new_rel: "list_rel (list_new f) []"
  using list_rep_new [of f] list_relI [of "list_new f" "[]"] by auto

lemma list_remove_rel:
  assumes "list_rel l xs" and "1 \<le> n" and "n \<le> length xs"
  shows "\<exists>l'. list_remove l n = Inr (l', if li_free l then [Some (xs ! (n - 1))] else []) \<and>
    list_rel l' (take (n - 1) xs @ drop n xs)"
  using assms(1)
proof (rule list_relE)
  fix ps b
  assume rep: "list_rep l ps b" and xs: "xs = map snd ps"
  with assms obtain l' where "list_remove l n = Inr (l', if li_free l then [Some (snd (ps ! (n - 1)))] else [])"
    and rep': "list_rep l' (take (n - 1) ps @ drop n ps) b"
    using list_rep_remove [OF rep, of n] by (metis length_map)
  moreover have "snd (ps ! (n - 1)) = xs ! (n - 1)"
    using assms xs by simp
  ultimately show ?thesis
    using list_relI [OF rep'] xs by (simp add: take_map drop_map)
qed

interpretation li: list_builder list_size list_get list_rel "list_new f" list_add list_append for f
  by unfold_locales
    (simp_all add: list_size_rel list_get_rel [simplified] list_new_rel list_add_rel list_append_rel)

section \<open>Loops over lists\<close>

definition list_each_r ::
  "'a clist \<Rightarrow> ('a option \<Rightarrow> 's \<Rightarrow> 's result) \<Rightarrow> 's \<Rightarrow> ('a clist \<times> 's) result" where
  "list_each_r l f s = list_iter list_get f 1 (list_size l) l s"

text \<open>\<open>list_map_r(l, fun, args)\<close>; \<open>fun\<close> is the function with its \<open>args\<close> already supplied.\<close>

definition list_map_r :: "'a clist \<Rightarrow> ('a option \<Rightarrow> 'b) \<Rightarrow> ('a clist \<times> 'b clist) result" where
  "list_map_r l f =
     list_iter list_get (\<lambda>x ret. list_append ret (f x)) 1 (list_size l) l (list_new False)"

text \<open>
  \<open>list_append_list(l1, l2)\<close> for two different lists. An element read as \<open>NULL\<close> would be
  appended as such; positions 1 to the size never are (\<open>list_get_rel\<close>).
\<close>

definition list_append_list :: "'a clist \<Rightarrow> 'a clist \<Rightarrow> ('a clist \<times> 'a clist) result" where
  "list_append_list l1 l2 =
     rbind (list_iter list_get (\<lambda>x l. rbind (deref x) (list_append l)) 1 (list_size l2) l2 l1)
       (\<lambda>(l2', l1'). Inr (l1', l2'))"

definition list_copy :: "'a clist \<Rightarrow> ('a clist \<times> 'a clist) result" where
  "list_copy l = list_append_list (list_new False) l"

text \<open>\<open>list_to_array\<close> reads the positions 0 to size - 1, in this order.\<close>

definition list_to_array :: "'a clist \<Rightarrow> ('a clist \<times> 'a option list) result" where
  "list_to_array l =
     list_iter list_get (\<lambda>x array. Inr (array @ [x])) 0 (list_size l) l []"

text \<open>
  \<open>list_free\<close>: the loop frees the data nodes; it returns the remaining heap, the node it
  stopped at and the elements handed to \<open>free_element\<close>.
\<close>

partial_function (option) free_nodes ::
  "'a heap \<Rightarrow> addr \<Rightarrow> bool \<Rightarrow> 'a option list \<Rightarrow> ('a heap \<times> addr \<times> 'a option list) result option" where
  "free_nodes h node fl freed =
     (case node_get h node of
        Inl e \<Rightarrow> Some (Inl e)
      | Inr nd \<Rightarrow>
          if node_sentinel nd then Some (Inr (h, node, freed))
          else (case node_get_next h node of
                  Inl e \<Rightarrow> Some (Inl e)
                | Inr tmp \<Rightarrow>
                    (case node_free h node of
                       Inl e \<Rightarrow> Some (Inl e)
                     | Inr h' \<Rightarrow>
                         free_nodes h' tmp fl (if fl then freed @ [node_data nd] else freed))))"

definition list_free :: "'a clist option \<Rightarrow> ('a heap \<times> 'a option list) result option" where
  "list_free lp =
     (case lp of
        None \<Rightarrow> Some (Inr (Map.empty, []))
      | Some l \<Rightarrow>
          (case node_get_next (heap l) (front_sentinel l) of
             Inl e \<Rightarrow> Some (Inl e)
           | Inr node \<Rightarrow>
               map_option
                 (\<lambda>r. rbind r (\<lambda>(h, back, freed). rbind (node_free h back)
                        (\<lambda>h1. rbind (node_free h1 (front_sentinel l)) (\<lambda>h2. Inr (h2, freed)))))
                 (free_nodes (heap l) node (li_free l) [])))"

text \<open>\<open>list_remove_value\<close>: the body of the loop, then the loop.\<close>

definition remove_next :: "'a heap \<Rightarrow> nat \<Rightarrow> addr \<Rightarrow> 'a \<Rightarrow> ('a heap \<times> nat \<times> addr) result" where
  "remove_next h sz n v =
     rbind (node_get_next h n) (\<lambda>nx. rbind (node_get h nx)
     (\<lambda>nd. rbind
        (if \<not> node_sentinel nd \<and> node_data nd = Some v
         then rbind (node_get_next h nx) (\<lambda>nn. rbind (node_set_next h n nn)
              (\<lambda>h1. rbind (node_free h1 nx) (\<lambda>h2. Inr (h2, sz - 1))))
         else Inr (h, sz))
     (\<lambda>(h', sz'). rbind (node_get_next h' n) (\<lambda>n'. Inr (h', sz', n')))))"

partial_function (option) remove_value_loop ::
  "'a heap \<Rightarrow> nat \<Rightarrow> addr \<Rightarrow> 'a \<Rightarrow> ('a heap \<times> nat) result option" where
  "remove_value_loop h sz n v =
     (case remove_next h sz n v of
        Inl e \<Rightarrow> Some (Inl e)
      | Inr (h', sz', n') \<Rightarrow>
          (case node_get h' n' of
             Inl e \<Rightarrow> Some (Inl e)
           | Inr nd \<Rightarrow>
               if node_sentinel nd then Some (Inr (h', sz')) else remove_value_loop h' sz' n' v))"

definition list_remove_value :: "'a clist \<Rightarrow> 'a \<Rightarrow> 'a clist result option" where
  "list_remove_value l v =
     map_option (\<lambda>r. rbind r (\<lambda>(h, sz).
         Inr (l\<lparr>heap := h, lsize := sz, curpos := 0, cursor := front_sentinel l\<rparr>)))
       (remove_value_loop (heap l) (lsize l) (front_sentinel l) v)"

lemma list_each_r_rel:
  assumes "list_rel l xs"
  shows "\<exists>l'. list_rel l' xs \<and>
    list_each_r l f s = rbind (fold_result f (map Some xs) s) (\<lambda>s'. Inr (l', s'))"
  using li.iter_all [OF assms, of f s] by (simp add: list_each_r_def)

lemma list_map_r_rel:
  assumes "list_rel l xs"
  shows "\<exists>l' r. list_map_r l f = Inr (l', r) \<and> list_rel l' xs \<and> list_rel r (map (\<lambda>x. f (Some x)) xs)"
proof -
  let ?g = "\<lambda>x ret. list_append ret (f x)"
  obtain l' where l': "list_rel l' xs" and it: "list_map_r l f =
      rbind (fold_result ?g (map Some xs) (list_new False)) (\<lambda>s'. Inr (l', s'))"
    using li.iter_all [OF assms, of ?g "list_new False"] unfolding list_map_r_def by blast
  obtain r where r: "fold_result (\<lambda>y l. list_append l y) (map f (map Some xs)) (list_new False) = Inr r"
    and rr: "list_rel r ([] @ map f (map Some xs))"
    using li.append_all [OF list_new_rel, of "map f (map Some xs)"] by blast
  have "list_map_r l f = Inr (l', r)"
    using it r by (simp add: fold_result_map)
  with l' rr show ?thesis by (auto simp: comp_def)
qed

lemma list_append_list_rel:
  assumes "list_rel l1 xs" and "list_rel l2 ys"
  shows "\<exists>l1' l2'. list_append_list l1 l2 = Inr (l1', l2') \<and> list_rel l1' (xs @ ys) \<and> list_rel l2' ys"
proof -
  let ?f = "\<lambda>x l. rbind (deref x) (list_append l)"
  obtain l2' where l2': "list_rel l2' ys" and it:
    "list_iter list_get ?f 1 (list_size l2) l2 l1 = rbind (fold_result ?f (map Some ys) l1) (\<lambda>s'. Inr (l2', s'))"
    using li.iter_all [OF assms(2), of ?f l1] by blast
  obtain r where r: "fold_result (\<lambda>y l. list_append l y) ys l1 = Inr r" and rr: "list_rel r (xs @ ys)"
    using li.append_all [OF assms(1), of ys] by blast
  have "list_append_list l1 l2 = Inr (r, l2')"
    using it r by (simp add: list_append_list_def fold_result_map)
  with l2' rr show ?thesis by blast
qed

lemma list_copy_rel:
  "list_rel l xs \<Longrightarrow> \<exists>n l'. list_copy l = Inr (n, l') \<and> list_rel n xs \<and> list_rel l' xs"
  using list_append_list_rel [OF list_new_rel, of l xs False] by (simp add: list_copy_def)

lemma list_get_zero:
  assumes "list_rel l xs"
  shows "\<exists>l'. list_get l 0 = Inr (None, l') \<and> list_rel l' xs"
  using assms
proof (rule list_relE)
  fix ps b
  assume rep: "list_rep l ps b" and xs: "xs = map snd ps"
  obtain l' where "list_get l 0 = Inr (None, l')" and rep': "list_rep l' ps b"
    using list_rep_get [OF rep, of 0] by auto
  then show ?thesis using list_relI [OF rep'] xs by simp
qed

lemma list_to_array_rel:
  assumes "list_rel l xs"
  shows "\<exists>l'. list_rel l' xs \<and>
    list_to_array l = Inr (l', if xs = [] then [] else None # map Some (butlast xs))"
proof (cases xs)
  case Nil
  with assms show ?thesis by (auto simp: list_to_array_def list_size_rel)
next
  case (Cons y ys)
  obtain l1 where g: "list_get l 0 = Inr (None, l1)" and r: "list_rel l1 xs"
    using list_get_zero [OF assms] by blast
  have ff: "fold (\<lambda>x a. a @ [x]) zs as = as @ zs" for zs as :: "'a option list"
    by (induction zs arbitrary: as) auto
  obtain l2 where "list_rel l2 xs" and
    "list_iter list_get (\<lambda>x array. Inr (array @ [x])) 1 (length ys) l1 [None] =
       Inr (l2, None # map Some (take (length ys) xs))"
    using li.iter_from [OF r, of 1 "length ys" "\<lambda>x array. Inr (array @ [x])" "[None]"] Cons
    by (auto simp: fold_result_Inr ff)
  moreover have "take (length ys) xs = butlast xs"
    using Cons by (simp add: butlast_conv_take)
  ultimately show ?thesis
    using g Cons list_size_rel [OF assms] by (auto simp: list_to_array_def)
qed

section \<open>Freeing a list, removing a value\<close>

lemma free_nodes_chain:
  assumes "chain h node (map data_cell ps) b" and "h b = Some (node_new None True)"
    and "distinct (map fst ps @ [b])"
  shows "free_nodes h node fl freed =
    Some (Inr (h |` (- fst ` set ps), b, freed @ (if fl then map (\<lambda>p. Some (snd p)) ps else [])))"
  using assms
proof (induction ps arbitrary: h node freed)
  case Nil
  then show ?case
    by (subst free_nodes.simps) (simp add: node_get_def node_new_def restrict_map_def)
next
  case (Cons p ps)
  then obtain nx where nd: "h node = Some \<lparr>node_data = Some (snd p), node_next = Some nx, node_sentinel = False\<rparr>"
    and ch: "chain h nx (map data_cell ps) b" and node: "node = fst p"
    by auto
  let ?h = "h(node := None)"
  have 1: "chain ?h nx (map data_cell ps) b"
    using ch Cons.prems(3) node by (subst chain_upd) (auto simp: image_image)
  have 2: "?h b = Some (node_new None True)"
    using Cons.prems(2,3) node by auto
  have 3: "distinct (map fst ps @ [b])"
    using Cons.prems(3) by simp
  have "free_nodes ?h nx fl (if fl then freed @ [Some (snd p)] else freed) =
    Some (Inr (?h |` (- fst ` set ps), b,
      (if fl then freed @ [Some (snd p)] else freed) @ (if fl then map (\<lambda>p. Some (snd p)) ps else [])))"
    by (rule Cons.IH [OF 1 2 3])
  moreover have "?h |` (- fst ` set ps) = h |` (- fst ` set (p # ps))"
    using node by (auto simp: restrict_map_def)
  ultimately show ?case
    using nd by (subst free_nodes.simps) (cases fl; simp add: node_get_def node_get_next_def node_free_def)
qed

lemma list_free_rel:
  assumes "list_rel l xs"
  shows "list_free (Some l) = Some (Inr (Map.empty, if li_free l then map Some xs else []))"
  using assms
proof (rule list_relE)
  fix ps b
  assume rep: "list_rep l ps b" and xs: "xs = map snd ps"
  obtain nx where front: "heap l (front_sentinel l) = Some \<lparr>node_data = None, node_next = Some nx, node_sentinel = True\<rparr>"
    and ch: "chain (heap l) nx (map data_cell ps) b"
    using rep by (auto simp: list_rep_def cells_def)
  have b: "heap l b = Some (node_new None True)" and dist: "distinct (addrs l ps b)"
    and dom: "dom (heap l) = set (addrs l ps b)"
    using rep by (simp_all add: list_rep_def)
  define h where "h = heap l |` (- fst ` set ps)"
  have fn: "free_nodes (heap l) nx (li_free l) [] =
      Some (Inr (h, b, if li_free l then map Some xs else []))"
    using free_nodes_chain [OF ch b] dist by (simp add: addrs_def xs comp_def h_def)
  have hb: "h b = Some (node_new None True)" "b \<noteq> front_sentinel l"
    "h (front_sentinel l) = heap l (front_sentinel l)"
    using b dist by (auto simp: restrict_map_def addrs_def h_def)
  have "(h(b := None, front_sentinel l := None)) a = None" for a
    using dom by (cases "a \<in> dom (heap l)") (auto simp: restrict_map_def addrs_def domIff h_def)
  then have "h(b := None, front_sentinel l := None) = Map.empty" by (rule ext)
  then show ?thesis
    using front fn hb by (simp add: list_free_def node_get_next_def node_get_def node_free_def)
qed

text \<open>
  What \<open>list_remove_value\<close> computes: after a removal the loop advances past the element that
  took the removed one's place without looking at it.
\<close>

fun skip_remove :: "('x \<Rightarrow> bool) \<Rightarrow> 'x list \<Rightarrow> 'x list" where
  "skip_remove P [] = []"
| "skip_remove P [x] = (if P x then [] else [x])"
| "skip_remove P (x # y # ys) = (if P x then y # skip_remove P ys else x # skip_remove P (y # ys))"

lemma map_skip_remove: "map f (skip_remove (\<lambda>x. P (f x)) xs) = skip_remove P (map f xs)"
  by (induction "\<lambda>x. P (f x)" xs rule: skip_remove.induct) auto

lemma set_skip_remove: "set (skip_remove P xs) \<subseteq> set xs"
  by (induction P xs rule: skip_remove.induct) auto

lemma length_skip_remove: "length (skip_remove P xs) \<le> length xs"
  by (induction P xs rule: skip_remove.induct) auto

lemma distinct_map_skip_remove: "distinct (map f xs) \<Longrightarrow> distinct (map f (skip_remove P xs))"
proof (induction P xs rule: skip_remove.induct)
  case (3 P x y ys)
  then show ?case using set_skip_remove [of P ys] set_skip_remove [of P "y # ys"] by auto
qed auto

text \<open>Where no two neighbours match, this is the filter a caller expects.\<close>

fun no_adjacent :: "('x \<Rightarrow> bool) \<Rightarrow> 'x list \<Rightarrow> bool" where
  "no_adjacent P (x # y # ys) \<longleftrightarrow> \<not> (P x \<and> P y) \<and> no_adjacent P (y # ys)"
| "no_adjacent P _ \<longleftrightarrow> True"

lemma no_adjacent_tl: "no_adjacent P (x # xs) \<Longrightarrow> no_adjacent P xs"
  by (cases xs) auto

lemma skip_remove_filter: "no_adjacent P xs \<Longrightarrow> skip_remove P xs = filter (\<lambda>x. \<not> P x) xs"
  by (induction P xs rule: skip_remove.induct) (auto dest: no_adjacent_tl)

lemma remove_next_keep:
  assumes "chain h n (c # d # cs) b" and "snd (snd d) \<or> fst (snd d) \<noteq> Some v"
  shows "remove_next h sz n v = Inr (h, sz, fst d)"
  using assms by (auto simp: remove_next_def node_get_next_def node_get_def)

lemma remove_next_end:
  assumes "chain h n [c] b" and "h b = Some (node_new None True)"
  shows "remove_next h sz n v = Inr (h, sz, b)"
  using assms by (auto simp: remove_next_def node_get_next_def node_get_def node_new_def)

lemma remove_next_remove:
  assumes "chain h n (c # d # cs) b" and "snd d = (Some v, False)" and "fst c \<noteq> fst d"
    and "distinct (map fst (c # d # cs))"
  shows "\<exists>nx. remove_next h sz n v =
    Inr (h(n \<mapsto> \<lparr>node_data = fst (snd c), node_next = Some nx, node_sentinel = snd (snd c)\<rparr>,
           fst d := None), sz - 1, nx) \<and> chain h nx cs b"
  using assms by (auto simp: remove_next_def node_get_next_def node_set_next_def node_free_def node_get_def)

definition remove_post ::
  "'a heap \<Rightarrow> addr \<Rightarrow> addr \<times> 'a option \<times> bool \<Rightarrow> (addr \<times> 'a) list \<Rightarrow> (addr \<times> 'a) list \<Rightarrow> addr \<Rightarrow> 'a heap \<Rightarrow> bool"
  where
  "remove_post h n c ps ps' b h' \<longleftrightarrow>
     chain h' n (c # map data_cell ps') b \<and> h' b = Some (node_new None True) \<and>
     dom h' = dom h - (fst ` set ps - fst ` set ps') \<and>
     (\<forall>a. a \<notin> insert (fst c) (fst ` set ps) \<longrightarrow> h' a = h a)"

lemma remove_value_step:
  assumes "remove_next h sz n v = Inr (h1, sz1, n1)" and "h1 n1 = Some nd" and "\<not> node_sentinel nd"
  shows "remove_value_loop h sz n v = remove_value_loop h1 sz1 n1 v"
  using assms by (subst remove_value_loop.simps) (simp add: node_get_def)

lemma remove_value_stop:
  assumes "remove_next h sz n v = Inr (h1, sz1, n1)" and "h1 n1 = Some nd" and "node_sentinel nd"
  shows "remove_value_loop h sz n v = Some (Inr (h1, sz1))"
  using assms by (subst remove_value_loop.simps) (simp add: node_get_def)

text \<open>The postcondition of the rest of the loop, carried over one iteration: removing, keeping.\<close>

lemma remove_post_removed:
  assumes post: "remove_post h1 (fst y) (data_cell y) ys ys' b h'"
    and h1: "h1 = h(n \<mapsto> \<lparr>node_data = fst (snd c), node_next = Some (fst y),
        node_sentinel = snd (snd c)\<rparr>, fst x := None)"
    and n: "n = fst c" "h n \<noteq> None" and dist: "distinct (fst c # map fst (x # y # ys) @ [b])"
    and sub: "set ys' \<subseteq> set ys"
  shows "remove_post h n c (x # y # ys) (y # ys') b h'"
  unfolding remove_post_def
proof (intro conjI allI impI)
  have fr: "a \<noteq> fst y \<Longrightarrow> a \<notin> fst ` set ys \<Longrightarrow> h' a = h1 a" for a
    using post by (simp add: remove_post_def)
  have "h' n = h1 n" using dist n by (intro fr) auto
  then show "chain h' n (c # map data_cell (y # ys')) b"
    using post n dist by (simp add: remove_post_def h1)
  show "h' b = Some (node_new None True)"
    using post by (simp add: remove_post_def)
  have dom1: "dom h1 = dom h - {fst x}" using dist n by (auto simp: h1)
  have x: "fst x \<notin> fst ` set ys'" "fst x \<noteq> fst y" "fst y \<notin> fst ` set ys"
    using dist sub by auto
  have "dom h' = dom h - {fst x} - (fst ` set ys - fst ` set ys')"
    using post by (simp add: remove_post_def dom1)
  also have "\<dots> = dom h - (fst ` set (x # y # ys) - fst ` set (y # ys'))"
  proof -
    have "A - {p} - (S - S') = A - (insert p (insert q S) - insert q S')"
      if "p \<notin> S'" "p \<noteq> q" "q \<notin> S" for A S S' and p q :: addr
      using that by auto
    from this [OF x] show ?thesis by simp
  qed
  finally show "dom h' = dom h - (fst ` set (x # y # ys) - fst ` set (y # ys'))" .
  show "h' a = h a" if "a \<notin> insert (fst c) (fst ` set (x # y # ys))" for a
    using that n fr [of a] by (simp add: h1)
qed

lemma remove_post_kept:
  assumes post: "remove_post h (fst x) (data_cell x) ys ys' b h'"
    and hn: "h n = Some \<lparr>node_data = fst (snd c), node_next = Some (fst x), node_sentinel = snd (snd c)\<rparr>"
    and n: "n = fst c" and dist: "distinct (fst c # map fst (x # ys) @ [b])" and sub: "set ys' \<subseteq> set ys"
  shows "remove_post h n c (x # ys) (x # ys') b h'"
  unfolding remove_post_def
proof (intro conjI allI impI)
  have fr: "a \<noteq> fst x \<Longrightarrow> a \<notin> fst ` set ys \<Longrightarrow> h' a = h a" for a
    using post by (simp add: remove_post_def)
  have "h' n = h n" using dist n by (intro fr) auto
  then show "chain h' n (c # map data_cell (x # ys')) b"
    using post n hn by (simp add: remove_post_def)
  show "h' b = Some (node_new None True)"
    using post by (simp add: remove_post_def)
  have "fst x \<notin> fst ` set ys" using dist by auto
  then have "fst ` set (x # ys) - fst ` set (x # ys') = fst ` set ys - fst ` set ys'" by auto
  then show "dom h' = dom h - (fst ` set (x # ys) - fst ` set (x # ys'))"
    using post by (simp add: remove_post_def)
  show "h' a = h a" if "a \<notin> insert (fst c) (fst ` set (x # ys))" for a
    using that fr [of a] by simp
qed

lemma remove_post_Nil:
  "chain h n [c] b \<Longrightarrow> h b = Some (node_new None True) \<Longrightarrow> remove_post h n c [] [] b h"
  by (auto simp: remove_post_def)

lemma remove_value_chain:
  fixes v :: 'a
  assumes "chain h n (c # map data_cell ps) b" and "h b = Some (node_new None True)"
    and "distinct (fst c # map fst ps @ [b])"
  shows "\<exists>h'. remove_value_loop h sz n v =
      Some (Inr (h', sz - (length ps - length (skip_remove (\<lambda>p. snd p = v) ps)))) \<and>
    remove_post h n c ps (skip_remove (\<lambda>p. snd p = v) ps) b h'"
  using assms
proof (induction "\<lambda>p :: addr \<times> 'a. snd p = v" ps arbitrary: h n c sz rule: skip_remove.induct)
  case 1
  then have "remove_next h sz n v = Inr (h, sz, b)"
    by (intro remove_next_end) auto
  from remove_value_stop [OF this "1"(2)] 1 show ?case
    using remove_post_Nil [OF "1"(1) [simplified list.map(1)] "1"(2)] by (simp add: node_new_def)
next
  case (2 x)
  show ?case
  proof (cases "snd x = v")
    case True
    obtain nx where r: "remove_next h sz n v = Inr (h(n \<mapsto> \<lparr>node_data = fst (snd c), node_next = Some nx,
        node_sentinel = snd (snd c)\<rparr>, fst x := None), sz - 1, nx)" and "chain h nx [] b"
      using remove_next_remove [of h n c "data_cell x" "[]" b v sz] 2 True by auto
    with remove_value_stop [OF r, of "node_new None True"] 2 True show ?thesis
      by (auto simp: remove_post_def node_new_def)
  next
    case False
    have keep: "remove_next h sz n v = Inr (h, sz, fst x)"
      using remove_next_keep [of h n c "data_cell x" "[]" b v sz] 2 False by auto
    have stop: "remove_next h sz (fst x) v = Inr (h, sz, b)"
      using 2 by (intro remove_next_end [of _ _ "data_cell x"]) auto
    obtain nd where nd: "h (fst x) = Some nd" "\<not> node_sentinel nd"
      using 2(1) by auto
    have "remove_value_loop h sz n v = remove_value_loop h sz (fst x) v"
      by (rule remove_value_step [OF keep nd])
    then show ?thesis
      using remove_value_stop [OF stop 2(2)] 2 False
      by (auto simp: remove_post_def node_new_def)
  qed
next
  case (3 x y ys)
  note sub = set_skip_remove [of "\<lambda>p. snd p = v"]
  show ?case
  proof (cases "snd x = v")
    case True
    obtain nx where r: "remove_next h sz n v = Inr (h(n \<mapsto> \<lparr>node_data = fst (snd c), node_next = Some nx,
        node_sentinel = snd (snd c)\<rparr>, fst x := None), sz - 1, nx)"
      and chn: "chain h nx (map data_cell (y # ys)) b"
      using remove_next_remove [of h n c "data_cell x" "map data_cell (y # ys)" b v sz] 3(3-5) True by auto
    then have nx: "nx = fst y" by auto
    define h1 where "h1 = h(n \<mapsto> \<lparr>node_data = fst (snd c), node_next = Some (fst y),
        node_sentinel = snd (snd c)\<rparr>, fst x := None)"
    have n: "n = fst c" "h n \<noteq> None" using 3(3) by auto
    have ch1: "chain h1 (fst y) (data_cell y # map data_cell ys) b"
      using chn 3(5) n nx by (simp add: h1_def image_image)
    have b1: "h1 b = Some (node_new None True)" and d1: "distinct (fst (data_cell y) # map fst ys @ [b])"
      using 3(4,5) n by (auto simp: h1_def)
    obtain h' where loop: "remove_value_loop h1 (sz - 1) (fst y) v =
        Some (Inr (h', sz - 1 - (length ys - length (skip_remove (\<lambda>p. snd p = v) ys))))"
      and post: "remove_post h1 (fst y) (data_cell y) ys (skip_remove (\<lambda>p. snd p = v) ys) b h'"
      using "3.hyps"(1) [OF True ch1 b1 d1, of "sz - 1"] by blast
    obtain nd where nd: "h1 (fst y) = Some nd" "\<not> node_sentinel nd"
      using ch1 by auto
    have "remove_value_loop h sz n v = remove_value_loop h1 (sz - 1) (fst y) v"
      by (rule remove_value_step [OF r [unfolded nx, folded h1_def] nd])
    with loop remove_post_removed [OF post h1_def n 3(5) sub] True show ?thesis
      using length_skip_remove [of "\<lambda>p. snd p = v" ys] by (simp add: Suc_diff_le)
  next
    case False
    have keep: "remove_next h sz n v = Inr (h, sz, fst x)"
      using remove_next_keep [of h n c "data_cell x" "map data_cell (y # ys)" b v sz] 3(3) False by auto
    have hn: "h n = Some \<lparr>node_data = fst (snd c), node_next = Some (fst x), node_sentinel = snd (snd c)\<rparr>"
      and chx: "chain h (fst x) (data_cell x # map data_cell (y # ys)) b" and n: "n = fst c"
      using 3(3) by auto
    have dx: "distinct (fst (data_cell x) # map fst (y # ys) @ [b])" using 3(5) by simp
    obtain h' where loop: "remove_value_loop h sz (fst x) v =
        Some (Inr (h', sz - (length (y # ys) - length (skip_remove (\<lambda>p. snd p = v) (y # ys)))))"
      and post: "remove_post h (fst x) (data_cell x) (y # ys) (skip_remove (\<lambda>p. snd p = v) (y # ys)) b h'"
      using "3.hyps"(2) [OF False chx 3(4) dx, of sz] by blast
    obtain nd where nd: "h (fst x) = Some nd" "\<not> node_sentinel nd"
      using chx by auto
    have "remove_value_loop h sz n v = remove_value_loop h sz (fst x) v"
      by (rule remove_value_step [OF keep nd])
    with loop remove_post_kept [OF post hn n 3(5) sub] False show ?thesis
      using length_skip_remove [of "\<lambda>p. snd p = v" "y # ys"] by simp
  qed
qed

lemma list_remove_value_rel:
  assumes "list_rel l xs"
  shows "\<exists>l'. list_remove_value l v = Some (Inr l') \<and> list_rel l' (skip_remove (\<lambda>x. x = v) xs)"
  using assms
proof (rule list_relE)
  fix ps b
  assume rep: "list_rep l ps b" and xs: "xs = map snd ps"
  let ?c = "(front_sentinel l, None, True)" and ?ps = "skip_remove (\<lambda>p. snd p = v) ps"
  have ch: "chain (heap l) (front_sentinel l) (?c # map data_cell ps) b"
    and b: "heap l b = Some (node_new None True)" and d: "distinct (fst ?c # map fst ps @ [b])"
    and dm: "dom (heap l) = set (addrs l ps b)"
    using rep by (simp_all add: list_rep_def cells_def addrs_def)
  obtain h where loop: "remove_value_loop (heap l) (lsize l) (front_sentinel l) v =
      Some (Inr (h, lsize l - (length ps - length ?ps)))"
    and post: "remove_post (heap l) (front_sentinel l) ?c ps ?ps b h"
    using remove_value_chain [OF ch b d] by blast
  let ?l = "l\<lparr>heap := h, lsize := lsize l - (length ps - length ?ps), curpos := 0,
      cursor := front_sentinel l\<rparr>"
  have sub: "fst ` set ?ps \<subseteq> fst ` set ps"
    using set_skip_remove by (rule image_mono)
  have dh: "dom h = set (addrs l ?ps b)"
    using post sub d unfolding remove_post_def dm by (auto simp: addrs_def)
  have "list_rep ?l ?ps b"
    using rep post sub d dh dm length_skip_remove [of "\<lambda>p. snd p = v" ps]
      distinct_map_skip_remove [of fst ps "\<lambda>p. snd p = v"]
    by (auto simp: list_rep_def remove_post_def cells_def addrs_def)
  moreover have "list_remove_value l v = Some (Inr ?l)"
    using loop by (simp add: list_remove_value_def)
  moreover have "map snd ?ps = skip_remove (\<lambda>x. x = v) xs"
    using map_skip_remove [of snd "\<lambda>x. x = v" ps] by (simp add: xs)
  ultimately show ?thesis using list_relI by metis
qed

text \<open>\<open>list_free\<close> as its callers see it: it returns, or it is a fault.\<close>

definition list_free_call :: "'a clist \<Rightarrow> unit result" where
  "list_free_call l =
     (case list_free (Some l) of None \<Rightarrow> Inl Diverges | Some r \<Rightarrow> rbind r (\<lambda>_. Inr ()))"

lemma list_free_call_rel: "list_rel l xs \<Longrightarrow> list_free_call l = Inr ()"
  by (simp add: list_free_call_def list_free_rel)

section \<open>The remaining entry points\<close>

text \<open>
  \<open>list_new\<close> with \<open>LI_ELEM\<close>: the variable arguments are appended up to a null pointer. Reading
  past the last argument is undefined.
\<close>

fun list_new_args :: "'a option list \<Rightarrow> 'a clist \<Rightarrow> 'a clist result" where
  "list_new_args [] l = Inl Out_Of_Bounds"
| "list_new_args (None # args) l = Inr l"
| "list_new_args (Some arg # args) l = rbind (list_append l arg) (list_new_args args)"

definition list_new_elem :: "bool \<Rightarrow> 'a option list \<Rightarrow> 'a clist result" where
  "list_new_elem flag_free args = list_new_args args (list_new flag_free)"

text \<open>\<open>uncurry\<close> casts its second argument back to a function and applies it.\<close>

definition uncurry :: "'a option \<Rightarrow> ('a option \<Rightarrow> 'b) \<Rightarrow> 'b" where
  "uncurry arg f = f arg"

definition list_map :: "'a clist \<Rightarrow> ('a option \<Rightarrow> 'b) \<Rightarrow> ('a clist \<times> 'b clist) result" where
  "list_map l f = list_map_r l (\<lambda>x. uncurry x f)"

definition list_each :: "'a clist \<Rightarrow> ('a option \<Rightarrow> 's \<Rightarrow> 's result) \<Rightarrow> 's \<Rightarrow> ('a clist \<times> 's) result" where
  "list_each l f s = list_each_r l (\<lambda>x. uncurry x f) s"

lemma list_new_args_rel:
  "list_rel l xs \<Longrightarrow> \<exists>l'. list_new_args (map Some ys @ None # zs) l = Inr l' \<and> list_rel l' (xs @ ys)"
proof (induction ys arbitrary: l xs)
  case Nil
  then show ?case by simp
next
  case (Cons y ys)
  obtain l1 where "list_append l y = Inr l1" "list_rel l1 (xs @ [y])"
    using list_append_rel [OF Cons.prems] by blast
  with Cons.IH [OF this(2)] show ?case by simp
qed

lemma list_new_elem_rel: "\<exists>l. list_new_elem fl (map Some ys @ None # zs) = Inr l \<and> list_rel l ys"
  using list_new_args_rel [OF list_new_rel] by (simp add: list_new_elem_def)

lemma list_map_rel:
  "list_rel l xs \<Longrightarrow> \<exists>l' r. list_map l f = Inr (l', r) \<and> list_rel l' xs \<and> list_rel r (map (\<lambda>x. f (Some x)) xs)"
  unfolding list_map_def uncurry_def by (rule list_map_r_rel)

lemma list_each_rel:
  "list_rel l xs \<Longrightarrow> \<exists>l'. list_rel l' xs \<and> list_each l f s = rbind (fold_result f (map Some xs) s) (\<lambda>s'. Inr (l', s'))"
  unfolding list_each_def uncurry_def by (rule list_each_r_rel)

section \<open>Programs over a list\<close>

text \<open>
  A sequence of calls on one list, and what it does to a list of values: \<open>None\<close> where a position
  is out of range. The cached cursor moves with every call and shows in no result.
\<close>

datatype 'a list_op = Op_Add 'a | Op_Append 'a | Op_Insert nat 'a | Op_Remove nat | Op_Get nat | Op_Remove_Value 'a

fun run_list_op :: "'a list_op \<Rightarrow> 'a clist \<Rightarrow> ('a option \<times> 'a clist) result" where
  "run_list_op (Op_Add x) l = rbind (list_add l x) (\<lambda>l'. Inr (None, l'))"
| "run_list_op (Op_Append x) l = rbind (list_append l x) (\<lambda>l'. Inr (None, l'))"
| "run_list_op (Op_Insert n x) l = rbind (list_insert l n x) (\<lambda>l'. Inr (None, l'))"
| "run_list_op (Op_Remove n) l = rbind (list_remove l n) (\<lambda>(l', _). Inr (None, l'))"
| "run_list_op (Op_Get n) l = list_get l n"
| "run_list_op (Op_Remove_Value x) l =
     (case list_remove_value l x of None \<Rightarrow> Inl Diverges | Some r \<Rightarrow> rbind r (\<lambda>l'. Inr (None, l')))"

fun run_list_ops :: "'a list_op list \<Rightarrow> 'a clist \<Rightarrow> ('a option list \<times> 'a clist) result" where
  "run_list_ops [] l = Inr ([], l)"
| "run_list_ops (p # ps) l =
     rbind (run_list_op p l) (\<lambda>(out, l'). rbind (run_list_ops ps l') (\<lambda>(outs, l''). Inr (out # outs, l'')))"

fun spec_list_op :: "'a list_op \<Rightarrow> 'a list \<Rightarrow> ('a option \<times> 'a list) option" where
  "spec_list_op (Op_Add x) xs = Some (None, x # xs)"
| "spec_list_op (Op_Append x) xs = Some (None, xs @ [x])"
| "spec_list_op (Op_Insert n x) xs =
     (if 1 \<le> n \<and> n \<le> Suc (length xs) then Some (None, take (n - 1) xs @ x # drop (n - 1) xs) else None)"
| "spec_list_op (Op_Remove n) xs =
     (if 1 \<le> n \<and> n \<le> length xs then Some (None, take (n - 1) xs @ drop n xs) else None)"
| "spec_list_op (Op_Get n) xs = (if 1 \<le> n \<and> n \<le> length xs then Some (Some (xs ! (n - 1)), xs) else None)"
| "spec_list_op (Op_Remove_Value x) xs = Some (None, skip_remove (\<lambda>y. y = x) xs)"

fun spec_list_ops :: "'a list_op list \<Rightarrow> 'a list \<Rightarrow> ('a option list \<times> 'a list) option" where
  "spec_list_ops [] xs = Some ([], xs)"
| "spec_list_ops (p # ps) xs =
     (case spec_list_op p xs of
        None \<Rightarrow> None
      | Some (out, xs') \<Rightarrow> map_option (\<lambda>(outs, ys). (out # outs, ys)) (spec_list_ops ps xs'))"

lemma list_op_simulates:
  assumes r: "list_rel l xs" and s: "spec_list_op p xs = Some (out, ys)"
  shows "\<exists>l'. run_list_op p l = Inr (out, l') \<and> list_rel l' ys"
proof (cases p)
  case (Op_Insert n x)
  with s have n: "1 \<le> n" "n \<le> Suc (length xs)" by (auto split: if_splits)
  from list_insert_rel [OF r n, of x] s Op_Insert n show ?thesis by auto
next
  case (Op_Remove n)
  with s have n: "1 \<le> n" "n \<le> length xs" by (auto split: if_splits)
  from list_remove_rel [OF r n] s Op_Remove n show ?thesis by auto
next
  case (Op_Get n)
  with s have n: "1 \<le> n" "n \<le> length xs" by (auto split: if_splits)
  from list_get_rel [OF r n] s Op_Get n show ?thesis by auto
next
  case (Op_Add x)
  with s list_add_rel [OF r, of x] show ?thesis by auto
next
  case (Op_Append x)
  with s list_append_rel [OF r, of x] show ?thesis by auto
next
  case (Op_Remove_Value x)
  with s list_remove_value_rel [OF r, of x] show ?thesis by auto
qed

lemma list_ops_simulate:
  "list_rel l xs \<Longrightarrow> spec_list_ops ps xs = Some (outs, ys) \<Longrightarrow>
   \<exists>l'. run_list_ops ps l = Inr (outs, l') \<and> list_rel l' ys"
proof (induction ps arbitrary: l xs outs)
  case Nil
  then show ?case by simp
next
  case (Cons p ps)
  from Cons.prems(2) obtain out xs' outs' where s: "spec_list_op p xs = Some (out, xs')"
    and rest: "spec_list_ops ps xs' = Some (outs', ys)" and outs: "outs = out # outs'"
    by (auto split: option.splits)
  from list_op_simulates [OF Cons.prems(1) s] obtain l1 where
    l1: "run_list_op p l = Inr (out, l1)" "list_rel l1 xs'" by blast
  from Cons.IH [OF l1(2) rest] obtain l' where "run_list_ops ps l1 = Inr (outs', l')" "list_rel l' ys" by blast
  with l1(1) outs show ?case by simp
qed

section \<open>Properties\<close>

text \<open>
  C23: A sequence of calls on a fresh list gives the results it gives on a list of values, as long
  as every position is in range: no call faults, and the cached cursor never shows.
\<close>

theorem list_refines_values:
  assumes "spec_list_ops ps [] = Some (outs, xs)"
  shows "\<exists>l. run_list_ops ps (list_new fl) = Inr (outs, l) \<and> list_rel l xs \<and> list_size l = length xs"
  using list_ops_simulate [OF list_new_rel assms] list_size_rel by blast

lemma list_refines_values_witness:
  "\<exists>l. run_list_ops [Op_Append 1, Op_Append 2, Op_Get 2, Op_Add 0, Op_Get 3, Op_Remove 1, Op_Insert 2 (5 :: nat), Op_Get 3]
      (list_new False) = Inr ([None, None, Some 2, None, Some 2, None, None, Some 2], l) \<and>
    list_rel l [1, 5, 2] \<and> list_size l = length [1, 5, 2 :: nat]"
  by (rule list_refines_values) (simp add: numeral_eq_Suc)



text \<open>
  \<open>list_free\<close> returns, leaves no node of the list allocated, and passes each element to
  \<open>free_element\<close> exactly once and in order if the list has the flag \<open>LI_FREE\<close>, none otherwise.
\<close>

theorem list_free_complete:
  assumes "list_rel l xs"
  shows "list_free (Some l) = Some (Inr (Map.empty, if li_free l then map Some xs else []))"
  using assms by (rule list_free_rel)

lemma list_free_complete_witness:
  "\<exists>l. list_new_elem True [Some (1 :: nat), Some 2, None] = Inr l \<and>
    list_free (Some l) = Some (Inr (Map.empty, if li_free l then map Some [1, 2] else []))"
proof -
  obtain l where l: "list_new_elem True (map Some [1 :: nat, 2] @ None # []) = Inr l" "list_rel l [1, 2]"
    using list_new_elem_rel by blast
  from list_free_complete [OF l(2)] l(1) show ?thesis by auto
qed

end
