(* ===== verification/HashTable.thy ===== *)
theory HashTable
  imports Uthash CList
begin

text \<open>
  \<open>cutil/hash_table.c\<close> over uthash: string keys, data pointers, entries kept in insertion
  order. The interface its clients rely on is the locale \<open>dictionary\<close>, stated over the
  association list of the entries. The read-write lock makes each operation atomic and is not
  part of the state.
\<close>

section \<open>Operations\<close>

record 'a hash_table =
  ht_head :: "'a ut_table option"
  ht_fresh :: nat

definition ht_create :: "'a hash_table" where
  "ht_create = \<lparr>ht_head = None, ht_fresh = 0\<rparr>"

definition ht_entry_count :: "'a hash_table \<Rightarrow> nat" where
  "ht_entry_count h = hash_count (ht_head h)"

definition ht_add_entry :: "'a hash_table \<Rightarrow> string \<Rightarrow> 'a \<Rightarrow> 'a hash_table" where
  "ht_add_entry h key data =
     h\<lparr>ht_head := hash_add (ht_head h) (ht_fresh h) key data, ht_fresh := Suc (ht_fresh h)\<rparr>"

definition ht_add_unique_entry :: "'a hash_table \<Rightarrow> string \<Rightarrow> 'a \<Rightarrow> int \<times> 'a hash_table" where
  "ht_add_unique_entry h key data =
     (case hash_find (ht_head h) key of
        None \<Rightarrow> (0, ht_add_entry h key data)
      | Some _ \<Rightarrow> (-1, h))"

definition ht_remove_entry :: "'a hash_table \<Rightarrow> string \<Rightarrow> int \<times> 'a hash_table" where
  "ht_remove_entry h key =
     (case hash_find (ht_head h) key of
        None \<Rightarrow> (-1, h)
      | Some e \<Rightarrow> (0, h\<lparr>ht_head := hash_delete (ht_head h) e\<rparr>))"

definition ht_has_entry :: "'a hash_table \<Rightarrow> string \<Rightarrow> bool" where
  "ht_has_entry h key \<longleftrightarrow> hash_find (ht_head h) key \<noteq> None"

text \<open>\<open>ht_get_entry\<close> returns -1, or 0 and stores the data through its third argument.\<close>

definition ht_get_entry :: "'a hash_table \<Rightarrow> string \<Rightarrow> int \<times> 'a option" where
  "ht_get_entry h key =
     (case hash_find (ht_head h) key of
        None \<Rightarrow> (-1, None)
      | Some e \<Rightarrow> (0, Some (entry_data e)))"

text \<open>\<open>ht_free\<close>: every entry, in application order, is deleted from the table.\<close>

definition ht_free :: "'a hash_table \<Rightarrow> 'a hash_table" where
  "ht_free h = h\<lparr>ht_head := fold (\<lambda>e head. hash_delete head e) (hash_entries (ht_head h)) (ht_head h)\<rparr>"

definition ht_for_each :: "'a hash_table \<Rightarrow> (string \<Rightarrow> 'a \<Rightarrow> 's \<Rightarrow> 's) \<Rightarrow> 's \<Rightarrow> 's" where
  "ht_for_each h f s = fold (\<lambda>e. f (entry_key e) (entry_data e)) (hash_entries (ht_head h)) s"

definition ht_to_list :: "'a hash_table \<Rightarrow> 'a clist result" where
  "ht_to_list h =
     fold_result (\<lambda>e l. list_add l (entry_data e)) (hash_entries (ht_head h)) (list_new False)"

text \<open>
  \<open>list_to_hashtable\<close> (declared in \<open>list.h\<close>) enters the elements read at the positions 0 to
  size - 1; \<open>element_keyname\<close> is applied to the data pointer it gets.
\<close>

definition list_to_hashtable ::
  "'a clist \<Rightarrow> ('a option \<Rightarrow> string result) \<Rightarrow> ('a clist \<times> 'a option hash_table) result" where
  "list_to_hashtable l element_keyname =
     list_iter list_get
       (\<lambda>el ht. rbind (element_keyname el) (\<lambda>key. Inr (ht_add_entry ht key el)))
       0 (list_size l) l ht_create"

section \<open>The table as an association list\<close>

definition ht_alist :: "'a hash_table \<Rightarrow> (string \<times> 'a) list" where
  "ht_alist h = map (\<lambda>e. (entry_key e, entry_data e)) (hash_entries (ht_head h))"

definition ht_inv :: "'a hash_table \<Rightarrow> bool" where
  "ht_inv h \<longleftrightarrow> hash_inv (ht_head h) \<and> (\<forall>e \<in> set (hash_entries (ht_head h)). entry_id e < ht_fresh h)"

lemma ht_create_inv [simp, intro]: "ht_inv ht_create"
  by (simp add: ht_inv_def ht_create_def hash_inv_def hash_entries_def)

lemma ht_create_alist [simp]: "ht_alist ht_create = []"
  by (simp add: ht_alist_def ht_create_def hash_entries_def)

lemma ht_add_entry_inv:
  assumes "ht_inv h"
  shows "ht_inv (ht_add_entry h key data) \<and> ht_alist (ht_add_entry h key data) = ht_alist h @ [(key, data)]"
proof -
  have "\<forall>e \<in> set (hash_entries (ht_head h)). entry_id e \<noteq> ht_fresh h"
    using assms by (auto simp: ht_inv_def)
  with hash_add_inv [of "ht_head h" "ht_fresh h" key data] assms show ?thesis
    by (auto simp: ht_inv_def ht_add_entry_def ht_alist_def less_Suc_eq)
qed

lemma ht_find_None_iff:
  "ht_inv h \<Longrightarrow> hash_find (ht_head h) key = None \<longleftrightarrow> key \<notin> fst ` set (ht_alist h)"
  by (auto simp: ht_inv_def hash_find_None_iff ht_alist_def image_image)

lemma ht_find_SomeD:
  "ht_inv h \<Longrightarrow> hash_find (ht_head h) key = Some e \<Longrightarrow>
   e \<in> set (hash_entries (ht_head h)) \<and> entry_key e = key \<and> (key, entry_data e) \<in> set (ht_alist h)"
  by (force simp: ht_inv_def ht_alist_def dest: hash_find_SomeD)

lemma ht_add_unique_entry_inv:
  assumes "ht_inv h"
  shows "ht_inv (snd (ht_add_unique_entry h key data)) \<and>
    ht_alist (snd (ht_add_unique_entry h key data)) =
      (if key \<in> fst ` set (ht_alist h) then ht_alist h else ht_alist h @ [(key, data)]) \<and>
    fst (ht_add_unique_entry h key data) = (if key \<in> fst ` set (ht_alist h) then -1 else 0)"
  using assms ht_add_entry_inv [OF assms, of key data] ht_find_None_iff [OF assms, of key]
  by (auto simp: ht_add_unique_entry_def split: option.splits)

lemma remove1_split:
  assumes "e \<in> set es"
  shows "\<exists>us vs. es = us @ e # vs \<and> remove1 e es = us @ vs"
proof -
  obtain us vs where "es = us @ e # vs" and "e \<notin> set us"
    using split_list_first [OF assms] by blast
  then show ?thesis by (auto simp: remove1_append)
qed

lemma ht_remove_entry_inv:
  assumes "ht_inv h"
  shows "ht_inv (snd (ht_remove_entry h key))"
    and "key \<notin> fst ` set (ht_alist h) \<Longrightarrow> ht_remove_entry h key = (-1, h)"
    and "key \<in> fst ` set (ht_alist h) \<Longrightarrow> fst (ht_remove_entry h key) = 0 \<and>
      (\<exists>us v vs. ht_alist h = us @ (key, v) # vs \<and> ht_alist (snd (ht_remove_entry h key)) = us @ vs)"
proof -
  have del: "ht_inv (h\<lparr>ht_head := hash_delete (ht_head h) e\<rparr>) \<and>
      (\<exists>us v vs. ht_alist h = us @ (key, v) # vs \<and>
        ht_alist (h\<lparr>ht_head := hash_delete (ht_head h) e\<rparr>) = us @ vs)"
    if f: "hash_find (ht_head h) key = Some e" for e
  proof -
    have e: "e \<in> set (hash_entries (ht_head h))" "entry_key e = key"
      using ht_find_SomeD [OF assms f] by auto
    note di = hash_delete_inv [of "ht_head h" e] e(1) assms
    then have "ht_inv (h\<lparr>ht_head := hash_delete (ht_head h) e\<rparr>)"
      by (auto simp: ht_inv_def dest: notin_set_remove1 set_remove1_subset [THEN subsetD])
    moreover obtain us vs where "hash_entries (ht_head h) = us @ e # vs"
      and "remove1 e (hash_entries (ht_head h)) = us @ vs"
      using remove1_split [OF e(1)] by blast
    ultimately show ?thesis
      using di e(2) by (auto simp: ht_inv_def ht_alist_def)
  qed
  show "ht_inv (snd (ht_remove_entry h key))"
    using assms del by (auto simp: ht_remove_entry_def split: option.splits)
  show "key \<notin> fst ` set (ht_alist h) \<Longrightarrow> ht_remove_entry h key = (-1, h)"
    using ht_find_None_iff [OF assms, of key] by (simp add: ht_remove_entry_def)
  show "key \<in> fst ` set (ht_alist h) \<Longrightarrow> fst (ht_remove_entry h key) = 0 \<and>
      (\<exists>us v vs. ht_alist h = us @ (key, v) # vs \<and> ht_alist (snd (ht_remove_entry h key)) = us @ vs)"
    using ht_find_None_iff [OF assms, of key] del by (auto simp: ht_remove_entry_def split: option.splits)
qed

lemma ht_get_entry_None: "ht_inv h \<Longrightarrow> key \<notin> fst ` set (ht_alist h) \<Longrightarrow> ht_get_entry h key = (-1, None)"
  using ht_find_None_iff [of h key] by (simp add: ht_get_entry_def)

lemma ht_get_entry_Some:
  "ht_inv h \<Longrightarrow> key \<in> fst ` set (ht_alist h) \<Longrightarrow>
   \<exists>v. ht_get_entry h key = (0, Some v) \<and> (key, v) \<in> set (ht_alist h)"
  using ht_find_None_iff [of h key] ht_find_SomeD [of h key]
  by (fastforce simp: ht_get_entry_def split: option.splits)

lemma ht_has_entry_iff: "ht_inv h \<Longrightarrow> ht_has_entry h key \<longleftrightarrow> key \<in> fst ` set (ht_alist h)"
  by (simp add: ht_has_entry_def ht_find_None_iff)

lemma ht_entry_count_alist: "ht_inv h \<Longrightarrow> ht_entry_count h = length (ht_alist h)"
  by (simp add: ht_entry_count_def ht_inv_def hash_count_entries ht_alist_def)

lemma ht_for_each_alist: "ht_for_each h f s = fold (\<lambda>(k, v). f k v) (ht_alist h) s"
  by (simp add: ht_for_each_def ht_alist_def fold_map comp_def)

lemma ht_to_list_rel: "\<exists>l. ht_to_list h = Inr l \<and> list_rel l (rev (map snd (ht_alist h)))"
  using li.add_all [OF list_new_rel, of "map entry_data (hash_entries (ht_head h))" False]
  by (auto simp: ht_to_list_def ht_alist_def fold_result_map comp_def)

section \<open>The dictionary interface\<close>

text \<open>
  What the tracker's tables rely on. Insertion without a check allows duplicate keys, and
  which of them a lookup returns is not promised; under distinct keys a table is a map.
\<close>

locale dictionary =
  fixes create :: "'m"
    and add :: "'m \<Rightarrow> string \<Rightarrow> 'v \<Rightarrow> 'm"
    and add_unique :: "'m \<Rightarrow> string \<Rightarrow> 'v \<Rightarrow> int \<times> 'm"
    and remove :: "'m \<Rightarrow> string \<Rightarrow> int \<times> 'm"
    and get :: "'m \<Rightarrow> string \<Rightarrow> int \<times> 'v option"
    and alist :: "'m \<Rightarrow> (string \<times> 'v) list"
    and inv :: "'m \<Rightarrow> bool"
  assumes create_inv: "inv create" and create_alist: "alist create = []"
    and add_inv: "inv m \<Longrightarrow> inv (add m k v)"
    and add_alist: "inv m \<Longrightarrow> alist (add m k v) = alist m @ [(k, v)]"
    and add_unique_inv: "inv m \<Longrightarrow> inv (snd (add_unique m k v))"
    and add_unique_alist: "inv m \<Longrightarrow> alist (snd (add_unique m k v)) =
      (if k \<in> fst ` set (alist m) then alist m else alist m @ [(k, v)])"
    and add_unique_err: "inv m \<Longrightarrow> fst (add_unique m k v) = (if k \<in> fst ` set (alist m) then -1 else 0)"
    and remove_inv: "inv m \<Longrightarrow> inv (snd (remove m k))"
    and remove_absent: "inv m \<Longrightarrow> k \<notin> fst ` set (alist m) \<Longrightarrow> remove m k = (-1, m)"
    and remove_present: "inv m \<Longrightarrow> k \<in> fst ` set (alist m) \<Longrightarrow> fst (remove m k) = 0 \<and>
      (\<exists>us v vs. alist m = us @ (k, v) # vs \<and> alist (snd (remove m k)) = us @ vs)"
    and get_absent: "inv m \<Longrightarrow> k \<notin> fst ` set (alist m) \<Longrightarrow> get m k = (-1, None)"
    and get_present: "inv m \<Longrightarrow> k \<in> fst ` set (alist m) \<Longrightarrow>
      \<exists>v. get m k = (0, Some v) \<and> (k, v) \<in> set (alist m)"
begin

definition is_map :: "'m \<Rightarrow> bool" where
  "is_map m \<longleftrightarrow> inv m \<and> distinct (map fst (alist m))"

lemma is_map_inv: "is_map m \<Longrightarrow> inv m"
  by (simp add: is_map_def)

lemma is_map_create: "is_map create"
  by (simp add: is_map_def create_inv create_alist)

lemma get_map:
  assumes "is_map m"
  shows "get m k = (case map_of (alist m) k of None \<Rightarrow> (-1, None) | Some v \<Rightarrow> (0, Some v))"
proof (cases "k \<in> fst ` set (alist m)")
  case True
  then obtain v where "get m k = (0, Some v)" and "(k, v) \<in> set (alist m)"
    using get_present assms by (auto simp: is_map_def)
  then show ?thesis using assms by (simp add: is_map_def)
next
  case False
  then show ?thesis
    using get_absent assms map_of_absent [OF False] by (simp add: is_map_def)
qed

lemma get_err: "inv m \<Longrightarrow> fst (get m k) < 0 \<longleftrightarrow> k \<notin> fst ` set (alist m)"
  using get_absent [of m k] get_present [of m k] by (cases "k \<in> fst ` set (alist m)") auto

lemma add_map:
  assumes "is_map m" and "k \<notin> fst ` set (alist m)"
  shows "is_map (add m k v)" and "map_of (alist (add m k v)) = (map_of (alist m))(k \<mapsto> v)"
proof -
  show "map_of (alist (add m k v)) = (map_of (alist m))(k \<mapsto> v)"
    using assms map_of_append_new [OF assms(2)] by (simp add: is_map_def add_alist)
  show "is_map (add m k v)"
    using assms by (simp add: is_map_def add_inv add_alist)
qed

lemma add_unique_map:
  assumes "is_map m"
  shows "is_map (snd (add_unique m k v))"
    and "map_of (alist (snd (add_unique m k v))) =
      (if k \<in> dom (map_of (alist m)) then map_of (alist m) else (map_of (alist m))(k \<mapsto> v))"
proof -
  have inv: "inv m" using assms by (simp add: is_map_def)
  show "is_map (snd (add_unique m k v))"
    using assms inv by (simp add: is_map_def add_unique_inv add_unique_alist)
  show "map_of (alist (snd (add_unique m k v))) =
      (if k \<in> dom (map_of (alist m)) then map_of (alist m) else (map_of (alist m))(k \<mapsto> v))"
    using inv map_of_append_new [of k "alist m" v]
    by (simp add: add_unique_alist dom_map_of_conv_image_fst)
qed

lemma remove_map:
  assumes "is_map m"
  shows "is_map (snd (remove m k))"
    and "map_of (alist (snd (remove m k))) = (map_of (alist m))(k := None)"
proof -
  have inv: "inv m" and dist: "distinct (map fst (alist m))" using assms by (simp_all add: is_map_def)
  have "is_map (snd (remove m k)) \<and> map_of (alist (snd (remove m k))) = (map_of (alist m))(k := None)"
  proof (cases "k \<in> fst ` set (alist m)")
    case True
    then obtain us v vs where m: "alist m = us @ (k, v) # vs" and m': "alist (snd (remove m k)) = us @ vs"
      using remove_present [OF inv] by blast
    have "map_of (us @ vs) = (map_of (us @ (k, v) # vs))(k := None)"
      using dist m by (intro map_of_delete_present) simp
    then show ?thesis
      using dist m m' remove_inv [OF inv] by (simp add: is_map_def)
  next
    case False
    then have "(map_of (alist m))(k := None) = map_of (alist m)"
      using map_of_absent [OF False] by (simp add: fun_upd_idem)
    with False show ?thesis using assms remove_absent [OF inv] by simp
  qed
  then show "is_map (snd (remove m k))"
    and "map_of (alist (snd (remove m k))) = (map_of (alist m))(k := None)" by auto
qed

lemma get_add:
  assumes "is_map m" and "k \<notin> fst ` set (alist m)"
  shows "get (add m k v) j = (if j = k then (0, Some v) else get m j)"
  using assms add_map [OF assms, of v] by (simp add: get_map)

end

interpretation ht: dictionary ht_create ht_add_entry ht_add_unique_entry ht_remove_entry
  ht_get_entry ht_alist ht_inv
  by unfold_locales
    (simp_all add: ht_add_entry_inv ht_add_unique_entry_inv ht_remove_entry_inv(1,2)
      ht_remove_entry_inv(3) ht_get_entry_None ht_get_entry_Some)

lemma ht_fold_delete:
  assumes "hash_inv head" and "set es \<subseteq> set (hash_entries head)" and "distinct es"
  shows "hash_inv (fold (\<lambda>e head. hash_delete head e) es head) \<and>
    set (hash_entries (fold (\<lambda>e head. hash_delete head e) es head)) = set (hash_entries head) - set es"
  using assms
proof (induction es arbitrary: head)
  case Nil
  then show ?case by simp
next
  case (Cons e es)
  have d: "hash_inv (hash_delete head e)" "hash_entries (hash_delete head e) = remove1 e (hash_entries head)"
    using hash_delete_inv [of head e] Cons.prems by auto
  have "distinct (hash_entries head)"
    using Cons.prems(1)
    by (auto simp: hash_inv_def table_inv_def table_core_def hash_entries_def distinct_map split: option.splits)
  then have "set (hash_entries (hash_delete head e)) = set (hash_entries head) - {e}"
    using d by simp
  with Cons.IH [OF d(1)] Cons.prems show ?case by auto
qed

lemma ht_free_empty:
  assumes "ht_inv h"
  shows "ht_head (ht_free h) = None"
proof -
  let ?es = "hash_entries (ht_head h)"
  have inv: "hash_inv (ht_head h)" using assms by (simp add: ht_inv_def)
  then have dist: "distinct ?es"
    by (auto simp: hash_inv_def table_inv_def table_core_def hash_entries_def distinct_map split: option.splits)
  have "hash_inv (ht_head (ht_free h))" and "set (hash_entries (ht_head (ht_free h))) = {}"
    using ht_fold_delete [OF inv subset_refl dist] by (simp_all add: ht_free_def)
  then show ?thesis
    by (auto simp: hash_inv_def table_inv_def hash_entries_def split: option.splits)
qed

section \<open>Programs over a table\<close>

text \<open>A sequence of calls that never adds a key twice, and what it does to a finite map.\<close>

datatype 'a ht_op = Op_Put string 'a | Op_Del string | Op_Lookup string | Op_Has string

fun run_ht_op :: "'a ht_op \<Rightarrow> 'a hash_table \<Rightarrow> (int \<times> 'a option) \<times> 'a hash_table" where
  "run_ht_op (Op_Put k v) h = (let (r, h') = ht_add_unique_entry h k v in ((r, None), h'))"
| "run_ht_op (Op_Del k) h = (let (r, h') = ht_remove_entry h k in ((r, None), h'))"
| "run_ht_op (Op_Lookup k) h = (ht_get_entry h k, h)"
| "run_ht_op (Op_Has k) h = ((if ht_has_entry h k then 1 else 0, None), h)"

fun spec_ht_op :: "'a ht_op \<Rightarrow> (string \<rightharpoonup> 'a) \<Rightarrow> (int \<times> 'a option) \<times> (string \<rightharpoonup> 'a)" where
  "spec_ht_op (Op_Put k v) m = (if m k = None then ((0, None), m(k \<mapsto> v)) else ((-1, None), m))"
| "spec_ht_op (Op_Del k) m = (if m k = None then ((-1, None), m) else ((0, None), m(k := None)))"
| "spec_ht_op (Op_Lookup k) m = ((case m k of None \<Rightarrow> (-1, None) | Some v \<Rightarrow> (0, Some v)), m)"
| "spec_ht_op (Op_Has k) m = ((if m k = None then 0 else 1, None), m)"

fun run_ops :: "('o \<Rightarrow> 's \<Rightarrow> 'r \<times> 's) \<Rightarrow> 'o list \<Rightarrow> 's \<Rightarrow> 'r list \<times> 's" where
  "run_ops f [] s = ([], s)"
| "run_ops f (p # ps) s = (let (r, s') = f p s; (rs, s'') = run_ops f ps s' in (r # rs, s''))"

lemma ht_op_simulates:
  assumes m: "ht.is_map h"
  shows "ht.is_map (snd (run_ht_op p h)) \<and> fst (run_ht_op p h) = fst (spec_ht_op p (map_of (ht_alist h))) \<and>
    map_of (ht_alist (snd (run_ht_op p h))) = snd (spec_ht_op p (map_of (ht_alist h)))"
proof -
  have inv: "ht_inv h" using m by (rule ht.is_map_inv)
  have none: "map_of (ht_alist h) k = None \<longleftrightarrow> k \<notin> fst ` set (ht_alist h)" for k
    by (simp add: map_of_eq_None_iff)
  show ?thesis
  proof (cases p)
    case (Op_Put k v)
    obtain r h' where u: "ht_add_unique_entry h k v = (r, h')" by fastforce
    show ?thesis
      using ht.add_unique_map [OF m, of k v] ht_add_unique_entry_inv [OF inv, of k v] none [of k]
      by (auto simp: Op_Put u domIff)
  next
    case (Op_Del k)
    obtain r h' where u: "ht_remove_entry h k = (r, h')" by fastforce
    show ?thesis
      using ht.remove_map [OF m, of k] ht_remove_entry_inv(2,3) [OF inv, of k] none [of k]
      by (cases "k \<in> fst ` set (ht_alist h)") (simp_all add: Op_Del u fun_upd_idem)
  next
    case (Op_Lookup k)
    then show ?thesis using m ht.get_map [OF m] by (simp split: option.splits)
  next
    case (Op_Has k)
    then show ?thesis using m ht_has_entry_iff [OF inv, of k] none [of k] by auto
  qed
qed

lemma ht_ops_simulate:
  "ht.is_map h \<Longrightarrow> ht.is_map (snd (run_ops run_ht_op ps h)) \<and>
   fst (run_ops run_ht_op ps h) = fst (run_ops spec_ht_op ps (map_of (ht_alist h))) \<and>
   map_of (ht_alist (snd (run_ops run_ht_op ps h))) = snd (run_ops spec_ht_op ps (map_of (ht_alist h)))"
proof (induction ps arbitrary: h)
  case Nil
  then show ?case by simp
next
  case (Cons p ps)
  have s: "ht.is_map (snd (run_ht_op p h))" "fst (run_ht_op p h) = fst (spec_ht_op p (map_of (ht_alist h)))"
    "map_of (ht_alist (snd (run_ht_op p h))) = snd (spec_ht_op p (map_of (ht_alist h)))"
    using ht_op_simulates [OF Cons.prems, of p] by auto
  from Cons.IH [OF s(1)] s(2,3) show ?case
    by (simp add: case_prod_beta Let_def)
qed

text \<open>Any sequence of insertions, repeated keys included, and deletions on the bare uthash.\<close>

datatype 'a hash_op = Ins string 'a | Del_Key string

fun run_hash_op :: "'a hash_op \<Rightarrow> 'a hash_table \<Rightarrow> 'a hash_table" where
  "run_hash_op (Ins k v) h = ht_add_entry h k v"
| "run_hash_op (Del_Key k) h = snd (ht_remove_entry h k)"

lemma run_hash_ops_inv: "ht_inv h \<Longrightarrow> ht_inv (fold run_hash_op ps h)"
proof (induction ps arbitrary: h)
  case (Cons p ps)
  then show ?case
    by (cases p) (simp_all add: ht_add_entry_inv ht_remove_entry_inv(1))
qed simp

text \<open>Adding to a bucket below the expansion threshold puts the new entry in front of its equals.\<close>

lemma hash_find_added:
  assumes "table_core t" and b: "b = buckets t ! hash_to_bkt (hash_jen k) (num_buckets t)"
    and room: "hh_count b + 1 < (expand_mult b + 1) * 10"
  shows "hash_find (hash_add (Some t) a k v) k =
    Some \<lparr>entry_id = a, entry_key = k, entry_data = v, entry_hashv = hash_jen k\<rparr>"
proof -
  have bkt: "hash_to_bkt (hash_jen k) (num_buckets t) < length (buckets t)"
    using table_core_bkt [OF assms(1)] assms(1) by (simp add: table_core_def)
  show ?thesis
    using room bkt by (simp add: hash_add_def hash_add_to_bkt_def hash_find_def Let_def b [symmetric])
qed

text \<open>A bucket holds at most all entries.\<close>

lemma bucket_count_le:
  assumes "table_core t"
  shows "hh_count (buckets t ! hash_to_bkt hashv (num_buckets t)) \<le> length (app_order t)"
proof -
  let ?i = "hash_to_bkt hashv (num_buckets t)"
  have "bucket_ok (app_order t) (num_buckets t) ?i (buckets t ! ?i)"
    using table_core_bucket table_core_bkt assms by blast
  then have "hh_count (buckets t ! ?i) = size (filter_mset (\<lambda>e. hash_to_bkt (entry_hashv e) (num_buckets t) = ?i) (mset (app_order t)))"
    by (metis bucket_ok_def size_mset)
  then show ?thesis using size_filter_mset_lesseq [of _ "mset (app_order t)"] by simp
qed

text \<open>
  A table to which keys are added again: while no bucket can reach the expansion threshold, a
  lookup finds the newest entry.
\<close>

definition ht_newest :: "'a hash_table \<Rightarrow> bool" where
  "ht_newest h \<longleftrightarrow> ht_inv h \<and>
     (\<forall>k. ht_get_entry h k = (case map_of (rev (ht_alist h)) k of None \<Rightarrow> (-1, None) | Some v \<Rightarrow> (0, Some v)))"

lemma hash_add_None: "hash_add None a k v = hash_add (Some hash_make_table) a k v"
  by (simp add: hash_add_def)

lemma hash_find_make_table: "hash_find (Some hash_make_table) k = None"
proof -
  have "hash_to_bkt (hash_jen k) 32 < 32" by (rule hash_to_bkt_less [of _ 5]) simp
  then show ?thesis by (simp add: hash_find_def hash_make_table_def empty_bucket_def)
qed

lemma hash_find_added_other:
  assumes "table_core t" and b: "b = buckets t ! hash_to_bkt (hash_jen k) (num_buckets t)"
    and room: "hh_count b + 1 < (expand_mult b + 1) * 10" and "j \<noteq> k"
  shows "hash_find (hash_add (Some t) a k v) j = hash_find (Some t) j"
proof -
  have bkt: "hash_to_bkt (hash_jen k) (num_buckets t) < length (buckets t)"
    using table_core_bkt [OF assms(1)] assms(1) by (simp add: table_core_def)
  have e: "hash_find_in_bkt (\<lparr>entry_id = a, entry_key = k, entry_data = v, entry_hashv = hash_jen k\<rparr> # es) j =
      hash_find_in_bkt es j" for es
    using assms(4) by auto
  show ?thesis
    using room bkt e
    by (cases "hash_to_bkt (hash_jen j) (num_buckets t) = hash_to_bkt (hash_jen k) (num_buckets t)")
      (simp_all add: hash_add_def hash_add_to_bkt_def hash_find_def Let_def b [symmetric] del: hash_find_in_bkt.simps)
qed

lemma ht_get_added:
  assumes inv: "ht_inv h" and few: "ht_entry_count h < 9"
  shows "ht_get_entry (ht_add_entry h k v) j = (if j = k then (0, Some v) else ht_get_entry h j)"
proof -
  define t where "t = (case ht_head h of None \<Rightarrow> hash_make_table | Some t \<Rightarrow> t)"
  have core: "table_core t" and n: "length (app_order t) = ht_entry_count h"
    using inv ht_entry_count_alist [OF inv] make_table_core
    by (auto simp: t_def ht_inv_def hash_inv_def table_inv_def ht_alist_def hash_entries_def hash_make_table_def
        split: option.splits)
  have f: "hash_find (ht_head h) j = hash_find (Some t) j" "hash_add (ht_head h) a k v = hash_add (Some t) a k v" for a
    by (auto simp: t_def hash_find_make_table hash_add_None split: option.splits) (simp add: hash_find_def)
  let ?b = "buckets t ! hash_to_bkt (hash_jen k) (num_buckets t)"
  have "hh_count ?b < 9" using bucket_count_le [OF core, of "hash_jen k"] n few by simp
  then have room: "hh_count ?b + 1 < (expand_mult ?b + 1) * 10" by simp
  show ?thesis
    using hash_find_added [OF core refl room] hash_find_added_other [OF core refl room]
    by (simp add: ht_get_entry_def ht_add_entry_def f)
qed

lemma ht_newest_create: "ht_newest ht_create"
  by (simp add: ht_newest_def ht_get_entry_None)

lemma ht_newest_add:
  assumes "ht_newest h" and "ht_entry_count h < 9"
  shows "ht_newest (ht_add_entry h k v)"
  using assms ht_get_added [of h k v] ht_add_entry_inv [of h k v] by (simp add: ht_newest_def)

lemma ht_newest_get: "ht_newest h \<Longrightarrow>
    ht_get_entry h k = (case map_of (rev (ht_alist h)) k of None \<Rightarrow> (-1, None) | Some v \<Rightarrow> (0, Some v))"
  by (simp add: ht_newest_def)

lemma ht_newest_inv: "ht_newest h \<Longrightarrow> ht_inv h"
  by (simp add: ht_newest_def)

section \<open>Properties\<close>

text \<open>
  C21: Sequences of \<open>ht_add_unique_entry\<close>, \<open>ht_remove_entry\<close>, \<open>ht_get_entry\<close> and \<open>ht_has_entry\<close>
  on a new table, bucket expansions included, return what they return on a finite map.
\<close>

theorem ht_equals_map:
  "fst (run_ops run_ht_op ps ht_create) = fst (run_ops spec_ht_op ps Map.empty)"
  using ht_ops_simulate [OF ht.is_map_create, of ps] by simp


text \<open>
  A key added again with \<open>ht_add_entry\<close> hides its older entry as long as its bucket stays
  below the expansion threshold; the older entry stays in the table and counts.
\<close>

theorem ht_add_entry_hides:
  assumes "ht_inv h" and "ht_head h = Some t"
    and "hh_count (buckets t ! hash_to_bkt (hash_jen k) (num_buckets t)) < 9"
  shows "ht_get_entry (ht_add_entry h k v) k = (0, Some v) \<and>
    ht_entry_count (ht_add_entry h k v) = ht_entry_count h + 1"
proof -
  have core: "table_core t" using assms by (simp add: ht_inv_def hash_inv_def table_inv_def)
  have "ht_get_entry (ht_add_entry h k v) k = (0, Some v)"
    using hash_find_added [OF core refl, of k "ht_fresh h" v] assms(2,3)
    by (simp add: ht_get_entry_def ht_add_entry_def)
  then show ?thesis
    using ht_add_entry_inv [OF assms(1), of k v] assms(1) by (simp add: ht_entry_count_alist)
qed

lemma ht_add_entry_hides_witness:
  "ht_get_entry (ht_add_entry (ht_add_entry ht_create ''port'' (1 :: nat)) ''port'' 2) ''port'' = (0, Some 2) \<and>
   ht_entry_count (ht_add_entry (ht_add_entry ht_create ''port'' (1 :: nat)) ''port'' 2) = 1 + 1"
proof -
  let ?h = "ht_add_entry ht_create ''port'' (1 :: nat)"
  have inv: "ht_inv ?h" "ht_alist ?h = [(''port'', 1)]" by (simp_all add: ht_add_entry_inv)
  then obtain t where t: "ht_head ?h = Some t" by (cases "ht_head ?h") (auto simp: ht_alist_def hash_entries_def)
  then have "table_core t" "length (app_order t) = 1"
    using inv by (auto simp: ht_inv_def hash_inv_def table_inv_def ht_alist_def hash_entries_def)
  with bucket_count_le [OF this(1), of "hash_jen ''port''"]
  have "hh_count (buckets t ! hash_to_bkt (hash_jen ''port'') (num_buckets t)) < 9" by linarith
  from ht_add_entry_hides [OF inv(1) t this, of 2] inv show ?thesis by (simp add: ht_entry_count_alist)
qed

text \<open>
  \<open>ht_to_list\<close> returns the data of all entries, the most recently added first, and \<open>ht_free\<close>
  leaves no table behind.
\<close>

theorem ht_to_list_free:
  assumes "ht_inv h"
  shows "\<exists>l. ht_to_list h = Inr l \<and> list_rel l (rev (map snd (ht_alist h))) \<and>
    length (ht_alist h) = ht_entry_count h \<and> ht_head (ht_free h) = None"
  using ht_to_list_rel [of h] ht_free_empty [OF assms] ht_entry_count_alist [OF assms] by auto

lemma ht_to_list_free_witness:
  "\<exists>l. ht_to_list (ht_add_entry (ht_add_entry ht_create ''a'' (1 :: nat)) ''b'' 2) = Inr l \<and> list_rel l [2, 1] \<and>
     ht_head (ht_free (ht_add_entry (ht_add_entry ht_create ''a'' (1 :: nat)) ''b'' 2)) = None"
proof -
  let ?h = "ht_add_entry (ht_add_entry ht_create ''a'' (1 :: nat)) ''b'' 2"
  have i1: "ht_inv (ht_add_entry ht_create ''a'' (1 :: nat))" by (simp add: ht_add_entry_inv)
  have "ht_inv ?h" "ht_alist ?h = [(''a'', 1), (''b'', 2)]"
    using ht_add_entry_inv [OF i1, of "''b''" 2] by (simp_all add: ht_add_entry_inv)
  from ht_to_list_free [OF this(1)] this(2) show ?thesis by auto
qed

end
