(* ===== verification/Tracker_State.thy ===== *)
theory Tracker_State
  imports HashTable Libc
begin

text \<open>
  The tracker's memory: the structures \<open>struct file\<close> (\<open>tracker/file.h\<close>) and \<open>struct client\<close>
  (\<open>tracker/client.h\<close>), which are shared through pointers, live in stores addressed by number;
  the tables that \<open>file.c\<close> and \<open>client.c\<close> keep in static variables hold such addresses.
\<close>

section \<open>Data\<close>

type_synonym fid = nat
type_synonym cid = nat
type_synonym lid = nat

record sockaddr_in =
  s_addr :: "32 word"
  sin_port :: "16 word"

text \<open>Both in network byte order, as the kernel fills them in.\<close>

record shared_file =
  filename :: string
  md5_str :: string
  flength :: "64 word"
  piece_count :: "32 word"
  piece_size :: "32 word"
  fclients :: "cid hash_table"

record client =
  socket :: int
  addr :: sockaddr_in
  conn_addr_key :: string
  listening_port :: "16 word"
  listen_addr_key :: "string option"
  files_seed :: "fid clist"
  files_leech :: "fid clist"
  ref_count :: int
  can_rehear :: bool

text \<open>
  A list that has one owner (the two of a client) is a value of its owner; the lists of
  \<open>file_by_name\<close> are shared through the table and stored. \<open>sent\<close> is the sequence of writes,
  each with its socket.
\<close>

record tracker =
  files :: "fid \<Rightarrow> shared_file option"
  next_file :: fid
  file_by_hash :: "fid hash_table"
  file_by_name :: "lid hash_table"
  name_lists :: "lid \<Rightarrow> fid clist option"
  next_list :: lid
  client_mem :: "cid \<Rightarrow> client option"
  next_client :: cid
  clients :: "cid hash_table"
  sent :: "(int \<times> string) list"

text \<open>The state the constructors \<open>file_init\<close> and \<open>client_init\<close> leave.\<close>

definition tracker_init :: tracker where
  "tracker_init =
     \<lparr>files = Map.empty, next_file = 0, file_by_hash = ht_create, file_by_name = ht_create,
      name_lists = Map.empty, next_list = 0, client_mem = Map.empty, next_client = 0,
      clients = ht_create, sent = []\<rparr>"

section \<open>Following pointers\<close>

definition load_file :: "tracker \<Rightarrow> fid \<Rightarrow> shared_file result" where
  "load_file st f = (case files st f of None \<Rightarrow> Inl Use_After_Free | Some x \<Rightarrow> Inr x)"

definition store_file :: "tracker \<Rightarrow> fid \<Rightarrow> shared_file \<Rightarrow> tracker" where
  "store_file st f x = st\<lparr>files := (files st)(f \<mapsto> x)\<rparr>"

definition load_client :: "tracker \<Rightarrow> cid \<Rightarrow> client result" where
  "load_client st c = (case client_mem st c of None \<Rightarrow> Inl Use_After_Free | Some x \<Rightarrow> Inr x)"

definition store_client :: "tracker \<Rightarrow> cid \<Rightarrow> client \<Rightarrow> tracker" where
  "store_client st c x = st\<lparr>client_mem := (client_mem st)(c \<mapsto> x)\<rparr>"

definition load_list :: "tracker \<Rightarrow> lid \<Rightarrow> fid clist result" where
  "load_list st l = (case name_lists st l of None \<Rightarrow> Inl Use_After_Free | Some x \<Rightarrow> Inr x)"

definition store_list :: "tracker \<Rightarrow> lid \<Rightarrow> fid clist \<Rightarrow> tracker" where
  "store_list st l x = st\<lparr>name_lists := (name_lists st)(l \<mapsto> x)\<rparr>"

lemma load_file_Some [simp]: "files st f = Some x \<Longrightarrow> load_file st f = Inr x"
  by (simp add: load_file_def)

lemma load_client_Some [simp]: "client_mem st c = Some x \<Longrightarrow> load_client st c = Inr x"
  by (simp add: load_client_def)

lemma load_list_Some [simp]: "name_lists st l = Some x \<Longrightarrow> load_list st l = Inr x"
  by (simp add: load_list_def)

lemma load_file_Inr: "load_file st f = Inr x \<longleftrightarrow> files st f = Some x"
  by (simp add: load_file_def split: option.splits)

lemma load_client_Inr: "load_client st c = Inr x \<longleftrightarrow> client_mem st c = Some x"
  by (simp add: load_client_def split: option.splits)

section \<open>Strings the state is built from\<close>

text \<open>\<open>%s\<close> given a null pointer prints \<open>(null)\<close> in the GNU library.\<close>

definition fmt_s :: "string option \<Rightarrow> string" where
  "fmt_s s = (case s of None \<Rightarrow> ''(null)'' | Some t \<Rightarrow> t)"

definition ntohs :: "16 word \<Rightarrow> 16 word" where
  "ntohs w = or (push_bit 8 w) (drop_bit 8 w)"

text \<open>\<open>inet_ntop(AF_INET, ..)\<close> on a little-endian machine: the bytes in memory order.\<close>

definition inet_ntop :: "32 word \<Rightarrow> string" where
  "inet_ntop a = dec (unat a mod 256) @ ''.'' @ dec (unat a div 256 mod 256) @ ''.'' @
     dec (unat a div 65536 mod 256) @ ''.'' @ dec (unat a div 16777216)"

definition sockaddr_stringify :: "sockaddr_in \<Rightarrow> string" where
  "sockaddr_stringify si = inet_ntop (s_addr si) @ '':'' @ dec (unat (ntohs (sin_port si)))"

definition ip_stringify :: "32 word \<Rightarrow> string" where
  "ip_stringify ip_addr = inet_ntop ip_addr"

subsection \<open>They are injective\<close>

lemma dec_inj: "dec m = dec n \<longleftrightarrow> m = n"
  by (metis digits_value_dec of_nat_eq_iff)

lemma digits_prefix_unique:
  assumes "\<forall>c \<in> set a. c_isdigit c" and "\<forall>c \<in> set b. c_isdigit c" and "\<not> c_isdigit d"
    and "a @ d # s = b @ d # t"
  shows "a = b \<and> s = t"
proof -
  have "takeWhile c_isdigit (a @ d # s) = a" "takeWhile c_isdigit (b @ d # t) = b"
    using assms(1-3) by (simp_all add: takeWhile_append)
  then have "a = b" using assms(4) by (simp only:)
  then show ?thesis using assms(4) by simp
qed

lemma dec_prefix_unique: "\<not> c_isdigit d \<Longrightarrow> dec m @ d # s = dec n @ d # t \<longleftrightarrow> m = n \<and> s = t"
  using digits_prefix_unique [OF dec_digits dec_digits, of d m s n t] by (auto simp: dec_inj)

lemma dot_colon_digit [simp]: "\<not> c_isdigit (CHR ''.'')" "\<not> c_isdigit (CHR '':'')"
  by (simp_all add: c_isdigit_def)

lemma div_mod_inj: "a mod m = b mod m \<Longrightarrow> a div m = b div m \<Longrightarrow> a = (b :: nat)"
  by (metis div_mult_mod_eq)

lemma bytes_inj:
  assumes "a mod 256 = b mod 256" and "a div 256 mod 256 = b div 256 mod (256 :: nat)"
    and "a div 65536 mod 256 = b div 65536 mod 256" and "a div 16777216 = b div 16777216"
  shows "a = b"
proof -
  have d: "n div 65536 div 256 = n div 16777216" "n div 256 div 256 = n div 65536" for n :: nat
    by (simp_all only: div_mult2_eq [symmetric]) simp_all
  have "a div 65536 = b div 65536"
    by (rule div_mod_inj [OF assms(3)]) (simp only: d assms(4))
  then have "a div 256 = b div 256"
    by (intro div_mod_inj [OF assms(2)]) (simp only: d)
  then show ?thesis by (rule div_mod_inj [OF assms(1)])
qed

lemma ntohs_involution: "ntohs (ntohs w) = w"
  by (rule bit_word_eqI) (auto simp: ntohs_def bit_simps)

lemma ntohs_inj: "ntohs v = ntohs w \<longleftrightarrow> v = w"
  using ntohs_involution by metis

lemma inet_ntop_colon:
  "inet_ntop a @ CHR '':'' # s = inet_ntop b @ CHR '':'' # t \<longleftrightarrow> a = b \<and> s = t"
proof -
  have "unat a = unat b \<Longrightarrow> a = b" by (simp add: word_unat_eq_iff)
  then show ?thesis
    using bytes_inj [of "unat a" "unat b"] by (auto simp: inet_ntop_def dec_prefix_unique)
qed

lemma sockaddr_stringify_eq: "sockaddr_stringify x = sockaddr_stringify y \<longleftrightarrow> x = y"
proof -
  have "s_addr x = s_addr y \<Longrightarrow> sin_port x = sin_port y \<Longrightarrow> x = y" by simp
  then show ?thesis
    by (auto simp: sockaddr_stringify_def inet_ntop_colon dec_inj ntohs_inj word_unat_eq_iff [symmetric])
qed

lemma length_dec_byte: "n < 1000 \<Longrightarrow> length (dec n) \<le> 3"
  by (simp add: dec.simps [of n] dec.simps [of "n div 10"] dec.simps [of "n div 10 div 10"])

lemma inet_ntop_fits: "length (inet_ntop a) \<le> 15"
proof -
  have "unat a < 4294967296" using unsigned_less [of a] by simp
  then have "unat a div 16777216 < 1000" by simp
  moreover have "n mod 256 < 1000" for n :: nat
    by (rule less_trans [of _ 256]) simp_all
  ultimately have "length (dec (unat a mod 256)) \<le> 3" "length (dec (unat a div 256 mod 256)) \<le> 3"
      "length (dec (unat a div 65536 mod 256)) \<le> 3" "length (dec (unat a div 16777216)) \<le> 3"
    by (blast intro: length_dec_byte)+
  then show ?thesis by (simp add: inet_ntop_def)
qed

section \<open>Properties\<close>

text \<open>
  C29: Different peers get different keys: the printed form of an address and port, which is the
  key of the client table, determines both, and it fits the 20 bytes of \<open>sockaddr_stringify\<close>
  with its terminating zero.
\<close>

theorem sockaddr_stringify_injective:
  "(sockaddr_stringify a = sockaddr_stringify b) = (a = b) \<and> length (ip_stringify w) < 20"
  using inet_ntop_fits [of w] by (simp add: sockaddr_stringify_eq ip_stringify_def)

end
