(* ===== verification/Cpp_Files.thy ===== *)
theory Cpp_Files
  imports Cpp_Streams Tracker_State
begin

text \<open>
  The files of the C++ tracker: \<open>File\<close>, \<open>FileMap\<close> and \<open>FileMgr\<close>, and the criteria of a look request
  (\<open>tracker_cpp/Criterion.cpp\<close>, \<open>Criterion.hpp\<close>). Files and peers are objects at addresses; a \<open>std::set\<close> of pointers
  is the rising list of its addresses.
\<close>

section \<open>State\<close>

type_synonym addr = nat

record cpp_file =
  fname :: string
  fsize :: "64 word"
  fpiece :: "64 word"
  fhash :: string
  fpeers :: "addr list"

type_synonym file_map = "string \<Rightarrow> addr option"

record cpp_peer =
  remote_ip :: "32 word"
  listen_port :: "16 word"
  announced :: bool
  leech_map :: file_map
  seed_map :: file_map
  seq_errors :: nat
  written :: "string list"

text \<open>The heap of both classes, where the allocator stands, and the file manager: its map and its set.\<close>

record cpp_state =
  xfiles :: "addr \<Rightarrow> cpp_file option"
  xpeers :: "addr \<Rightarrow> cpp_peer option"
  xnext :: addr
  mgr_map :: file_map
  mgr_set :: "addr list"

definition load_xfile :: "cpp_state \<Rightarrow> addr \<Rightarrow> cpp_file result" where
  "load_xfile st f = (case xfiles st f of None \<Rightarrow> Inl Use_After_Free | Some x \<Rightarrow> Inr x)"

definition load_xpeer :: "cpp_state \<Rightarrow> addr \<Rightarrow> cpp_peer result" where
  "load_xpeer st p = (case xpeers st p of None \<Rightarrow> Inl Use_After_Free | Some y \<Rightarrow> Inr y)"

definition store_xfile :: "cpp_state \<Rightarrow> addr \<Rightarrow> cpp_file \<Rightarrow> cpp_state" where
  "store_xfile st f x = st\<lparr>xfiles := (xfiles st)(f \<mapsto> x)\<rparr>"

definition store_xpeer :: "cpp_state \<Rightarrow> addr \<Rightarrow> cpp_peer \<Rightarrow> cpp_state" where
  "store_xpeer st p y = st\<lparr>xpeers := (xpeers st)(p \<mapsto> y)\<rparr>"

definition set_insert :: "addr \<Rightarrow> addr list \<Rightarrow> addr list" where
  "set_insert x xs = (if x \<in> set xs then xs else insort x xs)"

section \<open>Files\<close>

definition new_file :: "string \<Rightarrow> 64 word \<Rightarrow> 64 word \<Rightarrow> string \<Rightarrow> cpp_file" where
  "new_file name n piece key = \<lparr>fname = name, fsize = n, fpiece = piece, fhash = key, fpeers = []\<rparr>"

definition file_eq :: "cpp_file \<Rightarrow> cpp_file \<Rightarrow> bool" where
  "file_eq x y \<longleftrightarrow> fsize x = fsize y \<and> fsize x = fsize y \<and> fpiece x = fpiece y \<and> fhash x = fhash y"

definition add_peer :: "cpp_state \<Rightarrow> addr \<Rightarrow> addr \<Rightarrow> cpp_state result" where
  "add_peer st f p = rbind (load_xfile st f) (\<lambda>x. Inr (store_xfile st f (x\<lparr>fpeers := set_insert p (fpeers x)\<rparr>)))"

definition file_to_string :: "cpp_file \<Rightarrow> string" where
  "file_to_string x = fname x @ '' '' @ dec (unat (fsize x)) @ '' '' @ dec (unat (fpiece x)) @ '' '' @ fhash x"

text \<open>\<open>unordered_map::insert\<close> keeps the entry a key already has.\<close>

definition file_map_insert :: "file_map \<Rightarrow> cpp_file \<Rightarrow> addr \<Rightarrow> file_map" where
  "file_map_insert m x f = (if m (fhash x) = None then m(fhash x \<mapsto> f) else m)"

definition file_map_get :: "file_map \<Rightarrow> string \<Rightarrow> addr option" where
  "file_map_get m key = m key"

definition mgr_insert :: "cpp_state \<Rightarrow> addr \<Rightarrow> cpp_state result" where
  "mgr_insert st f =
     rbind (load_xfile st f) (\<lambda>x.
       Inr (st\<lparr>mgr_set := set_insert f (mgr_set st), mgr_map := file_map_insert (mgr_map st) x f\<rparr>))"

definition get_file :: "cpp_state \<Rightarrow> string \<Rightarrow> 64 word \<Rightarrow> 64 word \<Rightarrow> string \<Rightarrow> (addr \<times> cpp_state) result" where
  "get_file st name n piece key =
     (let f = xnext st; x = new_file name n piece key;
          kept = rbind (mgr_insert ((store_xfile st f x)\<lparr>xnext := f + 1\<rparr>) f) (\<lambda>st. Inr (f, st))
      in case mgr_map st key of
           None \<Rightarrow> kept
         | Some g \<Rightarrow> rbind (load_xfile st g) (\<lambda>y. if file_eq y x then Inr (g, st) else kept))"

section \<open>Criteria\<close>

text \<open>A predicate on a file and the argument; \<open>None\<close> is the exception \<open>stoul\<close> throws.\<close>

type_synonym pred = "cpp_file \<Rightarrow> string \<Rightarrow> bool option"

definition num_pred :: "(64 word \<Rightarrow> 64 word \<Rightarrow> bool) \<Rightarrow> (cpp_file \<Rightarrow> 64 word) \<Rightarrow> pred" where
  "num_pred r field f ssize = map_option (\<lambda>n. r (field f) n) (stoul ssize)"

definition eqi :: "bool \<Rightarrow> (cpp_file \<Rightarrow> 64 word) \<Rightarrow> pred" where
  "eqi reversed field f ssize = map_option (\<lambda>s. (s = field f) \<noteq> reversed) (stoul ssize)"

definition eqs :: "bool \<Rightarrow> (cpp_file \<Rightarrow> string) \<Rightarrow> pred" where
  "eqs reversed field f name = Some ((name = field f) \<noteq> reversed)"

record criterion =
  cdelim :: string
  ckeyword :: string
  cpred :: pred

definition mk_criterion :: "string \<Rightarrow> string \<Rightarrow> pred \<Rightarrow> criterion" where
  "mk_criterion d k p = \<lparr>cdelim = d @ [CHR 0x22], ckeyword = k, cpred = p\<rparr>"

definition make_num_field :: "(cpp_file \<Rightarrow> 64 word) \<Rightarrow> string \<Rightarrow> criterion list" where
  "make_num_field field name =
     [mk_criterion ''='' name (eqi True field), mk_criterion ''!='' name (eqi False field),
      mk_criterion ''>='' name (num_pred (\<ge>) field), mk_criterion ''<='' name (num_pred (\<le>) field),
      mk_criterion ''>'' name (num_pred (>) field), mk_criterion ''<'' name (num_pred (<) field)]"

definition make_string_field :: "(cpp_file \<Rightarrow> string) \<Rightarrow> string \<Rightarrow> criterion list" where
  "make_string_field field name = [mk_criterion ''!='' name (eqs True field), mk_criterion ''='' name (eqs False field)]"

definition criterions :: "criterion list" where
  "criterions = make_num_field fsize ''filesize'' @ make_num_field fpiece ''piecesize'' @
     make_string_field fname ''filename'' @ make_string_field fhash ''hash''"

definition criterion_match :: "criterion \<Rightarrow> string \<Rightarrow> bool" where
  "criterion_match c v = (case strstr v (cdelim c) of None \<Rightarrow> False | Some pos \<Rightarrow> take pos v = ckeyword c)"

text \<open>The loop of \<open>applyCriterion\<close>; an exception's text is \<open>Inl\<close>.\<close>

fun select_files :: "cpp_state \<Rightarrow> pred \<Rightarrow> string \<Rightarrow> addr list \<Rightarrow> (string + addr list) result" where
  "select_files st p argument [] = Inr (Inr [])"
| "select_files st p argument (f # fs) =
     rbind (load_xfile st f) (\<lambda>x.
       case p x argument of
         None \<Rightarrow> Inr (Inl ''stoul'')
       | Some b \<Rightarrow> rbind (select_files st p argument fs) (\<lambda>r.
           Inr (map_sum id (\<lambda>fs. if b then set_insert f fs else fs) r)))"

definition apply_criterion :: "cpp_state \<Rightarrow> criterion \<Rightarrow> string \<Rightarrow> addr list \<Rightarrow> (string + addr list) result" where
  "apply_criterion st c v s =
     (let pos = (case strstr v (cdelim c) of None \<Rightarrow> length (cdelim c) - 1 | Some pos \<Rightarrow> pos + length (cdelim c));
          (argument, _) = read_line (sstream_of (drop pos v)) (CHR 0x22) []
      in select_files st (cpred c) argument s)"

definition parse_criterion :: "cpp_state \<Rightarrow> string \<Rightarrow> addr list \<Rightarrow> (string + addr list) result" where
  "parse_criterion st criterion s =
     (case List.find (\<lambda>c. criterion_match c criterion) criterions of
        None \<Rightarrow> Inr (Inr [])
      | Some c \<Rightarrow> apply_criterion st c criterion s)"

end
