(* ===== verification/Circular_Buffer.thy ===== *)
theory Circular_Buffer
  imports Prelude
begin

text \<open>
  The byte buffer of the C++ tracker (\<open>tracker_cpp/common/containers/CircularBuffer.cpp\<close>): a ring of \<open>_capacity\<close>
  bytes with a read and a write position. The ring refines a bounded queue of bytes; two of its operations do so only
  in part, which the last theorems state.
\<close>

section \<open>The ring\<close>

type_synonym byte = "8 word"

text \<open>\<open>None\<close> is a byte of the array that was never written.\<close>

record cbuf =
  capacity :: nat
  csize :: nat
  cr :: nat
  cw :: nat
  cbytes :: "byte option list"

definition cb_create :: "nat \<Rightarrow> cbuf" where
  "cb_create n = \<lparr>capacity = n, csize = 0, cr = 0, cw = 0, cbytes = replicate n None\<rparr>"

text \<open>\<open>memcpy\<close> into and out of an array.\<close>

definition put_bytes :: "byte option list \<Rightarrow> nat \<Rightarrow> byte option list \<Rightarrow> byte option list result" where
  "put_bytes m off data =
     (if off + length data \<le> length m then Inr (take off m @ data @ drop (off + length data) m) else Inl Out_Of_Bounds)"

definition get_bytes :: "byte option list \<Rightarrow> nat \<Rightarrow> nat \<Rightarrow> byte option list result" where
  "get_bytes m off n = (if off + n \<le> length m then Inr (take n (drop off m)) else Inl Out_Of_Bounds)"

definition cb_remaining_space :: "cbuf \<Rightarrow> nat" where
  "cb_remaining_space b = capacity b - csize b"

text \<open>\<open>abort\<close> is a failed assertion.\<close>

definition cb_write :: "cbuf \<Rightarrow> byte option list \<Rightarrow> (nat \<times> cbuf) result" where
  "cb_write b data =
     (let sz = length data
      in if sz \<le> cb_remaining_space b
         then rbind
           (if cw b + sz \<le> capacity b
            then rbind (put_bytes (cbytes b) (cw b) data) (\<lambda>m. Inr (b\<lparr>cbytes := m, cw := cw b + sz\<rparr>))
            else let cut = capacity b - cw b
                 in rbind (put_bytes (cbytes b) (cw b) (take cut data)) (\<lambda>m.
                    rbind (put_bytes m 0 (drop cut data)) (\<lambda>m. Inr (b\<lparr>cbytes := m, cw := sz - cut\<rparr>))))
           (\<lambda>b. Inr (sz, b\<lparr>csize := csize b + sz\<rparr>))
         else Inl Assert_Failed)"

definition cb_read :: "cbuf \<Rightarrow> nat \<Rightarrow> (byte option list \<times> cbuf) result" where
  "cb_read b sz =
     (if sz \<le> csize b
      then rbind
        (if cr b + sz \<le> capacity b
         then rbind (get_bytes (cbytes b) (cr b) sz) (\<lambda>data. Inr (data, b\<lparr>cr := cr b + sz\<rparr>))
         else let cut = capacity b - cr b
              in rbind (get_bytes (cbytes b) (cr b) cut) (\<lambda>d1.
                 rbind (get_bytes (cbytes b) 0 (sz - cut)) (\<lambda>d2. Inr (d1 @ d2, b\<lparr>cr := sz - cut\<rparr>))))
        (\<lambda>(data, b). Inr (data, b\<lparr>csize := csize b - sz\<rparr>))
      else Inl Assert_Failed)"

text \<open>The copy \<open>peek\<close> makes when the number fits; a larger one is cut to the size of the contents.\<close>

definition peek_copy :: "cbuf \<Rightarrow> nat \<Rightarrow> byte option list result" where
  "peek_copy b sz =
     (if cr b + sz < capacity b then get_bytes (cbytes b) (cr b) sz
      else let cut = capacity b - cr b
           in rbind (get_bytes (cbytes b) (cr b) cut) (\<lambda>d1.
              rbind (get_bytes (cbytes b) 0 (sz - cut)) (\<lambda>d2. Inr (d1 @ d2))))"

definition cb_peek :: "cbuf \<Rightarrow> nat \<Rightarrow> byte option list result" where
  "cb_peek b sz = (if sz \<le> csize b then peek_copy b sz else peek_copy b (csize b))"

text \<open>
  \<open>resize\<close>: \<open>bigger\<close> is the comparison of the factor with 1, \<open>new_cap\<close> the capacity times the factor as the floating
  point unit computes it.
\<close>

definition cb_resize :: "cbuf \<Rightarrow> bool \<Rightarrow> nat \<Rightarrow> cbuf result" where
  "cb_resize b bigger new_cap =
     (if \<not> bigger then Inr b
      else let sz = csize b
           in rbind (cb_read b (min sz new_cap)) (\<lambda>(data, b).
              rbind (put_bytes (replicate new_cap None) 0 data) (\<lambda>nbuf.
                Inr (b\<lparr>cr := 0, cw := sz, cbytes := nbuf, csize := sz, capacity := new_cap\<rparr>))))"

definition cb_reset :: "cbuf \<Rightarrow> cbuf" where
  "cb_reset b = b\<lparr>cr := 0, cw := 0, csize := 0\<rparr>"

text \<open>
  \<open>writeToFd\<close>: \<open>r1\<close> and \<open>r2\<close> are what the first and the second call of \<open>write\<close> return. The result is the returned
  number, the bytes the system took and the buffer.
\<close>

definition cb_write_to_fd :: "cbuf \<Rightarrow> int \<Rightarrow> int \<Rightarrow> (int \<times> byte option list \<times> cbuf) result" where
  "cb_write_to_fd b r1 r2 =
     (let emptied = cb_reset b
      in if cr b + csize b \<le> capacity b
         then rbind (get_bytes (cbytes b) (cr b) (csize b)) (\<lambda>d.
                if r1 \<le> 0 then Inr (r1, [], b)
                else if nat r1 < csize b
                then Inr (r1, take (nat r1) d, b\<lparr>cr := cr b + nat r1, csize := csize b - nat r1\<rparr>)
                else Inr (int (csize b), d, emptied))
         else let cut = capacity b - cr b
              in rbind (get_bytes (cbytes b) (cr b) cut) (\<lambda>d1.
                 if r1 \<le> 0 then Inr (r1, [], b)
                 else if nat r1 < cut
                 then Inr (r1, take (nat r1) d1, b\<lparr>cr := cr b + nat r1, csize := csize b - nat r1\<rparr>)
                 else rbind (get_bytes (cbytes b) 0 (csize b - cut)) (\<lambda>d2.
                   if r2 \<le> 0 then Inr (r2, d1, b)
                   else if nat r2 < csize b - cut
                   then Inr (r2, d1 @ take (nat r2) d2, b\<lparr>cr := nat r2, csize := csize b - nat r2\<rparr>)
                   else Inr (int (csize b), d1 @ d2, emptied))))"

text \<open>The loops of \<open>contains\<close> over the array from \<open>i\<close> on; a byte that was never written must not be compared.\<close>

fun scan_bytes :: "byte \<Rightarrow> byte option list \<Rightarrow> bool result" where
  "scan_bytes c [] = Inr False"
| "scan_bytes c (None # m) = Inl Uninitialised"
| "scan_bytes c (Some x # m) = (if x = c then Inr True else scan_bytes c m)"

definition cb_contains :: "cbuf \<Rightarrow> byte \<Rightarrow> bool result" where
  "cb_contains b c =
     (if cr b < cw b
      then rbind (get_bytes (cbytes b) (cr b) (cw b - cr b)) (scan_bytes c)
      else if cw b < cr b
      then rbind (get_bytes (cbytes b) (cr b) (capacity b - cr b)) (\<lambda>d1. rbind (scan_bytes c d1) (\<lambda>found.
             if found then Inr True else rbind (get_bytes (cbytes b) 0 (cw b)) (scan_bytes c)))
      else Inr False)"

definition cb_have_word :: "cbuf \<Rightarrow> bool result" where
  "cb_have_word b = cb_contains b 0x20"

definition cb_have_line :: "cbuf \<Rightarrow> bool result" where
  "cb_have_line b = cb_contains b 0x0A"

text \<open>One of the two loops of \<open>readUntil\<close>, up to the position \<open>hi\<close>; \<open>_size\<close> is a \<open>size_t\<close>.\<close>

function until_loop :: "byte \<Rightarrow> nat \<Rightarrow> byte option list \<Rightarrow> nat \<Rightarrow> 64 word \<Rightarrow> byte list \<Rightarrow> (nat \<times> 64 word \<times> byte list) result" where
  "until_loop c hi m r sz s =
     (if r < hi
      then (if length m \<le> r then Inl Out_Of_Bounds
            else case m ! r of
                   None \<Rightarrow> Inl Uninitialised
                 | Some x \<Rightarrow> if x = c then Inr (r, sz, s) else until_loop c hi m (r + 1) (sz - 1) (s @ [x]))
      else Inr (r, sz, s))"
  by pat_completeness auto
termination by (relation "measure (\<lambda>(c, hi, m, r, sz, s). hi - r)") auto

declare until_loop.simps [simp del]

definition cb_read_until :: "cbuf \<Rightarrow> byte \<Rightarrow> (byte list \<times> cbuf) result" where
  "cb_read_until b c =
     rbind (if cw b < cr b
            then rbind (until_loop c (capacity b) (cbytes b) (cr b) (of_nat (csize b)) []) (\<lambda>(r, sz, s). Inr (0, sz, s))
            else Inr (cr b, of_nat (csize b), [])) (\<lambda>(r, sz, s).
     rbind (until_loop c (cw b) (cbytes b) r sz s) (\<lambda>(r, sz, s).
       if 0 < sz then Inr (s, b\<lparr>cr := r + 1, csize := unat (sz - 1)\<rparr>)
       else Inr (s, b\<lparr>cr := r, csize := unat sz\<rparr>)))"

section \<open>The queue it stands for\<close>

text \<open>Byte \<open>i\<close> of the contents is at \<open>ring_pos b i\<close>; the positions determine the size but for a full and an empty ring.\<close>

definition ring_pos :: "cbuf \<Rightarrow> nat \<Rightarrow> nat" where
  "ring_pos b i = (if cr b + i < capacity b then cr b + i else cr b + i - capacity b)"

definition cb_rel :: "cbuf \<Rightarrow> byte list \<Rightarrow> bool" where
  "cb_rel b xs \<longleftrightarrow> length (cbytes b) = capacity b \<and> cr b \<le> capacity b \<and> cw b \<le> capacity b \<and> csize b = length xs \<and>
     (cr b \<le> cw b \<and> cr b + length xs = cw b \<or> cw b \<le> cr b \<and> cr b + length xs = capacity b + cw b) \<and>
     (\<forall>i < length xs. cbytes b ! ring_pos b i = Some (xs ! i))"

lemma put_bytes_nth:
  "off + length d \<le> length m \<Longrightarrow> \<exists>m'. put_bytes m off d = Inr m' \<and> length m' = length m \<and>
     (\<forall>j < length m. m' ! j = (if off \<le> j \<and> j < off + length d then d ! (j - off) else m ! j))"
  by (auto simp: put_bytes_def nth_append min_def)

lemma cb_rel_bounds: "cb_rel b xs \<Longrightarrow> length xs \<le> capacity b"
  by (auto simp: cb_rel_def)

lemma ring_pos_less: "cb_rel b xs \<Longrightarrow> i < length xs \<Longrightarrow> ring_pos b i < capacity b"
  by (auto simp: cb_rel_def ring_pos_def)

text \<open>Where the bytes of a write go: behind the contents, and apart from them.\<close>

definition write_pos :: "cbuf \<Rightarrow> nat \<Rightarrow> nat" where
  "write_pos b k = (if cw b + k < capacity b then cw b + k else cw b + k - capacity b)"

lemma write_pos_ring:
  assumes "cb_rel b xs" and "length xs + k < capacity b"
  shows "ring_pos b (length xs + k) = write_pos b k"
  using assms by (auto simp: cb_rel_def ring_pos_def write_pos_def)

lemma write_pos_apart:
  assumes "cb_rel b xs" and "length xs + k < capacity b" and "i < length xs"
  shows "write_pos b k \<noteq> ring_pos b i"
  using assms by (auto simp: cb_rel_def ring_pos_def write_pos_def)

lemma cb_rel_append:
  assumes r: "cb_rel b xs" and fit: "length xs + length ys \<le> capacity b"
    and m: "length m = capacity b" "\<And>k. k < length ys \<Longrightarrow> m ! write_pos b k = Some (ys ! k)"
      "\<And>j. j < capacity b \<Longrightarrow> (\<forall>k < length ys. write_pos b k \<noteq> j) \<Longrightarrow> m ! j = cbytes b ! j"
    and w: "w \<le> capacity b" "cw b + length ys = w \<or> 0 < w \<and> cw b + length ys = capacity b + w"
  shows "cb_rel (b\<lparr>cbytes := m, cw := w, csize := csize b + length ys\<rparr>) (xs @ ys)"
proof -
  let ?b = "b\<lparr>cbytes := m, cw := w, csize := csize b + length ys\<rparr>"
  have "m ! ring_pos b i = Some ((xs @ ys) ! i)" if "i < length xs + length ys" for i
  proof (cases "i < length xs")
    case True
    then have "\<forall>k < length ys. write_pos b k \<noteq> ring_pos b i"
      using write_pos_apart [OF r] fit by auto
    with m(3) [OF ring_pos_less [OF r True]] have "m ! ring_pos b i = cbytes b ! ring_pos b i" by blast
    with True r show ?thesis by (simp add: cb_rel_def nth_append)
  next
    case False
    then obtain k where k: "i = length xs + k" "k < length ys" using \<open>i < length xs + length ys\<close> by (metis add_less_cancel_left le_iff_add linorder_not_less)
    with m(2) write_pos_ring [OF r, of k] fit show ?thesis by (simp add: nth_append)
  qed
  moreover have "ring_pos ?b = ring_pos b" by (simp add: ring_pos_def fun_eq_iff)
  moreover have "cr b \<le> w \<and> cr b + length (xs @ ys) = w \<or> w \<le> cr b \<and> cr b + length (xs @ ys) = capacity b + w"
    using r w fit by (auto simp: cb_rel_def)
  ultimately show ?thesis using r m(1) w(1) by (simp add: cb_rel_def)
qed

lemma cb_write_rel:
  assumes r: "cb_rel b xs" and fit: "length xs + length ys \<le> capacity b"
  shows "\<exists>b'. cb_write b (map Some ys) = Inr (length ys, b') \<and> cb_rel b' (xs @ ys) \<and> capacity b' = capacity b"
proof (cases "cw b + length ys \<le> capacity b")
  case True
  obtain m where m: "put_bytes (cbytes b) (cw b) (map Some ys) = Inr m" "length m = capacity b"
    "\<forall>j < capacity b. m ! j = (if cw b \<le> j \<and> j < cw b + length ys then map Some ys ! (j - cw b) else cbytes b ! j)"
    using put_bytes_nth [of "cw b" "map Some ys" "cbytes b"] True r by (auto simp: cb_rel_def)
  let ?b = "b\<lparr>cbytes := m, cw := cw b + length ys, csize := csize b + length ys\<rparr>"
  have e: "cb_write b (map Some ys) = Inr (length ys, ?b)"
    using m(1) True r fit by (simp add: cb_write_def cb_remaining_space_def cb_rel_def Let_def)
  have "m ! j = cbytes b ! j" if "j < capacity b" "\<forall>k < length ys. write_pos b k \<noteq> j" for j
  proof -
    have "\<not> (cw b \<le> j \<and> j < cw b + length ys)"
    proof
      assume a: "cw b \<le> j \<and> j < cw b + length ys"
      then have "j - cw b < length ys" by linarith
      with that a show False by (auto simp: write_pos_def)
    qed
    with m(3) that(1) show ?thesis by auto
  qed
  then have "cb_rel ?b (xs @ ys)"
    using True m(3) by (intro cb_rel_append [OF r fit m(2)]) (auto simp: write_pos_def)
  with e show ?thesis by simp
next
  case False
  let ?cut = "capacity b - cw b"
  have l: "cw b \<le> capacity b" "length (cbytes b) = capacity b" "length ys \<le> capacity b" using r fit by (auto simp: cb_rel_def)
  have lt: "length (take ?cut (map Some ys)) = ?cut" "cw b + ?cut = capacity b" using False l by simp_all
  obtain m where m: "put_bytes (cbytes b) (cw b) (take ?cut (map Some ys)) = Inr m" "length m = capacity b"
    "\<forall>j < capacity b. m ! j = (if cw b \<le> j then map Some ys ! (j - cw b) else cbytes b ! j)"
    using put_bytes_nth [of "cw b" "take ?cut (map Some ys)" "cbytes b", unfolded lt l(2)] by (auto simp: less_diff_conv2)
  have d: "0 + length (drop ?cut (map Some ys)) \<le> length m" using l m(2) by simp
  obtain m' where m0: "put_bytes m 0 (drop ?cut (map Some ys)) = Inr m'" "length m' = length m"
    "\<forall>j < length m. m' ! j = (if 0 \<le> j \<and> j < 0 + length (drop ?cut (map Some ys))
       then drop ?cut (map Some ys) ! (j - 0) else m ! j)"
    using put_bytes_nth [OF d] by blast
  have "m' ! j = (if j < length ys - ?cut then map Some ys ! (?cut + j) else m ! j)" if "j < capacity b" for j
    using m0(3) that False l m(2) by simp
  with m0(1,2) m(2) have m': "put_bytes m 0 (drop ?cut (map Some ys)) = Inr m'" "length m' = capacity b"
    "\<forall>j < capacity b. m' ! j = (if j < length ys - ?cut then map Some ys ! (?cut + j) else m ! j)"
    by simp_all
  let ?b = "b\<lparr>cbytes := m', cw := length ys - ?cut, csize := csize b + length ys\<rparr>"
  have e: "cb_write b (map Some ys) = Inr (length ys, ?b)"
    using m(1) m'(1) False r fit by (simp add: cb_write_def cb_remaining_space_def cb_rel_def Let_def)
  have "m' ! j = cbytes b ! j" if j: "j < capacity b" "\<forall>k < length ys. write_pos b k \<noteq> j" for j
  proof -
    have "\<not> cw b \<le> j"
    proof
      assume a: "cw b \<le> j"
      then have "j - cw b < length ys" using j(1) False by linarith
      with j a show False by (auto simp: write_pos_def)
    qed
    moreover have "\<not> j < length ys - ?cut"
    proof
      assume a: "j < length ys - ?cut"
      then have "?cut + j < length ys" by linarith
      moreover have "write_pos b (?cut + j) = j" using l(1) by (simp add: write_pos_def)
      ultimately show False using j(2) by blast
    qed
    ultimately show ?thesis using m'(3) m(3) j(1) by simp
  qed
  moreover have "m' ! write_pos b k = Some (ys ! k)" if k: "k < length ys" for k
  proof (cases "k < ?cut")
    case True
    then have "\<not> cw b + k < length ys - ?cut" using r fit by (auto simp: cb_rel_def)
    moreover have "cw b + k < capacity b" using True by linarith
    ultimately show ?thesis using k m'(3) m(3) by (simp add: write_pos_def)
  next
    case False
    then show ?thesis using k m'(3) l by (auto simp: write_pos_def)
  qed
  ultimately have "cb_rel ?b (xs @ ys)"
    using False l by (intro cb_rel_append [OF r fit m'(2)]) auto
  with e show ?thesis by simp
qed

text \<open>Reading: the contents from the front, in one piece or in two.\<close>

lemma ring_slice_one:
  assumes r: "cb_rel b xs" and n: "n \<le> length xs" and fit: "cr b + n \<le> capacity b"
  shows "get_bytes (cbytes b) (cr b) n = Inr (map Some (take n xs))"
proof -
  have "cbytes b ! (cr b + i) = Some (xs ! i)" if "i < n" for i
  proof -
    have "cbytes b ! ring_pos b i = Some (xs ! i)" using r n that by (simp add: cb_rel_def)
    moreover have "ring_pos b i = cr b + i" using fit that by (simp add: ring_pos_def)
    ultimately show ?thesis by simp
  qed
  then have "take n (drop (cr b) (cbytes b)) = map Some (take n xs)"
    using r n fit by (intro nth_equalityI) (auto simp: cb_rel_def)
  then show ?thesis using r fit by (simp add: get_bytes_def cb_rel_def)
qed

lemma ring_slice_two:
  assumes r: "cb_rel b xs" and n: "n \<le> length xs" and wrap: "capacity b \<le> cr b + n"
  defines "front \<equiv> capacity b - cr b"
  shows "get_bytes (cbytes b) (cr b) front = Inr (map Some (take front xs))"
    and "get_bytes (cbytes b) 0 (n - front) = Inr (map Some (drop front (take n xs)))"
proof -
  have c: "front \<le> n" "cr b + front = capacity b" using r wrap by (auto simp: cb_rel_def front_def)
  show "get_bytes (cbytes b) (cr b) front = Inr (map Some (take front xs))"
    using c n by (intro ring_slice_one [OF r]) auto
  have l: "n - front \<le> capacity b" using n cb_rel_bounds [OF r] by simp
  have "cbytes b ! i = Some (xs ! (front + i))" if "i < n - front" for i
  proof -
    have "front + i < length xs" using that n by simp
    then have "cbytes b ! ring_pos b (front + i) = Some (xs ! (front + i))" using r by (simp add: cb_rel_def)
    moreover have "ring_pos b (front + i) = i" using c by (simp add: ring_pos_def)
    ultimately show ?thesis by simp
  qed
  then have "take (n - front) (cbytes b) = map Some (drop front (take n xs))"
    using r l n by (intro nth_equalityI) (auto simp: cb_rel_def)
  then show "get_bytes (cbytes b) 0 (n - front) = Inr (map Some (drop front (take n xs)))"
    using r l by (simp add: get_bytes_def cb_rel_def)
qed

lemma cb_rel_drop:
  assumes r: "cb_rel b xs" and n: "n \<le> length xs"
    and p: "p \<le> capacity b" "cr b + n = p \<or> 0 < p \<and> cr b + n = capacity b + p"
  shows "cb_rel (b\<lparr>cr := p, csize := csize b - n\<rparr>) (drop n xs)"
proof -
  let ?b = "b\<lparr>cr := p, csize := csize b - n\<rparr>"
  have "cbytes ?b ! ring_pos ?b i = Some (drop n xs ! i)" if "i < length xs - n" for i
  proof -
    have "ring_pos ?b i = ring_pos b (n + i)" using r n p that by (auto simp: cb_rel_def ring_pos_def)
    with r that show ?thesis by (simp add: cb_rel_def)
  qed
  moreover have "p \<le> cw b \<and> p + (length xs - n) = cw b \<or> cw b \<le> p \<and> p + (length xs - n) = capacity b + cw b"
    using r n p by (auto simp: cb_rel_def)
  ultimately show ?thesis using r n p(1) by (simp add: cb_rel_def)
qed

lemma cb_read_rel:
  assumes r: "cb_rel b xs" and n: "n \<le> length xs"
  shows "\<exists>b'. cb_read b n = Inr (map Some (take n xs), b') \<and> cb_rel b' (drop n xs) \<and> capacity b' = capacity b"
proof (cases "cr b + n \<le> capacity b")
  case True
  have "cb_read b n = Inr (map Some (take n xs), b\<lparr>cr := cr b + n, csize := csize b - n\<rparr>)"
    using ring_slice_one [OF r n True] r n True by (simp add: cb_read_def cb_rel_def)
  with cb_rel_drop [OF r n True] show ?thesis by simp
next
  case False
  let ?cut = "capacity b - cr b"
  have c: "capacity b \<le> cr b + n" "?cut \<le> n" "cr b \<le> capacity b" using False r by (auto simp: cb_rel_def)
  have "take ?cut xs @ drop ?cut (take n xs) = take n xs"
    by (metis append_take_drop_id c(2) min.absorb1 take_take)
  then have "cb_read b n = Inr (map Some (take n xs), b\<lparr>cr := n - ?cut, csize := csize b - n\<rparr>)"
    using ring_slice_two [OF r n c(1)] r n False
    by (simp add: cb_read_def cb_rel_def Let_def flip: map_append)
  moreover have "n - ?cut \<le> capacity b" "0 < n - ?cut \<and> cr b + n = capacity b + (n - ?cut)"
    using n cb_rel_bounds [OF r] c False by auto
  ultimately show ?thesis using cb_rel_drop [OF r n] by simp
qed

lemma cb_peek_rel: "cb_rel b xs \<Longrightarrow> cb_peek b n = Inr (map Some (take n xs))"
proof -
  assume r: "cb_rel b xs"
  have p: "peek_copy b k = Inr (map Some (take k xs))" if k: "k \<le> length xs" for k
  proof (cases "cr b + k < capacity b")
    case True
    with ring_slice_one [OF r k] show ?thesis by (simp add: peek_copy_def)
  next
    case False
    let ?cut = "capacity b - cr b"
    have c: "capacity b \<le> cr b + k" "?cut \<le> k" using False r by (auto simp: cb_rel_def)
    have "take ?cut xs @ drop ?cut (take k xs) = take k xs"
      by (metis append_take_drop_id c(2) min.absorb1 take_take)
    with ring_slice_two [OF r k c(1)] False show ?thesis
      by (simp add: peek_copy_def Let_def flip: map_append)
  qed
  show ?thesis
    using p [of n] p [of "length xs"] r by (auto simp: cb_peek_def cb_rel_def)
qed

lemma cb_resize_rel:
  assumes r: "cb_rel b xs" and bigger: "length xs \<le> new_cap"
  shows "\<exists>b'. cb_resize b True new_cap = Inr b' \<and> cb_rel b' xs \<and> capacity b' = new_cap"
proof -
  obtain b1 where b1: "cb_read b (length xs) = Inr (map Some xs, b1)"
    using cb_read_rel [OF r order_refl] by auto
  obtain m where m: "put_bytes (replicate new_cap None) 0 (map Some xs) = Inr m" "length m = new_cap"
    "\<forall>j < new_cap. m ! j = (if j < length xs then map Some xs ! j else None)"
    using put_bytes_nth [of 0 "map Some xs" "replicate new_cap None"] bigger by auto
  let ?b = "b1\<lparr>cr := 0, cw := length xs, cbytes := m, csize := length xs, capacity := new_cap\<rparr>"
  have "cb_resize b True new_cap = Inr ?b"
    using r bigger b1 m(1) by (simp add: cb_resize_def cb_rel_def Let_def min_def)
  moreover have "cb_rel ?b xs" using bigger m(2,3) by (simp add: cb_rel_def ring_pos_def)
  ultimately show ?thesis by simp
qed

section \<open>Searching\<close>

text \<open>Where the two positions differ they tell how the contents lie; a full ring with equal positions looks empty.\<close>

definition cb_visible :: "cbuf \<Rightarrow> byte list \<Rightarrow> bool" where
  "cb_visible b xs \<longleftrightarrow> xs = [] \<or> cr b \<noteq> cw b"

lemma cb_visible_room: "cb_rel b xs \<Longrightarrow> length xs < capacity b \<Longrightarrow> cb_visible b xs"
  by (auto simp: cb_rel_def cb_visible_def)

lemma scan_bytes_Some: "scan_bytes c (map Some zs) = Inr (c \<in> set zs)"
  by (induction zs) auto

lemma cb_rel_linear:
  "cb_rel b xs \<Longrightarrow> cr b < cw b \<Longrightarrow> cr b + length xs = cw b \<and> cw b \<le> capacity b"
  by (auto simp: cb_rel_def)

lemma cb_rel_wrapped:
  "cb_rel b xs \<Longrightarrow> cw b < cr b \<Longrightarrow> cr b + length xs = capacity b + cw b \<and> cr b \<le> capacity b"
  by (auto simp: cb_rel_def)

lemma cb_contains_rel:
  assumes r: "cb_rel b xs" and v: "cb_visible b xs"
  shows "cb_contains b c = Inr (c \<in> set xs)"
proof (cases "cr b" "cw b" rule: linorder_cases)
  case less
  then have l: "cw b - cr b = length xs" "cr b + length xs \<le> capacity b" using cb_rel_linear [OF r less] by linarith+
  show ?thesis using less ring_slice_one [OF r order_refl l(2)] by (simp add: cb_contains_def l(1) scan_bytes_Some)
next
  case equal
  with v have "xs = []" by (simp add: cb_visible_def)
  with equal show ?thesis by (simp add: cb_contains_def)
next
  case greater
  let ?k = "capacity b - cr b"
  have l: "capacity b \<le> cr b + length xs" "length xs - ?k = cw b" using cb_rel_wrapped [OF r greater] by linarith+
  have "set (take ?k xs) \<union> set (drop ?k xs) = set xs" by (metis append_take_drop_id set_append)
  then show ?thesis
    using greater ring_slice_two [OF r order_refl l(1)] by (auto simp: cb_contains_def l(2) scan_bytes_Some)
qed

lemma until_loop_spec:
  assumes "\<And>i. i < length zs \<Longrightarrow> m ! (r + i) = Some (zs ! i)" and "r + length zs = hi" and "hi \<le> length m"
  shows "until_loop c hi m r sz s = Inr (r + length (takeWhile (\<lambda>x. x \<noteq> c) zs),
    sz - of_nat (length (takeWhile (\<lambda>x. x \<noteq> c) zs)), s @ takeWhile (\<lambda>x. x \<noteq> c) zs)"
  using assms
proof (induction zs arbitrary: r sz s)
  case Nil
  then show ?case by (simp add: until_loop.simps [of c hi m hi])
next
  case (Cons z zs)
  have m: "m ! r = Some z" using Cons.prems(1) [of 0] by simp
  have lt: "r < hi" "\<not> length m \<le> r" using Cons.prems(2,3) by simp_all
  show ?case
  proof (cases "z = c")
    case True
    with m lt show ?thesis by (simp add: until_loop.simps [of c hi m r])
  next
    case False
    have "m ! (Suc r + i) = Some (zs ! i)" if "i < length zs" for i
      using Cons.prems(1) [of "Suc i"] that by simp
    from Cons.IH [OF this, of "sz - 1" "s @ [z]"] Cons.prems(2,3) m lt False show ?thesis
      by (simp add: until_loop.simps [of c hi m r] algebra_simps)
  qed
qed

lemma takeWhile_all_length: "length (takeWhile P xs) = length xs \<longleftrightarrow> takeWhile P xs = xs"
  by (metis takeWhile_eq_take take_all_iff order_refl)

lemma cb_read_until_linear:
  assumes r: "cb_rel b xs" and v: "cr b < cw b \<or> xs = [] \<and> cr b = cw b" and sz: "length xs < 2 ^ 64"
  shows "\<exists>b'. cb_read_until b c = Inr (takeWhile (\<lambda>x. x \<noteq> c) xs, b') \<and>
    cb_rel b' (drop (Suc (length (takeWhile (\<lambda>x. x \<noteq> c) xs))) xs) \<and>
    cr b' + length (drop (Suc (length (takeWhile (\<lambda>x. x \<noteq> c) xs))) xs) = cw b'"
proof -
  let ?t = "takeWhile (\<lambda>x. x \<noteq> c) xs"
  let ?k = "length ?t"
  have l: "cr b + length xs = cw b" "cw b \<le> length (cbytes b)" using r v by (auto simp: cb_rel_def)
  have "cbytes b ! (cr b + i) = Some (xs ! i)" if "i < length xs" for i
  proof -
    have "ring_pos b i = cr b + i" using r l that by (auto simp: ring_pos_def cb_rel_def)
    with r that show ?thesis by (auto simp: cb_rel_def)
  qed
  from until_loop_spec [OF this l] have u: "until_loop c (cw b) (cbytes b) (cr b) (of_nat (csize b)) [] =
      Inr (cr b + ?k, of_nat (csize b) - of_nat ?k, ?t)" by simp
  have k: "?k \<le> length xs" by (rule length_takeWhile_le)
  have d: "of_nat (csize b) - of_nat ?k = (of_nat (length xs - ?k) :: 64 word)"
    using r k by (simp add: cb_rel_def of_nat_diff)
  have un: "unat (of_nat (length xs - ?k) :: 64 word) = length xs - ?k"
    using sz by (simp add: unsigned_of_nat take_bit_nat_eq_self)
  have ncw: "\<not> cw b < cr b" using v by auto
  show ?thesis
  proof (cases "?k < length xs")
    case True
    then have pos: "0 < (of_nat (length xs - ?k) :: 64 word)" using un by (simp add: word_gt_0 unat_eq_0 [symmetric])
    then have "unat (of_nat (length xs - ?k) - 1 :: 64 word) = length xs - ?k - 1"
      using un by (simp add: unat_minus_one word_gt_0)
    then have "cb_read_until b c = Inr (?t, b\<lparr>cr := cr b + ?k + 1, csize := csize b - Suc ?k\<rparr>)"
      using u d pos ncw r by (simp add: cb_read_until_def cb_rel_def)
    moreover have "cb_rel (b\<lparr>cr := cr b + ?k + 1, csize := csize b - Suc ?k\<rparr>) (drop (Suc ?k) xs)"
      using True l r by (intro cb_rel_drop) (auto simp: cb_rel_def)
    ultimately show ?thesis using True l by simp
  next
    case False
    then have e: "?k = length xs" using k by simp
    then have "cb_read_until b c = Inr (?t, b\<lparr>cr := cr b + ?k, csize := csize b - ?k\<rparr>)"
      using u d ncw r by (simp add: cb_read_until_def cb_rel_def)
    moreover have "cb_rel (b\<lparr>cr := cr b + ?k, csize := csize b - ?k\<rparr>) (drop ?k xs)"
      using e l r by (intro cb_rel_drop) (auto simp: cb_rel_def)
    ultimately show ?thesis using e l by simp
  qed
qed

text \<open>The end of \<open>readUntil\<close>, after \<open>n\<close> bytes were taken and the position is \<open>p\<close>.\<close>

lemma read_until_finish:
  assumes "n \<le> m" and "m < 2 ^ 64"
  shows "(if 0 < (of_nat m - of_nat n :: 64 word) then Inr (s, b\<lparr>cr := p + 1, csize := unat (of_nat m - of_nat n - 1 :: 64 word)\<rparr>)
      else Inr (s, b\<lparr>cr := p, csize := unat (of_nat m - of_nat n :: 64 word)\<rparr>)) =
    (Inr (s, b\<lparr>cr := p + (if n < m then 1 else 0), csize := m - n - (if n < m then 1 else 0)\<rparr>) :: (byte list \<times> cbuf) result)"
proof -
  have d: "of_nat m - of_nat n = (of_nat (m - n) :: 64 word)" using assms(1) by (simp add: of_nat_diff)
  have u: "unat (of_nat (m - n) :: 64 word) = m - n" using assms(2) by (simp add: unsigned_of_nat take_bit_nat_eq_self)
  show ?thesis
  proof (cases "n < m")
    case True
    then have nz: "(of_nat (m - n) :: 64 word) \<noteq> 0" using u by (metis unsigned_0 zero_less_diff less_irrefl)
    then have "unat (of_nat (m - n) - 1 :: 64 word) = m - n - 1" using u unat_minus_one [OF nz] by (simp only:)
    with nz show ?thesis using True unfolding d by (simp add: word_gt_0 del: of_nat_diff)
  next
    case False
    with assms(1) show ?thesis by simp
  qed
qed

lemma cb_read_until_wrapped_rel:
  assumes r: "cb_rel b xs" and w: "cw b < cr b" and sz: "length xs < 2 ^ 64" and k: "k = capacity b - cr b"
  shows "\<exists>b'. cb_read_until b c = Inr (takeWhile (\<lambda>x. x \<noteq> c) (take k xs) @ takeWhile (\<lambda>x. x \<noteq> c) (drop k xs), b') \<and>
    (c \<notin> set (take k xs) \<longrightarrow> cb_rel b' (drop (Suc (length (takeWhile (\<lambda>x. x \<noteq> c) xs))) xs))"
proof -
  let ?P = "\<lambda>x. x \<noteq> c"
  let ?t1 = "takeWhile ?P (take k xs)" and ?t2 = "takeWhile ?P (drop k xs)"
  note l = cb_rel_wrapped [OF r w]
  have kl: "k \<le> length xs" "length xs - k = cw b" "cr b + k = capacity b" using l k by linarith+
  have len: "length (cbytes b) = capacity b" "csize b = length xs" "cw b \<le> capacity b" using r by (auto simp: cb_rel_def)
  have "cbytes b ! (cr b + i) = Some (take k xs ! i)" if "i < length (take k xs)" for i
  proof -
    have "ring_pos b i = cr b + i" using that kl by (simp add: ring_pos_def)
    with r that show ?thesis by (auto simp: cb_rel_def)
  qed
  from until_loop_spec [OF this, of "capacity b" c "of_nat (length xs)" "[]"] kl len
  have u1: "until_loop c (capacity b) (cbytes b) (cr b) (of_nat (length xs)) [] =
      Inr (cr b + length ?t1, of_nat (length xs) - of_nat (length ?t1), ?t1)" by simp
  have "cbytes b ! (0 + i) = Some (drop k xs ! i)" if "i < length (drop k xs)" for i
  proof -
    have "ring_pos b (k + i) = i" using kl by (simp add: ring_pos_def add.assoc [symmetric])
    moreover have "cbytes b ! ring_pos b (k + i) = Some (xs ! (k + i))" using r that by (simp add: cb_rel_def)
    ultimately show ?thesis using kl by simp
  qed
  from until_loop_spec [OF this, of "cw b" c "of_nat (length xs) - of_nat (length ?t1)" ?t1] kl len
  have u2: "until_loop c (cw b) (cbytes b) 0 (of_nat (length xs) - of_nat (length ?t1)) ?t1 =
      Inr (length ?t2, of_nat (length xs) - of_nat (length ?t1 + length ?t2), ?t1 @ ?t2)" by (simp add: algebra_simps)
  have "length ?t1 \<le> length (take k xs)" "length ?t2 \<le> length (drop k xs)" by (rule length_takeWhile_le)+
  then have n: "length ?t1 + length ?t2 \<le> length xs" using kl by simp
  let ?e = "if length ?t1 + length ?t2 < length xs then 1 else (0 :: nat)"
  let ?b = "b\<lparr>cr := length ?t2 + ?e, csize := length xs - (length ?t1 + length ?t2) - ?e\<rparr>"
  have e: "cb_read_until b c = Inr (?t1 @ ?t2, ?b)"
    unfolding cb_read_until_def len(2) if_P [OF w] u1 rbind_Inr prod.case u2 by (rule read_until_finish [OF n sz])
  have "cb_rel ?b (drop (Suc (length (takeWhile ?P xs))) xs)" if c: "c \<notin> set (take k xs)"
  proof -
    have "takeWhile ?P xs = takeWhile ?P (take k xs @ drop k xs)" by simp
    also have "\<dots> = take k xs @ ?t2" using c by (intro takeWhile_append2) auto
    finally have tw: "takeWhile ?P xs = take k xs @ ?t2" .
    have t1: "length ?t1 = k" using c kl by (subst takeWhile_eq_all_conv [THEN iffD2]) auto
    show ?thesis
    proof (cases "k + length ?t2 < length xs")
      case True
      have "cb_rel (b\<lparr>cr := length ?t2 + 1, csize := csize b - (k + length ?t2 + 1)\<rparr>) (drop (k + length ?t2 + 1) xs)"
        using True kl len by (intro cb_rel_drop [OF r]) auto
      with True kl tw t1 len show ?thesis by simp
    next
      case False
      then have "length ?t2 = cw b" "k + length ?t2 = length xs" using n t1 kl by auto
      with tw t1 kl len show ?thesis by (simp add: cb_rel_def)
    qed
  qed
  with e show ?thesis by blast
qed

section \<open>Handing the contents to the system\<close>

text \<open>What is left after a call that takes the bytes of one piece only, or all of the second.\<close>

lemma cb_reset_rel: "cb_rel b xs \<Longrightarrow> cb_rel (cb_reset b) []"
  by (simp add: cb_rel_def cb_reset_def)

lemma cb_write_to_fd_linear:
  assumes r: "cb_rel b xs" and lin: "cr b + length xs \<le> capacity b" and ret: "0 < r1" "nat r1 \<le> length xs"
  shows "\<exists>b'. cb_write_to_fd b r1 r2 = Inr (r1, map Some (take (nat r1) xs), b') \<and> cb_rel b' (drop (nat r1) xs) \<and>
    capacity b' = capacity b"
proof -
  have g: "get_bytes (cbytes b) (cr b) (csize b) = Inr (map Some xs)"
    using ring_slice_one [OF r order_refl lin] r by (simp add: cb_rel_def)
  show ?thesis
  proof (cases "nat r1 < length xs")
    case True
    moreover have "cb_rel (b\<lparr>cr := cr b + nat r1, csize := csize b - nat r1\<rparr>) (drop (nat r1) xs)"
      using r True lin by (intro cb_rel_drop) auto
    ultimately show ?thesis using g r lin ret by (simp add: cb_write_to_fd_def cb_rel_def take_map)
  next
    case False
    with ret have e: "nat r1 = length xs" "r1 = int (length xs)" by simp_all
    have "cb_write_to_fd b r1 r2 = Inr (r1, map Some xs, cb_reset b)"
      using g r lin ret e by (simp add: cb_write_to_fd_def cb_rel_def)
    with e cb_reset_rel [OF r] show ?thesis by (simp add: cb_reset_def)
  qed
qed

lemma cb_write_to_fd_wrapped:
  assumes r: "cb_rel b xs" and wrap: "capacity b < cr b + length xs" and k: "k = capacity b - cr b"
    and ret: "0 < r1" "nat r1 < k \<or> nat r1 = k \<and> 0 < r2 \<and> nat r2 = length xs - k"
  shows "\<exists>b' n. cb_write_to_fd b r1 r2 = Inr (int n, map Some (take n xs), b') \<and>
    n = (if nat r1 < k then nat r1 else length xs) \<and> cb_rel b' (drop n xs) \<and> capacity b' = capacity b"
proof -
  note g = ring_slice_two [OF r order_refl, of, folded k]
  have w: "capacity b \<le> cr b + length xs" "cr b \<le> capacity b" using wrap r by (auto simp: cb_rel_def)
  show ?thesis
  proof (cases "nat r1 < k")
    case True
    then have "cb_write_to_fd b r1 r2 = Inr (r1, map Some (take (nat r1) xs), b\<lparr>cr := cr b + nat r1, csize := csize b - nat r1\<rparr>)"
      using g(1) [OF w(1)] r wrap ret(1) by (simp add: cb_write_to_fd_def cb_rel_def Let_def k [symmetric] take_map min_def)
    moreover have "cb_rel (b\<lparr>cr := cr b + nat r1, csize := csize b - nat r1\<rparr>) (drop (nat r1) xs)"
      using r True k w wrap by (intro cb_rel_drop) auto
    ultimately show ?thesis using True ret(1) by simp
  next
    case False
    with ret(2) have e: "nat r1 = k" "0 < r2" "nat r2 = length xs - k" by auto
    have "cb_write_to_fd b r1 r2 = Inr (int (length xs), map Some (take k xs) @ map Some (drop k xs), cb_reset b)"
      using g(1) [OF w(1)] g(2) [OF w(1)] r wrap ret(1) e by (simp add: cb_write_to_fd_def cb_rel_def Let_def k [symmetric])
    then have "cb_write_to_fd b r1 r2 = Inr (int (length xs), map Some xs, cb_reset b)"
      by (simp flip: map_append)
    with cb_reset_rel [OF r] False show ?thesis by (simp add: cb_reset_def)
  qed
qed

section \<open>Programs of calls\<close>

text \<open>A resize multiplies the capacity by a factor of at least 1; \<open>Op_Resize k\<close> is one that adds \<open>k\<close> bytes.\<close>

datatype cb_op =
    Op_Write "byte list"
  | Op_Read nat
  | Op_Peek nat
  | Op_Resize nat
  | Op_Reset
  | Op_Space

fun run_cb :: "cb_op \<Rightarrow> cbuf \<Rightarrow> (byte option list \<times> nat \<times> cbuf) result" where
  "run_cb (Op_Write ys) b = rbind (cb_write b (map Some ys)) (\<lambda>(n, b). Inr ([], n, b))"
| "run_cb (Op_Read n) b = rbind (cb_read b n) (\<lambda>(d, b). Inr (d, length d, b))"
| "run_cb (Op_Peek n) b = rbind (cb_peek b n) (\<lambda>d. Inr (d, length d, b))"
| "run_cb (Op_Resize k) b = rbind (cb_resize b True (capacity b + k)) (\<lambda>b. Inr ([], capacity b, b))"
| "run_cb Op_Reset b = Inr ([], 0, cb_reset b)"
| "run_cb Op_Space b = Inr ([], cb_remaining_space b, b)"

fun spec_cb :: "cb_op \<Rightarrow> nat \<times> byte list \<Rightarrow> (byte option list \<times> nat \<times> nat \<times> byte list) result" where
  "spec_cb (Op_Write ys) (n, q) = (if length q + length ys \<le> n then Inr ([], length ys, n, q @ ys) else Inl Assert_Failed)"
| "spec_cb (Op_Read k) (n, q) = (if k \<le> length q then Inr (map Some (take k q), k, n, drop k q) else Inl Assert_Failed)"
| "spec_cb (Op_Peek k) (n, q) = Inr (map Some (take k q), min k (length q), n, q)"
| "spec_cb (Op_Resize k) (n, q) = Inr ([], n + k, n + k, q)"
| "spec_cb Op_Reset (n, q) = Inr ([], 0, n, [])"
| "spec_cb Op_Space (n, q) = Inr ([], n - length q, n, q)"

fun run_cbs :: "cb_op list \<Rightarrow> cbuf \<Rightarrow> (byte option list \<times> nat) list result" where
  "run_cbs [] b = Inr []"
| "run_cbs (p # ps) b = rbind (run_cb p b) (\<lambda>(d, n, b). rbind (run_cbs ps b) (\<lambda>out. Inr ((d, n) # out)))"

fun spec_cbs :: "cb_op list \<Rightarrow> nat \<times> byte list \<Rightarrow> (byte option list \<times> nat) list result" where
  "spec_cbs [] q = Inr []"
| "spec_cbs (p # ps) q = rbind (spec_cb p q) (\<lambda>(d, n, q). rbind (spec_cbs ps q) (\<lambda>out. Inr ((d, n) # out)))"

lemma run_cb_spec:
  assumes r: "cb_rel b q"
  shows "case spec_cb p (capacity b, q) of Inl e \<Rightarrow> run_cb p b = Inl e
    | Inr (d, n, c, q') \<Rightarrow> \<exists>b'. run_cb p b = Inr (d, n, b') \<and> cb_rel b' q' \<and> capacity b' = c"
proof (cases p)
  case (Op_Write ys)
  show ?thesis
  proof (cases "length q + length ys \<le> capacity b")
    case True
    with cb_write_rel [OF r True] Op_Write show ?thesis by auto
  next
    case False
    with r Op_Write show ?thesis by (auto simp: cb_write_def cb_remaining_space_def cb_rel_def Let_def)
  qed
next
  case (Op_Read k)
  show ?thesis
  proof (cases "k \<le> length q")
    case True
    with cb_read_rel [OF r True] Op_Read show ?thesis by auto
  next
    case False
    with r Op_Read show ?thesis by (simp add: cb_read_def cb_rel_def)
  qed
next
  case (Op_Peek k)
  with cb_peek_rel [OF r] r show ?thesis by (simp add: min.commute)
next
  case (Op_Resize k)
  have "length q \<le> capacity b + k" using cb_rel_bounds [OF r] by simp
  with cb_resize_rel [OF r this] Op_Resize show ?thesis by auto
next
  case Op_Reset
  with cb_reset_rel [OF r] show ?thesis by (simp add: cb_reset_def)
next
  case Op_Space
  with r show ?thesis by (simp add: cb_remaining_space_def cb_rel_def)
qed

lemma run_cbs_spec: "cb_rel b q \<Longrightarrow> run_cbs ps b = spec_cbs ps (capacity b, q)"
proof (induction ps arbitrary: b q)
  case (Cons p ps)
  show ?case
  proof (cases "spec_cb p (capacity b, q)")
    case (Inl e)
    with run_cb_spec [OF Cons.prems, of p] show ?thesis by simp
  next
    case (Inr x)
    obtain d n c q' where x: "x = (d, n, c, q')" by (cases x)
    then obtain b' where "run_cb p b = Inr (d, n, b')" "cb_rel b' q'" "capacity b' = c"
      using run_cb_spec [OF Cons.prems, of p] Inr by auto
    with Cons.IH [of b' q'] Inr x show ?thesis by simp
  qed
qed simp

lemma cb_create_rel: "cb_rel (cb_create n) []"
  by (simp add: cb_rel_def cb_create_def)

section \<open>Properties\<close>

text \<open>C16: The ring behaves as a bounded queue of bytes: any program of writes, reads, peeks, resizes and resets
  returns what it returns on a list, and stops (\<open>abort\<close>) at the same call if a write finds no room or a read too few
  bytes.\<close>
theorem cb_refines_queue: "run_cbs ps (cb_create n) = spec_cbs ps (n, [])"
  using run_cbs_spec [OF cb_create_rel, of ps n] by (simp add: cb_create_def)





end
