(* ===== verification/Cpp_Peer.thy ===== *)
theory Cpp_Peer
  imports Cpp_Files Circular_Buffer
begin

text \<open>
  The requests of the C++ tracker (\<open>tracker_cpp/Peer.cpp\<close>). A handler returns the state it leaves and the text of the
  exception it throws, if it throws one: what was done before stays done. \<open>written\<close> are the messages
  that were handed to \<open>ClientSocket::write\<close>.
\<close>

section \<open>Answers\<close>

type_synonym outcome = "(cpp_state \<times> string option) result"

definition peer_write :: "cpp_state \<Rightarrow> addr \<Rightarrow> string \<Rightarrow> cpp_state result" where
  "peer_write st p msg = rbind (load_xpeer st p) (\<lambda>y. Inr (store_xpeer st p (y\<lparr>written := written y @ [msg]\<rparr>)))"

definition newline :: string where
  "newline = [CHR 0x0A]"

definition send_ok :: "cpp_state \<Rightarrow> addr \<Rightarrow> cpp_state result" where
  "send_ok st p = peer_write st p (''ok'' @ newline)"

definition send_error_notice :: "cpp_state \<Rightarrow> addr \<Rightarrow> string \<Rightarrow> cpp_state result" where
  "send_error_notice st p notice = peer_write st p (''error: '' @ notice @ newline)"

definition throw :: "cpp_state \<Rightarrow> string \<Rightarrow> outcome" where
  "throw st e = Inr (st, Some e)"

definition return_ok :: "cpp_state result \<Rightarrow> outcome" where
  "return_ok r = rbind r (\<lambda>st. Inr (st, None))"

text \<open>What follows a statement that may throw.\<close>

definition unless_thrown :: "outcome \<Rightarrow> (cpp_state \<Rightarrow> outcome) \<Rightarrow> outcome" where
  "unless_thrown r f = rbind r (\<lambda>(st, e). case e of None \<Rightarrow> f st | Some _ \<Rightarrow> Inr (st, e))"

section \<open>Announce and update\<close>

definition words_of :: "string \<Rightarrow> string list" where
  "words_of s = filter (\<lambda>t. t \<noteq> []) (split_string s (CHR '' ''))"

text \<open>The loop over groups of four; a number that cannot be read drops the group.\<close>

fun seed_loop :: "cpp_state \<Rightarrow> addr \<Rightarrow> string list \<Rightarrow> cpp_state result" where
  "seed_loop st p (a # b # c # d # v) =
     (case (stoul b, stoul c) of
        (Some n, Some piece) \<Rightarrow>
          rbind (get_file st a n piece d) (\<lambda>(f, st).
          rbind (load_xpeer st p) (\<lambda>y. rbind (load_xfile st f) (\<lambda>x.
          rbind (add_peer (store_xpeer st p (y\<lparr>seed_map := file_map_insert (seed_map y) x f\<rparr>)) f p) (\<lambda>st.
            seed_loop st p v))))
      | _ \<Rightarrow> seed_loop st p v)"
| "seed_loop st p _ = Inr st"

definition parse_announce_seed :: "cpp_state \<Rightarrow> addr \<Rightarrow> string \<Rightarrow> outcome" where
  "parse_announce_seed st p seed =
     rbind (load_xpeer st p) (\<lambda>y.
       let st = store_xpeer st p (y\<lparr>seed_map := Map.empty\<rparr>); v = words_of seed
       in if length v mod 4 \<noteq> 0 then throw st ''invalid seed argument count'' else return_ok (seed_loop st p v))"

fun cpp_leech_loop :: "cpp_state \<Rightarrow> addr \<Rightarrow> string list \<Rightarrow> cpp_state result" where
  "cpp_leech_loop st p [] = Inr st"
| "cpp_leech_loop st p (key # v) =
     (case file_map_get (mgr_map st) key of
        None \<Rightarrow> cpp_leech_loop st p v
      | Some f \<Rightarrow>
          rbind (load_xpeer st p) (\<lambda>y. rbind (load_xfile st f) (\<lambda>x.
          rbind (add_peer (store_xpeer st p (y\<lparr>leech_map := file_map_insert (leech_map y) x f\<rparr>)) f p) (\<lambda>st.
            cpp_leech_loop st p v))))"

definition parse_announce_leech :: "cpp_state \<Rightarrow> addr \<Rightarrow> string \<Rightarrow> outcome" where
  "parse_announce_leech st p leech =
     rbind (load_xpeer st p) (\<lambda>y.
       return_ok (cpp_leech_loop (store_xpeer st p (y\<lparr>leech_map := Map.empty\<rparr>)) p (words_of leech)))"

definition set_listen :: "cpp_state \<Rightarrow> addr \<Rightarrow> string \<Rightarrow> outcome" where
  "set_listen st p argument =
     (case stoi argument of
        None \<Rightarrow> throw st ''invalid listening port''
      | Some port \<Rightarrow>
          if port \<le> 0 \<or> 65535 < port then throw st ''invalid listening port''
          else rbind (load_xpeer st p) (\<lambda>y. Inr (store_xpeer st p (y\<lparr>listen_port := word_of_int port\<rparr>), None)))"

text \<open>The text between the next brackets.\<close>

definition bracketed :: "sstream \<Rightarrow> string \<Rightarrow> string \<Rightarrow> string \<times> string \<times> sstream" where
  "bracketed line garbage argument =
     (let (garbage, line) = read_line line (CHR ''['') garbage;
          (argument, line) = read_line line (CHR '']'') argument
      in (garbage, argument, line))"

text \<open>
  The loops over the parts of a request: \<open>k\<close> parts are to come; the strings keep their values where the stream has no
  more. The flags are \<open>listen\<close>, \<open>seed\<close> and \<open>leech\<close>.
\<close>

primrec announce_loop ::
  "nat \<Rightarrow> addr \<Rightarrow> string \<Rightarrow> string \<Rightarrow> string \<Rightarrow> sstream \<Rightarrow> bool \<Rightarrow> bool \<Rightarrow> bool \<Rightarrow> cpp_state \<Rightarrow> outcome" where
  "announce_loop 0 p keyword argument garbage line listen seed leech st =
     (if \<not> listen \<or> \<not> seed \<or> \<not> leech then throw st ''invalid request''
      else rbind (load_xpeer st p) (\<lambda>y. return_ok (send_ok (store_xpeer st p (y\<lparr>announced := True\<rparr>)) p)))"
| "announce_loop (Suc k) p keyword argument garbage line listen seed leech st =
     (let (keyword, line) = read_word line keyword
      in if keyword = ''listen''
         then let (argument, line) = read_word line argument
              in unless_thrown (set_listen st p argument) (announce_loop k p keyword argument garbage line True seed leech)
         else if keyword = ''seed''
         then let (garbage, argument, line) = bracketed line garbage argument
              in unless_thrown (parse_announce_seed st p argument) (announce_loop k p keyword argument garbage line listen True leech)
         else if keyword = ''leech''
         then let (garbage, argument, line) = bracketed line garbage argument
              in unless_thrown (parse_announce_leech st p argument) (announce_loop k p keyword argument garbage line listen seed True)
         else throw st (''unexpected token '' @ [CHR 0x27] @ keyword @ [CHR 0x27]))"

definition handle_announce :: "cpp_state \<Rightarrow> addr \<Rightarrow> sstream \<Rightarrow> outcome" where
  "handle_announce st p line =
     rbind (load_xpeer st p) (\<lambda>y.
       if announced y then throw st ''already announced''
       else announce_loop 3 p [] [] [] line False False False st)"

text \<open>In an update both parts are parsed as leech lists.\<close>

primrec update_loop ::
  "nat \<Rightarrow> addr \<Rightarrow> string \<Rightarrow> string \<Rightarrow> string \<Rightarrow> sstream \<Rightarrow> bool \<Rightarrow> bool \<Rightarrow> cpp_state \<Rightarrow> outcome" where
  "update_loop 0 p keyword argument garbage line seed leech st =
     (if \<not> seed \<or> \<not> leech then throw st ''invalid request'' else return_ok (send_ok st p))"
| "update_loop (Suc k) p keyword argument garbage line seed leech st =
     (let (keyword, line) = read_word line keyword
      in if keyword = ''seed''
         then let (garbage, argument, line) = bracketed line garbage argument
              in unless_thrown (parse_announce_leech st p argument) (update_loop k p keyword argument garbage line True leech)
         else if keyword = ''leech''
         then let (garbage, argument, line) = bracketed line garbage argument
              in unless_thrown (parse_announce_leech st p argument) (update_loop k p keyword argument garbage line seed True)
         else throw st (''unexpected token '' @ [CHR 0x27] @ keyword @ [CHR 0x27]))"

definition handle_update :: "cpp_state \<Rightarrow> addr \<Rightarrow> sstream \<Rightarrow> outcome" where
  "handle_update st p line =
     rbind (load_xpeer st p) (\<lambda>y.
       if \<not> announced y then throw st ''not announced.'' else update_loop 2 p [] [] [] line False False st)"

section \<open>Look and getfile\<close>

fun file_list_parts :: "cpp_state \<Rightarrow> addr list \<Rightarrow> string list result" where
  "file_list_parts st [] = Inr []"
| "file_list_parts st (f # fs) =
     rbind (load_xfile st f) (\<lambda>x. rbind (file_list_parts st fs) (\<lambda>r. Inr (file_to_string x # r)))"

text \<open>The loops put a blank before every entry but the first.\<close>

definition spaced :: "string list \<Rightarrow> string" where
  "spaced xs = concat (map (\<lambda>i. (if i \<noteq> 0 then '' '' else '''') @ xs ! i) [0..<length xs])"

definition file_list_string :: "cpp_state \<Rightarrow> addr list \<Rightarrow> string result" where
  "file_list_string st s = rbind (file_list_parts st s) (\<lambda>ps. Inr (''list ['' @ spaced ps @ '']'' @ newline))"

fun look_loop :: "cpp_state \<Rightarrow> string list \<Rightarrow> addr list \<Rightarrow> (string + addr list) result" where
  "look_loop st [] s = Inr (Inr s)"
| "look_loop st (c # v) s =
     rbind (parse_criterion st c s) (\<lambda>r. case r of Inl e \<Rightarrow> Inr (Inl e) | Inr s \<Rightarrow> look_loop st v s)"

definition parse_look :: "cpp_state \<Rightarrow> addr \<Rightarrow> string \<Rightarrow> outcome" where
  "parse_look st p look =
     rbind (look_loop st (split_string look (CHR '' '')) (mgr_set st)) (\<lambda>r.
       case r of
         Inl e \<Rightarrow> throw st e
       | Inr s \<Rightarrow> rbind (file_list_string st s) (\<lambda>msg. return_ok (peer_write st p msg)))"

definition handle_look :: "cpp_state \<Rightarrow> addr \<Rightarrow> sstream \<Rightarrow> outcome" where
  "handle_look st p line =
     rbind (load_xpeer st p) (\<lambda>y.
       if \<not> announced y then throw st ''not announced.''
       else let (_, argument, _) = bracketed line [] [] in parse_look st p argument)"

definition peer_to_string :: "cpp_peer \<Rightarrow> string" where
  "peer_to_string y = inet_ntop (remote_ip y) @ '':'' @ dec (unat (listen_port y))"

fun peer_list_parts :: "cpp_state \<Rightarrow> addr \<Rightarrow> addr list \<Rightarrow> string list result" where
  "peer_list_parts st p [] = Inr []"
| "peer_list_parts st p (q # qs) =
     (if q = p then peer_list_parts st p qs
      else rbind (load_xpeer st q) (\<lambda>y. rbind (peer_list_parts st p qs) (\<lambda>r. Inr (peer_to_string y # r))))"

definition peer_list_string :: "cpp_state \<Rightarrow> addr \<Rightarrow> addr \<Rightarrow> string result" where
  "peer_list_string st p f =
     rbind (load_xfile st f) (\<lambda>x. rbind (peer_list_parts st p (fpeers x)) (\<lambda>ps.
       Inr (''peers '' @ fhash x @ '' ['' @ spaced ps @ '']'' @ newline)))"

text \<open>For an unknown key the answer is made with the hash of the null pointer.\<close>

definition handle_getfile :: "cpp_state \<Rightarrow> addr \<Rightarrow> sstream \<Rightarrow> outcome" where
  "handle_getfile st p line =
     rbind (load_xpeer st p) (\<lambda>y.
       if \<not> announced y then throw st ''not announced.''
       else let (key, _) = read_word line []
            in case file_map_get (mgr_map st) key of
                 Some f \<Rightarrow> rbind (peer_list_string st p f) (\<lambda>msg. return_ok (peer_write st p msg))
               | None \<Rightarrow> Inl Null_Deref)"

section \<open>Reading requests\<close>

datatype peer_handler = Handle_Announce | Handle_Update | Handle_Look | Handle_Getfile

definition init_handlers :: "string \<Rightarrow> peer_handler option" where
  "init_handlers = [''announce'' \<mapsto> Handle_Announce, ''update'' \<mapsto> Handle_Update, ''look'' \<mapsto> Handle_Look,
     ''getfile'' \<mapsto> Handle_Getfile]"

fun run_peer_handler :: "peer_handler \<Rightarrow> cpp_state \<Rightarrow> addr \<Rightarrow> sstream \<Rightarrow> outcome" where
  "run_peer_handler Handle_Announce = handle_announce"
| "run_peer_handler Handle_Update = handle_update"
| "run_peer_handler Handle_Look = handle_look"
| "run_peer_handler Handle_Getfile = handle_getfile"

definition max_seq_error_count :: nat where
  "max_seq_error_count = 5"

definition max_keyword_size :: nat where
  "max_keyword_size = 8"

text \<open>An error notice; the sixth error in a row ends the connection.\<close>

definition notice_error :: "cpp_state \<Rightarrow> addr \<Rightarrow> string \<Rightarrow> (bool \<times> cpp_state) result" where
  "notice_error st p e =
     rbind (send_error_notice st p e) (\<lambda>st. rbind (load_xpeer st p) (\<lambda>y.
       let n = seq_errors y + 1
       in Inr (\<not> max_seq_error_count < n, store_xpeer st p (y\<lparr>seq_errors := n\<rparr>))))"

text \<open>The body of the loop of \<open>readHandler\<close> for one line: whether the loop goes on, and the state.\<close>

definition handle_line :: "cpp_state \<Rightarrow> addr \<Rightarrow> string \<Rightarrow> (bool \<times> cpp_state) result" where
  "handle_line st p line =
     (let (keyword, ss) = read_word (sstream_of line) []
      in if keyword = [] then Inr (True, st)
         else case init_handlers keyword of
                None \<Rightarrow> notice_error st p (''unexpected keyword '' @ [CHR 0x27] @ keyword @ [CHR 0x27])
              | Some h \<Rightarrow>
                  rbind (run_peer_handler h st p ss) (\<lambda>(st, e).
                    case e of
                      Some msg \<Rightarrow> notice_error st p msg
                    | None \<Rightarrow> rbind (load_xpeer st p) (\<lambda>y. Inr (True, store_xpeer st p (y\<lparr>seq_errors := 0\<rparr>)))))"

definition chars_of :: "byte list \<Rightarrow> string" where
  "chars_of bs = map (\<lambda>w. char_of (unat w)) bs"

text \<open>
  \<open>readHandler\<close>, given the read buffer, with one unit of fuel for every line: the result says whether the connection
  stays. (The loop of the code has no bound of its own.)
\<close>

primrec read_handler :: "nat \<Rightarrow> cbuf \<Rightarrow> cpp_state \<Rightarrow> addr \<Rightarrow> (bool \<times> cbuf \<times> cpp_state) result" where
  "read_handler 0 b st p = Inl Diverges"
| "read_handler (Suc fuel) b st p =
     (if csize b = 0 then Inr (True, b, st)
      else rbind (cb_have_line b) (\<lambda>line_there.
        if \<not> line_there
        then rbind (cb_have_word b) (\<lambda>word_there.
               Inr (\<not> (\<not> word_there \<and> max_keyword_size < csize b), b, st))
        else rbind (cb_read_until b 0x0A) (\<lambda>(line, b).
             rbind (handle_line st p (chars_of line)) (\<lambda>(go, st).
               if go then read_handler fuel b st p else Inr (False, b, st)))))"

text \<open>The connection is closed: the object is deleted.\<close>

definition delete_peer :: "cpp_state \<Rightarrow> addr \<Rightarrow> cpp_state" where
  "delete_peer st p = st\<lparr>xpeers := (xpeers st)(p := None)\<rparr>"

section \<open>Reading is by lines\<close>

text \<open>The lines handled one after the other; the middle component counts those that were.\<close>

fun serve :: "cpp_state \<Rightarrow> addr \<Rightarrow> string list \<Rightarrow> (bool \<times> nat \<times> cpp_state) result" where
  "serve st p [] = Inr (True, 0, st)"
| "serve st p (l # ls) =
     rbind (handle_line st p l) (\<lambda>(go, st).
       if go then rbind (serve st p ls) (\<lambda>(go, n, st). Inr (go, Suc n, st)) else Inr (False, 1, st))"

definition lines_bytes :: "byte list list \<Rightarrow> byte list" where
  "lines_bytes ls = concat (map (\<lambda>l. l @ [0x0A]) ls)"

definition in_one_piece :: "cbuf \<Rightarrow> byte list \<Rightarrow> bool" where
  "in_one_piece b xs \<longleftrightarrow> cb_rel b xs \<and> cr b + length xs = cw b \<and> length xs < 2 ^ 64"

lemma in_one_piece_visible: "in_one_piece b xs \<Longrightarrow> cb_rel b xs \<and> cb_visible b xs \<and> (cr b < cw b \<or> xs = [] \<and> cr b = cw b)"
  by (cases xs) (auto simp: in_one_piece_def cb_visible_def)

lemma takeWhile_delim: "c \<notin> set l \<Longrightarrow> takeWhile (\<lambda>x. x \<noteq> c) (l @ c # xs) = l"
  by (induction l) auto

lemma in_one_piece_read:
  assumes "in_one_piece b (l @ c # xs)" and "c \<notin> set l"
  shows "\<exists>b'. cb_read_until b c = Inr (l, b') \<and> in_one_piece b' xs"
proof -
  note v = in_one_piece_visible [OF assms(1)]
  have "length (l @ c # xs) < 2 ^ 64" using assms(1) by (simp add: in_one_piece_def)
  from cb_read_until_linear [OF _ _ this, of b c] v assms show ?thesis
    by (auto simp: takeWhile_delim in_one_piece_def)
qed

lemma read_handler_tail:
  assumes "in_one_piece b ts" and "0x0A \<notin> set ts"
  shows "read_handler (Suc fuel) b st p = Inr (ts = [] \<or> 0x20 \<in> set ts \<or> length ts \<le> max_keyword_size, b, st)"
proof -
  note v = in_one_piece_visible [OF assms(1)]
  have "cb_have_line b = Inr False" "cb_have_word b = Inr (0x20 \<in> set ts)"
    using cb_contains_rel [of b ts] v assms(2) by (simp_all add: cb_have_line_def cb_have_word_def)
  moreover have "csize b = length ts" using v by (simp add: cb_rel_def)
  ultimately show ?thesis by auto
qed

lemma read_handler_line:
  assumes "in_one_piece b (l @ 0x0A # xs)" and "0x0A \<notin> set l"
  shows "\<exists>b'. in_one_piece b' xs \<and> read_handler (Suc fuel) b st p =
    rbind (handle_line st p (chars_of l)) (\<lambda>(go, st). if go then read_handler fuel b' st p else Inr (False, b', st))"
proof -
  note v = in_one_piece_visible [OF assms(1)]
  obtain b' where b': "cb_read_until b 0x0A = Inr (l, b')" "in_one_piece b' xs"
    using in_one_piece_read [OF assms] by blast
  have "cb_have_line b = Inr True" using cb_contains_rel [of b "l @ 0x0A # xs"] v by (simp add: cb_have_line_def)
  moreover have "csize b \<noteq> 0" using v by (auto simp: cb_rel_def)
  ultimately show ?thesis using b' by (intro exI [of _ b']) simp
qed

section \<open>Property\<close>

text \<open>When the bytes read lie in one piece in the buffer, \<open>readHandler\<close> handles the whole lines among them one after the
  other and leaves the rest in the buffer; it stops behind the first line that ends the connection. Otherwise the
  connection stays unless the rest is longer than a keyword can be and has no blank. One unit of fuel for each line and
  one more is enough.\<close>
lemma read_handler_lines:
  assumes "in_one_piece b (lines_bytes ls @ ts)" and "\<forall>l \<in> set ls. 0x0A \<notin> set l" and "0x0A \<notin> set ts"
    and "length ls < fuel"
  shows "case serve st p (map chars_of ls) of
      Inl e \<Rightarrow> read_handler fuel b st p = Inl e
    | Inr (go, n, st') \<Rightarrow> \<exists>b'. in_one_piece b' (lines_bytes (drop n ls) @ ts) \<and> read_handler fuel b st p =
        Inr (go \<and> (ts = [] \<or> 0x20 \<in> set ts \<or> length ts \<le> max_keyword_size), b', st')"
  using assms
proof (induction ls arbitrary: b st fuel)
  case Nil
  then obtain f where "fuel = Suc f" by (cases fuel) auto
  with Nil read_handler_tail [of b ts f st p] show ?case by (auto simp: lines_bytes_def)
next
  case (Cons l ls)
  obtain f where f: "fuel = Suc f" "length ls < f" using Cons.prems(4) by (cases fuel) auto
  have "in_one_piece b (l @ 0x0A # (lines_bytes ls @ ts))" using Cons.prems(1) by (simp add: lines_bytes_def)
  from read_handler_line [OF this, of f st p] Cons.prems(2) obtain b' where b': "in_one_piece b' (lines_bytes ls @ ts)"
    "read_handler fuel b st p =
      rbind (handle_line st p (chars_of l)) (\<lambda>(go, st). if go then read_handler f b' st p else Inr (False, b', st))"
    using f(1) by auto
  show ?case
  proof (cases "handle_line st p (chars_of l)")
    case (Inl e)
    with b' show ?thesis by simp
  next
    case (Inr x)
    obtain go st1 where x: "x = (go, st1)" by (cases x)
    show ?thesis
    proof (cases go)
      case True
      with Cons.IH [OF b'(1) _ Cons.prems(3) f(2), of st1] Cons.prems(2) b'(2) Inr x show ?thesis
        by (cases "serve st1 p (map chars_of ls)") auto
    next
      case False
      with b' Inr x show ?thesis by auto
    qed
  qed
qed

lemma read_handler_lines_example:
  "\<exists>b' st'. read_handler 2 \<lparr>capacity = 8, csize = 4, cr = 1, cw = 5, cbytes = [None, Some 0x78, Some 0x0A, Some 0x61, Some 0x6E, None, None, None]\<rparr>
     (cpp_state.make (\<lambda>_. None) [0 \<mapsto> cpp_peer.make 1 2 True Map.empty Map.empty 5 []] 0 Map.empty []) 0 = Inr (False, b', st') \<and>
     in_one_piece b' [0x61, 0x6E] \<and>
     map_option written (xpeers st' 0) = Some [''error: unexpected keyword '' @ [CHR 0x27, CHR ''x'', CHR 0x27, CHR 0x0A]]"
proof -
  let ?b = "\<lparr>capacity = 8, csize = 4, cr = 1, cw = 5, cbytes = [None, Some 0x78, Some 0x0A, Some 0x61, Some 0x6E, None, None, None]\<rparr>"
  let ?st = "cpp_state.make (\<lambda>_. None) [0 \<mapsto> cpp_peer.make 1 2 True Map.empty Map.empty 5 []] 0 Map.empty []"
  have b: "in_one_piece ?b (lines_bytes [[0x78]] @ [0x61, 0x6E])"
  proof -
    have "cb_rel ?b [0x78, 0x0A, 0x61, 0x6E]" by (auto simp: cb_rel_def ring_pos_def less_Suc_eq numeral_nat)
    then show ?thesis by (simp add: in_one_piece_def lines_bytes_def)
  qed
  have c: "map chars_of [[0x78]] = [''x'']" by (simp add: chars_of_def char_of_def bit_0 bit_Suc)
  have s: "case serve ?st 0 [''x''] of Inl e \<Rightarrow> False | Inr (go, n, st') \<Rightarrow> \<not> go \<and> n = 1 \<and>
      map_option written (xpeers st' 0) = Some [''error: unexpected keyword '' @ [CHR 0x27, CHR ''x'', CHR 0x27, CHR 0x0A]]"
    by code_simp
  show ?thesis
    using read_handler_lines [OF b, of 2 ?st 0, unfolded c] s by (auto simp: lines_bytes_def split: sum.splits)
qed

end
