(* ===== verification/Cpp_Safe.thy ===== *)
theory Cpp_Safe
  imports Cpp_Peer
begin

text \<open>
  The invariant of the C++ tracker's objects, and that every request keeps it: the handlers of \<open>Peer.cpp\<close> fault on a
  \<open>getfile\<close> for an unknown key and on nothing else, as long as no listed peer was deleted.
\<close>

section \<open>Invariant\<close>

definition cpp_inv :: "cpp_state \<Rightarrow> bool" where
  "cpp_inv st \<longleftrightarrow>
     (\<forall>key f. mgr_map st key = Some f \<longrightarrow> (\<exists>x. xfiles st f = Some x \<and> fhash x = key)) \<and>
     ran (mgr_map st) \<subseteq> set (mgr_set st) \<and> (\<forall>f \<in> set (mgr_set st). xfiles st f \<noteq> None) \<and> sorted (mgr_set st) \<and> distinct (mgr_set st) \<and>
     (\<forall>f \<ge> xnext st. xfiles st f = None) \<and>
     (\<forall>f x. xfiles st f = Some x \<longrightarrow> sorted (fpeers x) \<and> distinct (fpeers x) \<and> (\<forall>q \<in> set (fpeers x). xpeers st q \<noteq> None))"

text \<open>What a request of peer \<open>p\<close> leaves as it was: all other peers, what it sent before, and the files but for new peers.\<close>

definition keeps :: "addr \<Rightarrow> cpp_state \<Rightarrow> cpp_state \<Rightarrow> bool" where
  "keeps p st st' \<longleftrightarrow> cpp_inv st' \<and> (\<forall>q. q \<noteq> p \<longrightarrow> xpeers st' q = xpeers st q) \<and>
     (\<exists>y y' w. xpeers st p = Some y \<and> xpeers st' p = Some y' \<and> remote_ip y' = remote_ip y \<and> written y' = written y @ w) \<and>
     (\<forall>f x. xfiles st f = Some x \<longrightarrow> (\<exists>ps. xfiles st' f = Some (x\<lparr>fpeers := ps\<rparr>) \<and> set (fpeers x) \<subseteq> set ps)) \<and>
     (\<forall>key f. mgr_map st key = Some f \<longrightarrow> mgr_map st' key = Some f) \<and> set (mgr_set st) \<subseteq> set (mgr_set st')"

lemma keeps_refl: "cpp_inv st \<Longrightarrow> xpeers st p \<noteq> None \<Longrightarrow> keeps p st st"
  by (auto simp: keeps_def intro!: exI [of _ "fpeers _"])

lemma keeps_trans:
  assumes "keeps p st st1" and "keeps p st1 st2"
  shows "keeps p st st2"
proof -
  have "\<exists>ps. xfiles st2 f = Some (x\<lparr>fpeers := ps\<rparr>) \<and> set (fpeers x) \<subseteq> set ps" if x: "xfiles st f = Some x" for f x
  proof -
    obtain ps where ps: "xfiles st1 f = Some (x\<lparr>fpeers := ps\<rparr>)" "set (fpeers x) \<subseteq> set ps"
      using assms(1) x unfolding keeps_def by blast
    then obtain qs where "xfiles st2 f = Some (x\<lparr>fpeers := ps\<rparr>\<lparr>fpeers := qs\<rparr>)" "set ps \<subseteq> set qs"
      using assms(2) unfolding keeps_def by force
    with ps(2) show ?thesis by auto
  qed
  with assms show ?thesis unfolding keeps_def by (auto simp: append_assoc)
qed

lemma set_insert_simps: "set (set_insert x xs) = insert x (set xs)"
  "sorted xs \<Longrightarrow> sorted (set_insert x xs)" "distinct xs \<Longrightarrow> distinct (set_insert x xs)"
  by (auto simp: set_insert_def set_insort_key sorted_insort distinct_insort)

lemma keeps_peer:
  assumes "cpp_inv st" and "xpeers st p = Some y" and "remote_ip y' = remote_ip y" and "written y' = written y @ w"
  shows "keeps p st (store_xpeer st p y')"
proof -
  have "cpp_inv (store_xpeer st p y')"
    using assms(1) unfolding cpp_inv_def store_xpeer_def by simp
  then show ?thesis
    using assms(2-4) unfolding keeps_def store_xpeer_def
    by (auto intro!: exI [of _ "fpeers _"])
qed

lemma add_peer_keeps:
  assumes i: "cpp_inv st" and p: "xpeers st p \<noteq> None" and f: "xfiles st f = Some x"
  shows "\<exists>st'. add_peer st f p = Inr st' \<and> keeps p st st' \<and> xpeers st' = xpeers st \<and>
    xfiles st' f = Some (x\<lparr>fpeers := set_insert p (fpeers x)\<rparr>)"
proof -
  let ?x = "x\<lparr>fpeers := set_insert p (fpeers x)\<rparr>"
  have e: "add_peer st f p = Inr (store_xfile st f ?x)" using f by (simp add: add_peer_def load_xfile_def)
  have "sorted (fpeers x)" "distinct (fpeers x)" "\<forall>q \<in> set (fpeers x). xpeers st q \<noteq> None" "f < xnext st"
    using i f unfolding cpp_inv_def by (blast, blast, blast, force simp: linorder_not_less [symmetric])
  moreover have "\<forall>key. mgr_map st key = Some f \<longrightarrow> fhash x = key" using i f unfolding cpp_inv_def by fastforce
  ultimately have "cpp_inv (store_xfile st f ?x)"
    using i p f unfolding cpp_inv_def store_xfile_def by (auto simp: set_insert_simps)
  moreover have "\<exists>ps. xfiles (store_xfile st f ?x) g = Some (z\<lparr>fpeers := ps\<rparr>) \<and> set (fpeers z) \<subseteq> set ps"
    if "xfiles st g = Some z" for g z
    using that f by (intro exI [of _ "if g = f then set_insert p (fpeers x) else fpeers z"])
      (auto simp: store_xfile_def set_insert_simps)
  ultimately have "keeps p st (store_xfile st f ?x)"
    using p unfolding keeps_def by (auto simp: store_xfile_def)
  with e show ?thesis by (simp add: store_xfile_def)
qed

lemma inv_map: "cpp_inv st \<Longrightarrow> mgr_map st key = Some f \<Longrightarrow> \<exists>x. xfiles st f = Some x \<and> fhash x = key"
  unfolding cpp_inv_def by blast

lemma inv_fresh: "cpp_inv st \<Longrightarrow> xfiles st f = Some x \<Longrightarrow> f < xnext st"
  unfolding cpp_inv_def by (metis linorder_not_less option.distinct(1))

text \<open>\<open>getFile\<close> finds a file of equal attributes or makes one.\<close>

lemma get_file_keeps:
  assumes i: "cpp_inv st" and p: "xpeers st p \<noteq> None"
  shows "\<exists>f st' x. get_file st name n piece key = Inr (f, st') \<and> keeps p st st' \<and> xpeers st' = xpeers st \<and>
    xfiles st' f = Some x \<and> fhash x = key \<and> fsize x = n \<and> fpiece x = piece \<and> mgr_map st' key \<noteq> None \<and>
    (mgr_map st key = None \<longrightarrow> mgr_map st' key = Some f \<and> fname x = name) \<and> f \<in> set (mgr_set st')"
proof -
  let ?f = "xnext st" and ?x = "new_file name n piece key"
  let ?st1 = "(store_xfile st ?f ?x)\<lparr>xnext := ?f + 1\<rparr>"
  let ?st2 = "?st1\<lparr>mgr_set := set_insert ?f (mgr_set st), mgr_map := file_map_insert (mgr_map st) ?x ?f\<rparr>"
  have k: "mgr_insert ?st1 ?f = Inr ?st2"
    by (simp add: mgr_insert_def load_xfile_def store_xfile_def)
  have fr: "xfiles st ?f = None" using i unfolding cpp_inv_def by blast
  have "cpp_inv ?st2"
    unfolding cpp_inv_def
  proof (intro conjI allI impI ballI)
    have "ran (mgr_map st) \<subseteq> set (mgr_set st)" using i unfolding cpp_inv_def by blast
    then show "ran (mgr_map ?st2) \<subseteq> set (mgr_set ?st2)"
      by (auto simp: file_map_insert_def set_insert_simps ran_def split: if_splits)
  next
    fix key' f assume "mgr_map ?st2 key' = Some f"
    then have "f = ?f \<and> key' = key \<or> mgr_map st key' = Some f \<and> f \<noteq> ?f"
      using inv_map [OF i, of key' f] fr by (auto simp: file_map_insert_def new_file_def split: if_splits)
    then show "\<exists>x. xfiles ?st2 f = Some x \<and> fhash x = key'"
      using inv_map [OF i, of key' f] by (auto simp: store_xfile_def new_file_def)
  next
    fix f x assume "xfiles ?st2 f = Some x"
    then have "f = ?f \<and> x = ?x \<or> xfiles st f = Some x" by (auto simp: store_xfile_def split: if_splits)
    then show "sorted (fpeers x)" "distinct (fpeers x)"
      using i unfolding cpp_inv_def by (auto simp: new_file_def)
  next
    fix f x q assume "xfiles ?st2 f = Some x" and q: "q \<in> set (fpeers x)"
    then have "f = ?f \<and> x = ?x \<or> xfiles st f = Some x" by (auto simp: store_xfile_def split: if_splits)
    then show "xpeers ?st2 q \<noteq> None"
      using i q unfolding cpp_inv_def store_xfile_def by (auto simp: new_file_def)
  qed (use i in \<open>auto simp: cpp_inv_def store_xfile_def set_insert_simps\<close>)
  then have kp: "keeps p st ?st2"
    using p fr by (auto simp: keeps_def store_xfile_def file_map_insert_def set_insert_simps intro!: exI [of _ "fpeers _"])
  have props: "xfiles ?st2 ?f = Some ?x" "fhash ?x = key" "fsize ?x = n" "fpiece ?x = piece" "fname ?x = name"
    "mgr_map ?st2 key \<noteq> None" "mgr_map st key = None \<longrightarrow> mgr_map ?st2 key = Some ?f \<and> fname ?x = name" "?f \<in> set (mgr_set ?st2)"
    "xpeers ?st2 = xpeers st"
    by (auto simp: store_xfile_def new_file_def file_map_insert_def set_insert_simps)
  show ?thesis
  proof (cases "mgr_map st key")
    case None
    then have "get_file st name n piece key = Inr (?f, ?st2)" using k by (simp add: get_file_def Let_def)
    then show ?thesis using kp props by (intro exI conjI) assumption+
  next
    case (Some g)
    obtain y where y: "xfiles st g = Some y" "fhash y = key" using inv_map [OF i Some] by blast
    show ?thesis
    proof (cases "file_eq y ?x")
      case True
      then have "get_file st name n piece key = Inr (g, st)" using y Some by (simp add: get_file_def Let_def load_xfile_def)
      moreover have "fsize y = n" "fpiece y = piece" using True by (simp_all add: file_eq_def new_file_def)
      moreover have "g \<in> set (mgr_set st)" using ranI [of "mgr_map st" key g] Some i unfolding cpp_inv_def by auto
      ultimately show ?thesis using y Some keeps_refl [OF i p] by (intro exI [of _ g] exI [of _ st] exI [of _ y]) simp
    next
      case False
      then have "get_file st name n piece key = Inr (?f, ?st2)" using k y Some by (simp add: get_file_def Let_def load_xfile_def)
      then show ?thesis using kp props by (intro exI conjI) assumption+
    qed
  qed
qed

section \<open>The handlers keep it\<close>

lemma keepsD: "keeps p st st' \<Longrightarrow> cpp_inv st' \<and> xpeers st' p \<noteq> None"
  by (auto simp: keeps_def)

definition completes :: "addr \<Rightarrow> cpp_state \<Rightarrow> outcome \<Rightarrow> bool" where
  "completes p st r \<longleftrightarrow> (\<exists>st' e. r = Inr (st', e) \<and> keeps p st st')"

definition continues :: "addr \<Rightarrow> cpp_state \<Rightarrow> cpp_state result \<Rightarrow> bool" where
  "continues p st r \<longleftrightarrow> (\<exists>st'. r = Inr st' \<and> keeps p st st')"

lemma completes_trans: "keeps p st st1 \<Longrightarrow> completes p st1 r \<Longrightarrow> completes p st r"
  unfolding completes_def using keeps_trans by blast

lemma completes_unless_thrown:
  assumes "completes p st r" and "\<And>st'. keeps p st st' \<Longrightarrow> completes p st' (f st')"
  shows "completes p st (unless_thrown r f)"
proof -
  obtain st1 e where r: "r = Inr (st1, e)" "keeps p st st1" using assms(1) by (auto simp: completes_def)
  show ?thesis
  proof (cases e)
    case None
    with r completes_trans [OF r(2) assms(2) [OF r(2)]] show ?thesis by (simp add: unless_thrown_def)
  next
    case (Some m)
    with r show ?thesis by (simp add: unless_thrown_def completes_def)
  qed
qed

lemma completes_throw: "cpp_inv st \<Longrightarrow> xpeers st p \<noteq> None \<Longrightarrow> completes p st (throw st e)"
  by (simp add: completes_def throw_def keeps_refl)

lemma completes_return: "continues p st r \<Longrightarrow> completes p st (return_ok r)"
  by (auto simp: completes_def continues_def return_ok_def)

lemma continues_trans: "keeps p st st1 \<Longrightarrow> continues p st1 r \<Longrightarrow> continues p st r"
  unfolding continues_def using keeps_trans by blast

lemma peer_write_continues: "cpp_inv st \<Longrightarrow> xpeers st p \<noteq> None \<Longrightarrow> continues p st (peer_write st p msg)"
  using keeps_peer [of st p] by (fastforce simp: continues_def peer_write_def load_xpeer_def)

lemma continues_refl: "cpp_inv st \<Longrightarrow> xpeers st p \<noteq> None \<Longrightarrow> continues p st (Inr st)"
  by (simp add: continues_def keeps_refl)

text \<open>One file entered in a map of the peer, and the peer in the file.\<close>

lemma enter_file:
  assumes k: "cpp_inv st" "xpeers st p = Some y" and f: "xfiles st f = Some x"
    and y': "remote_ip y' = remote_ip y" "written y' = written y"
  shows "\<exists>st'. add_peer (store_xpeer st p y') f p = Inr st' \<and> keeps p st st' \<and> xpeers st' p = Some y' \<and>
    xfiles st' f = Some (x\<lparr>fpeers := set_insert p (fpeers x)\<rparr>) \<and> mgr_map st' = mgr_map st"
proof -
  let ?st = "store_xpeer st p y'"
  have 1: "keeps p st ?st" using keeps_peer [OF k y'(1), of "[]"] y'(2) by simp
  have f1: "xfiles ?st f = Some x" "xpeers ?st p = Some y'" using f by (simp_all add: store_xpeer_def)
  obtain st' where "add_peer ?st f p = Inr st'" "keeps p ?st st'" "xpeers st' = xpeers ?st"
    "xfiles st' f = Some (x\<lparr>fpeers := set_insert p (fpeers x)\<rparr>)"
    using add_peer_keeps [of ?st p f x] keepsD [OF 1] f1 by blast
  moreover from this(1) f1(1) have "mgr_map st' = mgr_map st"
    by (auto simp: add_peer_def load_xfile_def store_xfile_def store_xpeer_def)
  ultimately show ?thesis using keeps_trans [OF 1] f1(2) by auto
qed

lemma seed_loop_cases:
  "(\<exists>a b c d w. v = a # b # c # d # w) \<or> (\<forall>st. seed_loop st p v = Inr st)"
  by (cases "(undefined :: cpp_state, p, v)" rule: seed_loop.cases) auto

lemma seed_loop_step:
  assumes k: "cpp_inv st" "xpeers st p \<noteq> None" and np: "stoul b = Some n" "stoul c = Some piece"
  shows "\<exists>f st1 st' x. get_file st a n piece d = Inr (f, st1) \<and> keeps p st st' \<and> xfiles st' f = Some x \<and>
    p \<in> set (fpeers x) \<and> fhash x = d \<and> fsize x = n \<and> fpiece x = piece \<and> f \<in> set (mgr_set st') \<and>
    (\<exists>m. xpeers st' p = Some (the (xpeers st p)\<lparr>seed_map := m\<rparr>)) \<and>
    seed_loop st p (a # b # c # d # v) = seed_loop st' p v"
proof -
  obtain f st1 x where g: "get_file st a n piece d = Inr (f, st1)" "keeps p st st1" "xpeers st1 = xpeers st"
    "xfiles st1 f = Some x" "fhash x = d" "fsize x = n" "fpiece x = piece" "f \<in> set (mgr_set st1)"
    using get_file_keeps [OF k, of a n piece d] by blast
  obtain y where y: "xpeers st p = Some y" using k(2) by blast
  let ?y = "y\<lparr>seed_map := file_map_insert (seed_map y) x f\<rparr>"
  have "cpp_inv st1" "xpeers st1 p = Some y" using keepsD [OF g(2)] g(3) y by simp_all
  then obtain st2 where s: "add_peer (store_xpeer st1 p ?y) f p = Inr st2" "keeps p st1 st2" "xpeers st2 p = Some ?y"
    "xfiles st2 f = Some (x\<lparr>fpeers := set_insert p (fpeers x)\<rparr>)"
    using enter_file [of st1 p y f x ?y] g(4) by auto
  have "seed_loop st p (a # b # c # d # v) = seed_loop st2 p v"
    using np g(1,3,4) s(1) y by (simp add: load_xpeer_def load_xfile_def)
  moreover have "f \<in> set (mgr_set st2)" using g(8) s(2) unfolding keeps_def by blast
  ultimately show ?thesis using g s y keeps_trans [OF g(2) s(2)]
    by (intro exI [of _ f] exI [of _ st1] exI [of _ st2] exI [of _ "x\<lparr>fpeers := set_insert p (fpeers x)\<rparr>"])
      (auto simp: set_insert_simps)
qed

lemma seed_loop_continues: "cpp_inv st \<Longrightarrow> xpeers st p \<noteq> None \<Longrightarrow> continues p st (seed_loop st p v)"
proof (induction "length v" arbitrary: v st rule: less_induct)
  case less
  consider a b c d w where "v = a # b # c # d # w" | "seed_loop st p v = Inr st"
    using seed_loop_cases [of v p] by blast
  then show ?case
  proof cases
    case (1 a b c d w)
    show ?thesis
    proof (cases "\<exists>n piece. stoul b = Some n \<and> stoul c = Some piece")
      case True
      then obtain n piece where np: "stoul b = Some n" "stoul c = Some piece" by blast
      obtain st' where st': "keeps p st st'" "seed_loop st p (a # b # c # d # w) = seed_loop st' p w"
        using seed_loop_step [OF less(2,3) np, of a d w] by blast
      have "continues p st' (seed_loop st' p w)" using less(1) [of w st'] keepsD [OF st'(1)] 1 by simp
      with continues_trans [OF st'(1)] st'(2) 1 show ?thesis by simp
    next
      case False
      then have "seed_loop st p v = seed_loop st p w" unfolding 1 by (auto split: option.splits)
      with less(1) [of w st] less(2,3) 1 show ?thesis by simp
    qed
  next
    case 2
    with less(2,3) show ?thesis by (simp add: continues_refl)
  qed
qed

lemma cpp_leech_loop_continues: "cpp_inv st \<Longrightarrow> xpeers st p \<noteq> None \<Longrightarrow> continues p st (cpp_leech_loop st p v)"
proof (induction v arbitrary: st)
  case Nil
  then show ?case by (simp add: continues_refl)
next
  case (Cons key v)
  show ?case
  proof (cases "mgr_map st key")
    case None
    with Cons show ?thesis by (simp add: file_map_get_def)
  next
    case (Some f)
    obtain x where x: "xfiles st f = Some x" using inv_map [OF Cons.prems(1) Some] by blast
    obtain y where y: "xpeers st p = Some y" using Cons.prems(2) by blast
    let ?y = "y\<lparr>leech_map := file_map_insert (leech_map y) x f\<rparr>"
    obtain st2 where s: "add_peer (store_xpeer st p ?y) f p = Inr st2" "keeps p st st2"
      using enter_file [OF Cons.prems(1) y x, of ?y] by auto
    have "cpp_leech_loop st p (key # v) = cpp_leech_loop st2 p v"
      using Some x y s(1) by (simp add: load_xpeer_def load_xfile_def file_map_get_def)
    with continues_trans [OF s(2) Cons.IH] keepsD [OF s(2)] show ?thesis by simp
  qed
qed

lemma store_peer_keeps:
  "cpp_inv st \<Longrightarrow> xpeers st p = Some y \<Longrightarrow> remote_ip y' = remote_ip y \<Longrightarrow> written y' = written y \<Longrightarrow>
    keeps p st (store_xpeer st p y')"
  using keeps_peer [of st p y y' "[]"] by simp

lemma parse_announce_seed_completes:
  assumes "cpp_inv st" and "xpeers st p \<noteq> None"
  shows "completes p st (parse_announce_seed st p seed)"
proof -
  obtain y where y: "xpeers st p = Some y" using assms(2) by blast
  let ?st = "store_xpeer st p (y\<lparr>seed_map := Map.empty\<rparr>)"
  have k: "keeps p st ?st" by (rule store_peer_keeps [OF assms(1) y]) simp_all
  note i = keepsD [OF k]
  have "completes p ?st (throw ?st e)" "completes p ?st (return_ok (seed_loop ?st p v))" for e v
    using i completes_throw completes_return [OF seed_loop_continues] by blast+
  then show ?thesis using completes_trans [OF k] y by (simp add: parse_announce_seed_def load_xpeer_def Let_def)
qed

lemma parse_announce_leech_completes:
  assumes "cpp_inv st" and "xpeers st p \<noteq> None"
  shows "completes p st (parse_announce_leech st p leech)"
proof -
  obtain y where y: "xpeers st p = Some y" using assms(2) by blast
  let ?st = "store_xpeer st p (y\<lparr>leech_map := Map.empty\<rparr>)"
  have k: "keeps p st ?st" by (rule store_peer_keeps [OF assms(1) y]) simp_all
  have "completes p ?st (return_ok (cpp_leech_loop ?st p v))" for v
    using keepsD [OF k] completes_return [OF cpp_leech_loop_continues] by blast
  then show ?thesis using completes_trans [OF k] y by (simp add: parse_announce_leech_def load_xpeer_def)
qed

lemma set_listen_completes:
  assumes "cpp_inv st" and "xpeers st p \<noteq> None"
  shows "completes p st (set_listen st p argument)"
proof -
  obtain y where y: "xpeers st p = Some y" using assms(2) by blast
  have "keeps p st (store_xpeer st p (y\<lparr>listen_port := w\<rparr>))" for w
    by (rule store_peer_keeps [OF assms(1) y]) simp_all
  then show ?thesis
    using completes_throw [OF assms] y by (auto simp: set_listen_def load_xpeer_def completes_def split: option.splits)
qed

lemma announce_loop_completes:
  "cpp_inv st \<Longrightarrow> xpeers st p \<noteq> None \<Longrightarrow>
    completes p st (announce_loop k p keyword argument garbage line listen seed leech st)"
proof (induction k arbitrary: st keyword argument garbage line listen seed leech)
  case 0
  obtain y where y: "xpeers st p = Some y" using 0(2) by blast
  have k: "keeps p st (store_xpeer st p (y\<lparr>announced := True\<rparr>))"
    by (rule store_peer_keeps [OF 0(1) y]) simp_all
  have "continues p st (send_ok (store_xpeer st p (y\<lparr>announced := True\<rparr>)) p)"
    using continues_trans [OF k peer_write_continues] keepsD [OF k] unfolding send_ok_def by blast
  then show ?case using y completes_throw [OF 0] completes_return by (simp add: load_xpeer_def)
next
  case (Suc k)
  have step: "completes p st' (announce_loop k p kw a g l b1 b2 b3 st')" if "keeps p st st'" for st' kw a g l b1 b2 b3
    using Suc.IH keepsD [OF that] by blast
  show ?case
    unfolding announce_loop.simps Let_def case_prod_beta
    using completes_throw [OF Suc.prems] completes_unless_thrown [OF set_listen_completes [OF Suc.prems] step]
      completes_unless_thrown [OF parse_announce_seed_completes [OF Suc.prems] step]
      completes_unless_thrown [OF parse_announce_leech_completes [OF Suc.prems] step]
    by simp
qed

lemma update_loop_completes:
  "cpp_inv st \<Longrightarrow> xpeers st p \<noteq> None \<Longrightarrow> completes p st (update_loop k p keyword argument garbage line seed leech st)"
proof (induction k arbitrary: st keyword argument garbage line seed leech)
  case 0
  have "completes p st (return_ok (send_ok st p))"
    unfolding send_ok_def by (rule completes_return [OF peer_write_continues [OF 0]])
  then show ?case using completes_throw [OF 0] by simp
next
  case (Suc k)
  have step: "completes p st' (update_loop k p kw a g l b1 b2 st')" if "keeps p st st'" for st' kw a g l b1 b2
    using Suc.IH keepsD [OF that] by blast
  show ?case
    unfolding update_loop.simps Let_def case_prod_beta
    using completes_throw [OF Suc.prems] completes_unless_thrown [OF parse_announce_leech_completes [OF Suc.prems] step]
    by simp
qed

subsection \<open>Look\<close>

lemma select_files_total:
  "(\<forall>f \<in> set s. xfiles st f \<noteq> None) \<Longrightarrow>
    \<exists>r. select_files st pr a s = Inr r \<and> (\<forall>fs. r = Inr fs \<longrightarrow> set fs \<subseteq> set s)"
proof (induction s)
  case (Cons f s)
  obtain x where x: "xfiles st f = Some x" using Cons.prems by auto
  obtain r where r: "select_files st pr a s = Inr r" "\<forall>fs. r = Inr fs \<longrightarrow> set fs \<subseteq> set s"
    using Cons by auto
  show ?case
  proof (cases "pr x a")
    case None
    with x show ?thesis by (simp add: load_xfile_def)
  next
    case (Some b)
    with x r show ?thesis by (cases r) (auto simp: load_xfile_def set_insert_simps)
  qed
qed simp

lemma parse_criterion_total:
  "(\<forall>f \<in> set s. xfiles st f \<noteq> None) \<Longrightarrow>
    \<exists>r. parse_criterion st c s = Inr r \<and> (\<forall>fs. r = Inr fs \<longrightarrow> set fs \<subseteq> set s)"
  using select_files_total [of s st]
  by (auto simp: parse_criterion_def apply_criterion_def Let_def case_prod_beta split: option.splits)

lemma look_loop_total:
  "(\<forall>f \<in> set s. xfiles st f \<noteq> None) \<Longrightarrow>
    \<exists>r. look_loop st v s = Inr r \<and> (\<forall>fs. r = Inr fs \<longrightarrow> set fs \<subseteq> set s)"
proof (induction v arbitrary: s)
  case (Cons c v)
  obtain r where r: "parse_criterion st c s = Inr r" "\<forall>fs. r = Inr fs \<longrightarrow> set fs \<subseteq> set s"
    using parse_criterion_total [OF Cons.prems] by blast
  show ?case
  proof (cases r)
    case (Inl e)
    with r show ?thesis by simp
  next
    case (Inr s')
    with r have "set s' \<subseteq> set s" by simp
    moreover from this Cons.prems have "\<forall>f \<in> set s'. xfiles st f \<noteq> None" by blast
    then obtain q where "look_loop st v s' = Inr q" "\<forall>fs. q = Inr fs \<longrightarrow> set fs \<subseteq> set s'"
      using Cons.IH by blast
    ultimately show ?thesis using r Inr by auto
  qed
qed simp

lemma file_list_parts_total:
  "(\<forall>f \<in> set s. xfiles st f \<noteq> None) \<Longrightarrow> file_list_parts st s = Inr (map (\<lambda>f. file_to_string (the (xfiles st f))) s)"
  by (induction s) (auto simp: load_xfile_def)

lemma parse_look_completes:
  assumes k: "cpp_inv st" "xpeers st p \<noteq> None"
  shows "completes p st (parse_look st p look)"
proof -
  have a: "\<forall>f \<in> set (mgr_set st). xfiles st f \<noteq> None" using k(1) unfolding cpp_inv_def by blast
  obtain r where r: "look_loop st (split_string look (CHR '' '')) (mgr_set st) = Inr r"
    "\<forall>fs. r = Inr fs \<longrightarrow> set fs \<subseteq> set (mgr_set st)"
    using look_loop_total [OF a] by blast
  show ?thesis
  proof (cases r)
    case (Inl e)
    with r completes_throw [OF k] show ?thesis by (simp add: parse_look_def)
  next
    case (Inr s)
    with r a have "\<forall>f \<in> set s. xfiles st f \<noteq> None" by blast
    from file_list_parts_total [OF this] r Inr completes_return [OF peer_write_continues [OF k]] show ?thesis
      by (simp add: parse_look_def file_list_string_def)
  qed
qed

subsection \<open>Getfile\<close>

lemma peer_list_parts_total:
  "(\<forall>q \<in> set qs. xpeers st q \<noteq> None) \<Longrightarrow>
    peer_list_parts st p qs = Inr (map (\<lambda>q. peer_to_string (the (xpeers st q))) (filter (\<lambda>q. q \<noteq> p) qs))"
  by (induction qs) (auto simp: load_xpeer_def)

lemma handle_getfile_known:
  assumes k: "cpp_inv st" "xpeers st p = Some y" and a: "announced y" and key: "fst (read_word line []) = key"
    and f: "mgr_map st key = Some f" "xfiles st f = Some x"
  shows "handle_getfile st p line = return_ok (peer_write st p (''peers '' @ key @ '' ['' @
    spaced (map (\<lambda>q. peer_to_string (the (xpeers st q))) (filter (\<lambda>q. q \<noteq> p) (fpeers x))) @ '']'' @ newline))"
proof -
  have "\<forall>q \<in> set (fpeers x). xpeers st q \<noteq> None" using k(1) f(2) unfolding cpp_inv_def by blast
  moreover have "fhash x = key" using inv_map [OF k(1) f(1)] f(2) by auto
  ultimately show ?thesis
    using k(2) a key f
    by (simp add: handle_getfile_def peer_list_string_def load_xpeer_def load_xfile_def file_map_get_def
      case_prod_beta peer_list_parts_total)
qed

lemma handle_getfile_unknown:
  "xpeers st p = Some y \<Longrightarrow> announced y \<Longrightarrow> mgr_map st (fst (read_word line [])) = None \<Longrightarrow>
    handle_getfile st p line = Inl Null_Deref"
  by (simp add: handle_getfile_def load_xpeer_def file_map_get_def case_prod_beta)

section \<open>Requests\<close>

text \<open>A \<open>getfile\<close> of an announced peer for a key no file was announced with.\<close>

definition asks_unknown :: "cpp_state \<Rightarrow> addr \<Rightarrow> string \<Rightarrow> bool" where
  "asks_unknown st p l \<longleftrightarrow>
     (\<exists>y ss. xpeers st p = Some y \<and> announced y \<and> read_word (sstream_of l) [] = (''getfile'', ss) \<and>
       mgr_map st (fst (read_word ss [])) = None)"

lemma run_peer_handler_completes:
  assumes k: "cpp_inv st" "xpeers st p = Some y"
    and known: "h = Handle_Getfile \<Longrightarrow> announced y \<Longrightarrow> mgr_map st (fst (read_word ss [])) \<noteq> None"
  shows "completes p st (run_peer_handler h st p ss)"
proof -
  have k': "cpp_inv st" "xpeers st p \<noteq> None" using k by simp_all
  note t = completes_throw [OF k']
  show ?thesis
  proof (cases h)
    case Handle_Announce
    with t announce_loop_completes [OF k'] k(2) show ?thesis by (simp add: handle_announce_def load_xpeer_def)
  next
    case Handle_Update
    with t update_loop_completes [OF k'] k(2) show ?thesis by (simp add: handle_update_def load_xpeer_def)
  next
    case Handle_Look
    with t parse_look_completes [OF k'] k(2) show ?thesis by (simp add: handle_look_def load_xpeer_def case_prod_beta)
  next
    case Handle_Getfile
    show ?thesis
    proof (cases "announced y")
      case False
      with Handle_Getfile t k(2) show ?thesis by (simp add: handle_getfile_def load_xpeer_def)
    next
      case True
      obtain f where f: "mgr_map st (fst (read_word ss [])) = Some f" using known [OF Handle_Getfile True] by blast
      obtain x where x: "xfiles st f = Some x" using inv_map [OF k(1) f] by blast
      show ?thesis
        using Handle_Getfile handle_getfile_known [OF k True refl f x] completes_return [OF peer_write_continues [OF k']] by simp
    qed
  qed
qed

lemma notice_error_keeps:
  assumes "cpp_inv st" and "xpeers st p \<noteq> None"
  shows "\<exists>go st'. notice_error st p e = Inr (go, st') \<and> keeps p st st'"
proof -
  obtain st1 where s: "send_error_notice st p e = Inr st1" "keeps p st st1"
    using peer_write_continues [OF assms] unfolding continues_def send_error_notice_def by blast
  then obtain y where y: "xpeers st1 p = Some y" using keepsD by blast
  have "keeps p st1 (store_xpeer st1 p (y\<lparr>seq_errors := n\<rparr>))" for n
    using keepsD [OF s(2)] by (intro store_peer_keeps [OF _ y]) simp_all
  with keeps_trans [OF s(2)] s(1) y show ?thesis
    by (auto simp: notice_error_def load_xpeer_def Let_def)
qed

lemma handle_line_keeps:
  assumes k: "cpp_inv st" "xpeers st p = Some y" and ask: "\<not> asks_unknown st p l"
  shows "\<exists>go st'. handle_line st p l = Inr (go, st') \<and> keeps p st st'"
proof -
  obtain keyword ss where w: "read_word (sstream_of l) [] = (keyword, ss)" by fastforce
  have k': "cpp_inv st" "xpeers st p \<noteq> None" using k by simp_all
  show ?thesis
  proof (cases "keyword = []")
    case True
    with w keeps_refl [OF k'] show ?thesis by (auto simp: handle_line_def)
  next
    case False
    show ?thesis
    proof (cases "init_handlers keyword")
      case None
      with w False notice_error_keeps [OF k'] show ?thesis by (simp add: handle_line_def)
    next
      case (Some h)
      have "mgr_map st (fst (read_word ss [])) \<noteq> None" if "h = Handle_Getfile" "announced y"
      proof -
        have "keyword = ''getfile''" using Some that(1) by (auto simp: init_handlers_def split: if_splits)
        with w have "read_word (sstream_of l) [] = (''getfile'', ss)" by simp
        with ask that(2) k(2) show ?thesis by (auto simp: asks_unknown_def)
      qed
      from run_peer_handler_completes [OF k this]
      obtain st1 e where r: "run_peer_handler h st p ss = Inr (st1, e)" "keeps p st st1" unfolding completes_def by blast
      obtain y1 where y1: "xpeers st1 p = Some y1" using keepsD [OF r(2)] by blast
      show ?thesis
      proof (cases e)
        case None
        have "keeps p st1 (store_xpeer st1 p (y1\<lparr>seq_errors := 0\<rparr>))"
          using keepsD [OF r(2)] by (intro store_peer_keeps [OF _ y1]) simp_all
        with keeps_trans [OF r(2)] r(1) w False Some None y1 show ?thesis by (auto simp: handle_line_def load_xpeer_def)
      next
        case e: (Some m)
        obtain go st2 where "notice_error st1 p m = Inr (go, st2)" "keeps p st1 st2"
          using notice_error_keeps [of st1 p m] keepsD [OF r(2)] by blast
        with keeps_trans [OF r(2)] r(1) w False Some e show ?thesis by (simp add: handle_line_def)
      qed
    qed
  qed
qed

lemma handle_line_unknown: "asks_unknown st p l \<Longrightarrow> handle_line st p l = Inl Null_Deref"
  by (auto simp: asks_unknown_def handle_line_def init_handlers_def handle_getfile_unknown)

section \<open>Runs of the tracker\<close>

definition cpp_init :: cpp_state where
  "cpp_init = \<lparr>xfiles = Map.empty, xpeers = Map.empty, xnext = 0, mgr_map = Map.empty, mgr_set = []\<rparr>"

text \<open>\<open>new Peer(accepted, _eventManager)\<close>\<close>

definition new_peer :: "32 word \<Rightarrow> cpp_peer" where
  "new_peer ip = \<lparr>remote_ip = ip, listen_port = 0, announced = False, leech_map = Map.empty, seed_map = Map.empty,
     seq_errors = 0, written = []\<rparr>"

text \<open>Connections are made, lines arrive, and connections are closed by peers no file lists.\<close>

inductive cpp_reach :: "cpp_state \<Rightarrow> bool" where
  start: "cpp_reach cpp_init"
| connect: "cpp_reach st \<Longrightarrow> xpeers st p = None \<Longrightarrow> cpp_reach (store_xpeer st p (new_peer ip))"
| request: "cpp_reach st \<Longrightarrow> xpeers st p \<noteq> None \<Longrightarrow> handle_line st p l = Inr (go, st') \<Longrightarrow> cpp_reach st'"
| close: "cpp_reach st \<Longrightarrow> \<forall>f x. xfiles st f = Some x \<longrightarrow> p \<notin> set (fpeers x) \<Longrightarrow> cpp_reach (delete_peer st p)"

lemma cpp_reach_inv: "cpp_reach st \<Longrightarrow> cpp_inv st"
proof (induction rule: cpp_reach.induct)
  case start
  show ?case by (simp add: cpp_inv_def cpp_init_def)
next
  case (connect st p ip)
  then show ?case unfolding cpp_inv_def store_xpeer_def by simp
next
  case (request st p l go st')
  then obtain y where y: "xpeers st p = Some y" by blast
  have "\<not> asks_unknown st p l" using request(3) handle_line_unknown [of st p l] by auto
  from handle_line_keeps [OF request.IH y this] request(3) show ?case using keepsD by auto
next
  case (close st p)
  then show ?case unfolding cpp_inv_def delete_peer_def by auto
qed

lemma peer_list_parts_deleted:
  "q \<in> set qs \<Longrightarrow> q \<noteq> p \<Longrightarrow> (\<forall>r \<in> set qs. xpeers st r \<noteq> None) \<Longrightarrow>
    peer_list_parts (delete_peer st q) p qs = Inl Use_After_Free"
  by (induction qs) (auto simp: delete_peer_def load_xpeer_def)

section \<open>Announcing\<close>

definition lists :: "cpp_state \<Rightarrow> addr \<Rightarrow> addr \<Rightarrow> bool" where
  "lists st f p \<longleftrightarrow> (\<exists>x. xfiles st f = Some x \<and> p \<in> set (fpeers x))"

lemma lists_mono: "keeps p st st' \<Longrightarrow> lists st f q \<Longrightarrow> lists st' f q"
  unfolding keeps_def lists_def by (metis (no_types, lifting) cpp_file.select_convs(5) cpp_file.surjective
      cpp_file.update_convs(5) subsetD)

text \<open>A file of the manager with the given attributes that lists the peer.\<close>

definition seeds :: "cpp_state \<Rightarrow> addr \<Rightarrow> 64 word \<Rightarrow> 64 word \<Rightarrow> string \<Rightarrow> bool" where
  "seeds st p n piece key \<longleftrightarrow>
     (\<exists>f x. f \<in> set (mgr_set st) \<and> xfiles st f = Some x \<and> fsize x = n \<and> fpiece x = piece \<and> fhash x = key \<and> p \<in> set (fpeers x))"

lemma seeds_mono: "keeps p st st' \<Longrightarrow> seeds st q n piece key \<Longrightarrow> seeds st' q n piece key"
proof -
  assume k: "keeps p st st'" and "seeds st q n piece key"
  then obtain f x where x: "f \<in> set (mgr_set st)" "xfiles st f = Some x" "fsize x = n" "fpiece x = piece" "fhash x = key"
    "q \<in> set (fpeers x)" unfolding seeds_def by blast
  obtain ps where "xfiles st' f = Some (x\<lparr>fpeers := ps\<rparr>)" "set (fpeers x) \<subseteq> set ps"
    using k x(2) unfolding keeps_def by blast
  moreover have "f \<in> set (mgr_set st')" using k x(1) unfolding keeps_def by blast
  ultimately show ?thesis
    unfolding seeds_def using x by (intro exI [of _ f] exI [of _ "x\<lparr>fpeers := ps\<rparr>"]) auto
qed

fun groups_of_four :: "string list \<Rightarrow> (string \<times> string \<times> string \<times> string) list" where
  "groups_of_four (a # b # c # d # v) = (a, b, c, d) # groups_of_four v"
| "groups_of_four v = []"

lemma groups_short: "\<forall>st. seed_loop st p v = Inr st \<Longrightarrow> \<nexists>a b c d w. v = a # b # c # d # w \<Longrightarrow> groups_of_four v = []"
  by (cases v rule: groups_of_four.cases) auto

lemma seed_loop_spec:
  "cpp_inv st \<Longrightarrow> xpeers st p = Some y \<Longrightarrow>
    \<exists>st' m. seed_loop st p v = Inr st' \<and> keeps p st st' \<and> xpeers st' p = Some (y\<lparr>seed_map := m\<rparr>) \<and>
      (\<forall>(a, b, c, d) \<in> set (groups_of_four v). \<forall>n piece. stoul b = Some n \<longrightarrow> stoul c = Some piece \<longrightarrow> seeds st' p n piece d)"
proof (induction "length v" arbitrary: v st y rule: less_induct)
  case less
  have p: "xpeers st p \<noteq> None" using less(3) by simp
  show ?case
  proof (cases "\<exists>a b c d w. v = a # b # c # d # w")
    case False
    then have "seed_loop st p v = Inr st" "groups_of_four v = []"
      using seed_loop_cases [of v p] groups_short [of p v] by blast+
    with less(3) keeps_refl [OF less(2) p] show ?thesis
      by (intro exI [of _ st] exI [of _ "seed_map y"]) simp
  next
    case True
    then obtain a b c d w where v: "v = a # b # c # d # w" by blast
    have len: "length w < length v" by (simp add: v)
    show ?thesis
    proof (cases "\<exists>n piece. stoul b = Some n \<and> stoul c = Some piece")
      case False
      then have e: "seed_loop st p v = seed_loop st p w" unfolding v by (auto split: option.splits)
      from less(1) [OF len less(2,3)] False show ?thesis unfolding e by (auto simp: v)
    next
      case True
      then obtain n piece where np: "stoul b = Some n" "stoul c = Some piece" by blast
      obtain f st1 x m where s: "keeps p st st1" "xfiles st1 f = Some x" "p \<in> set (fpeers x)" "fhash x = d" "fsize x = n"
        "fpiece x = piece" "f \<in> set (mgr_set st1)" "xpeers st1 p = Some (y\<lparr>seed_map := m\<rparr>)"
        "seed_loop st p v = seed_loop st1 p w"
        using seed_loop_step [OF less(2) p np, of a d w] less(3) unfolding v by auto
      have sd: "seeds st1 p n piece d" unfolding seeds_def using s by blast
      obtain st' m' where r: "seed_loop st1 p w = Inr st'" "keeps p st1 st'" "xpeers st' p = Some (y\<lparr>seed_map := m'\<rparr>)"
        "\<forall>(a, b, c, d) \<in> set (groups_of_four w). \<forall>n piece. stoul b = Some n \<longrightarrow> stoul c = Some piece \<longrightarrow> seeds st' p n piece d"
        using less(1) [OF len _ s(8)] keepsD [OF s(1)] by auto
      with seeds_mono [OF r(2) sd] keeps_trans [OF s(1) r(2)] np s(9) show ?thesis
        by (intro exI [of _ st'] exI [of _ m']) (auto simp: v)
    qed
  qed
qed

lemma cpp_leech_loop_spec:
  "cpp_inv st \<Longrightarrow> xpeers st p = Some y \<Longrightarrow>
    \<exists>st' m. cpp_leech_loop st p v = Inr st' \<and> keeps p st st' \<and> xpeers st' p = Some (y\<lparr>leech_map := m\<rparr>) \<and>
      mgr_map st' = mgr_map st \<and> (\<forall>key \<in> set v. \<forall>f. mgr_map st key = Some f \<longrightarrow> lists st' f p)"
proof (induction v arbitrary: st y)
  case Nil
  then show ?case by (intro exI [of _ st] exI [of _ "leech_map y"]) (simp add: keeps_refl)
next
  case (Cons key v)
  show ?case
  proof (cases "mgr_map st key")
    case None
    with Cons.IH [OF Cons.prems] show ?thesis by (auto simp: file_map_get_def)
  next
    case (Some f)
    obtain x where x: "xfiles st f = Some x" using inv_map [OF Cons.prems(1) Some] by blast
    let ?y = "y\<lparr>leech_map := file_map_insert (leech_map y) x f\<rparr>"
    obtain st2 where s: "add_peer (store_xpeer st p ?y) f p = Inr st2" "keeps p st st2" "xpeers st2 p = Some ?y"
      "xfiles st2 f = Some (x\<lparr>fpeers := set_insert p (fpeers x)\<rparr>)" "mgr_map st2 = mgr_map st"
      using enter_file [OF Cons.prems x, of ?y] by auto
    have e: "cpp_leech_loop st p (key # v) = cpp_leech_loop st2 p v"
      using Some x Cons.prems(2) s(1) by (simp add: load_xpeer_def load_xfile_def file_map_get_def)
    have l: "lists st2 f p" using s(4) by (simp add: lists_def set_insert_simps)
    have "cpp_inv st2" using keepsD [OF s(2)] by blast
    from Cons.IH [OF this s(3)] obtain st' m where r: "cpp_leech_loop st2 p v = Inr st'" "keeps p st2 st'"
      "xpeers st' p = Some (?y\<lparr>leech_map := m\<rparr>)" "mgr_map st' = mgr_map st2"
      "\<forall>key \<in> set v. \<forall>f. mgr_map st2 key = Some f \<longrightarrow> lists st' f p" by blast
    with lists_mono [OF r(2) l] keeps_trans [OF s(2) r(2)] e s(5) Some show ?thesis
      by (intro exI [of _ st'] exI [of _ m]) auto
  qed
qed

definition announce_line :: "nat \<Rightarrow> string \<Rightarrow> string \<Rightarrow> string" where
  "announce_line port s t = ''announce listen '' @ dec port @ '' seed ['' @ s @ ''] leech ['' @ t @ '']''"

lemma digits_no_space: "\<forall>c \<in> set (dec n). \<not> c_isspace c"
  using dec_digits [of n] by (auto simp: c_isdigit_def c_isspace_def)

lemma bracketed_next:
  assumes "CHR '']'' \<notin> set s"
  shows "bracketed \<lparr>rest = '' ['' @ s @ CHR '']'' # r, eofbit = False, failbit = False\<rparr> g a =
    ('' '', s, \<lparr>rest = r, eofbit = False, failbit = False\<rparr>)"
proof -
  have "read_line \<lparr>rest = '' ['' @ s @ CHR '']'' # r, eofbit = False, failbit = False\<rparr> (CHR ''['') g =
      ('' '', \<lparr>rest = s @ CHR '']'' # r, eofbit = False, failbit = False\<rparr>)"
    using read_line_delim [of "CHR ''[''" "'' ''" "s @ CHR '']'' # r" g] by simp
  with read_line_delim [OF assms, of r a] show ?thesis by (simp add: bracketed_def)
qed

lemma next_word:
  assumes "w \<noteq> []" and "\<forall>c \<in> set w. \<not> c_isspace c"
  shows "read_word \<lparr>rest = CHR '' '' # w @ CHR '' '' # r, eofbit = False, failbit = False\<rparr> v =
    (w, \<lparr>rest = CHR '' '' # r, eofbit = False, failbit = False\<rparr>)"
proof -
  have "\<forall>c \<in> set '' ''. c_isspace c" "CHR '' '' # r = [] \<or> c_isspace (hd (CHR '' '' # r))"
    by (simp_all add: c_isspace_def)
  from read_word_word [OF assms this, of v] show ?thesis by simp
qed

lemma announce_words:
  "read_word (sstream_of (announce_line port s t)) [] =
     (''announce'', \<lparr>rest = '' listen '' @ dec port @ '' seed ['' @ s @ ''] leech ['' @ t @ '']'', eofbit = False, failbit = False\<rparr>)"
  using read_word_word [of "''announce''" "[]" "'' listen '' @ dec port @ '' seed ['' @ s @ ''] leech ['' @ t @ '']''" "[]"]
  by (simp add: announce_line_def sstream_of_def c_isspace_def)

text \<open>The three rounds of the loop on such a line.\<close>

lemma announce_rounds:
  assumes "CHR '']'' \<notin> set s" and "CHR '']'' \<notin> set t"
  shows "announce_loop 3 p [] [] []
      \<lparr>rest = '' listen '' @ dec port @ '' seed ['' @ s @ ''] leech ['' @ t @ '']'', eofbit = False, failbit = False\<rparr>
      False False False st =
    unless_thrown (set_listen st p (dec port)) (\<lambda>st.
    unless_thrown (parse_announce_seed st p s) (\<lambda>st.
    unless_thrown (parse_announce_leech st p t)
      (announce_loop 0 p ''leech'' t '' '' \<lparr>rest = [], eofbit = False, failbit = False\<rparr> True True True)))"
proof -
  let ?s = "\<lambda>r. \<lparr>rest = r, eofbit = False, failbit = False\<rparr>"
  have 1: "read_word (?s ('' listen '' @ dec port @ '' seed ['' @ s @ ''] leech ['' @ t @ '']'')) v =
      (''listen'', ?s (CHR '' '' # dec port @ '' seed ['' @ s @ ''] leech ['' @ t @ '']''))" for v
    using next_word [of "''listen''" "dec port @ '' seed ['' @ s @ ''] leech ['' @ t @ '']''" v] by (simp add: c_isspace_def)
  have 2: "read_word (?s (CHR '' '' # dec port @ '' seed ['' @ s @ ''] leech ['' @ t @ '']'')) v =
      (dec port, ?s ('' seed ['' @ s @ ''] leech ['' @ t @ '']''))" for v
    using next_word [of "dec port" "''seed ['' @ s @ ''] leech ['' @ t @ '']''" v] digits_no_space [of port] by simp
  have 3: "read_word (?s ('' seed ['' @ s @ ''] leech ['' @ t @ '']'')) v =
      (''seed'', ?s ('' ['' @ s @ ''] leech ['' @ t @ '']''))" for v
    using next_word [of "''seed''" "''['' @ s @ ''] leech ['' @ t @ '']''" v] by (simp add: c_isspace_def)
  have 4: "bracketed (?s ('' ['' @ s @ ''] leech ['' @ t @ '']'')) g a = ('' '', s, ?s ('' leech ['' @ t @ '']''))" for g a
    using bracketed_next [OF assms(1), of "'' leech ['' @ t @ '']''" g a] by simp
  have 5: "read_word (?s ('' leech ['' @ t @ '']'')) v = (''leech'', ?s ('' ['' @ t @ '']''))" for v
    using next_word [of "''leech''" "''['' @ t @ '']''" v] by (simp add: c_isspace_def)
  have 6: "bracketed (?s ('' ['' @ t @ '']'')) g a = ('' '', t, ?s [])" for g a
    using bracketed_next [OF assms(2), of "[]" g a] by simp
  have t: "3 = Suc (Suc (Suc 0))" by simp
  show ?thesis
    unfolding t announce_loop.simps(2) 1 2 3 4 5 6 Let_def prod.case by simp
qed

lemma announce_spec:
  assumes k: "cpp_inv st" "xpeers st p = Some y" and a: "\<not> announced y" and port: "0 < port" "port < 65536"
    and br: "CHR '']'' \<notin> set s" "CHR '']'' \<notin> set t" and four: "length (words_of s) mod 4 = 0"
  shows "\<exists>st' y'. handle_line st p (announce_line port s t) = Inr (True, st') \<and> keeps p st st' \<and>
    xpeers st' p = Some y' \<and> announced y' \<and> listen_port y' = of_nat port \<and> written y' = written y @ [''ok'' @ newline] \<and>
    (\<forall>(a, b, c, d) \<in> set (groups_of_four (words_of s)). \<forall>n piece. stoul b = Some n \<longrightarrow> stoul c = Some piece \<longrightarrow> seeds st' p n piece d) \<and>
    (\<forall>key \<in> set (words_of t). \<forall>f. mgr_map st' key = Some f \<longrightarrow> lists st' f p)"
proof -
  let ?y1 = "y\<lparr>listen_port := of_nat port\<rparr>"
  let ?st1 = "store_xpeer st p ?y1"
  have 1: "set_listen st p (dec port) = Inr (?st1, None)"
    using port k(2) stoi_dec [of port] by (simp add: set_listen_def load_xpeer_def)
  have k1: "keeps p st ?st1" by (rule store_peer_keeps [OF k]) simp_all
  let ?y2 = "?y1\<lparr>seed_map := Map.empty\<rparr>"
  let ?st2 = "store_xpeer ?st1 p ?y2"
  have x1: "xpeers ?st1 p = Some ?y1" by (simp add: store_xpeer_def)
  have k2: "keeps p ?st1 ?st2" using keepsD [OF k1] by (intro store_peer_keeps [OF _ x1]) simp_all
  have x2: "xpeers ?st2 p = Some ?y2" by (simp add: store_xpeer_def)
  obtain st3 m where 3: "seed_loop ?st2 p (words_of s) = Inr st3" "keeps p ?st2 st3" "xpeers st3 p = Some (?y2\<lparr>seed_map := m\<rparr>)"
    "\<forall>(a, b, c, d) \<in> set (groups_of_four (words_of s)). \<forall>n piece. stoul b = Some n \<longrightarrow> stoul c = Some piece \<longrightarrow> seeds st3 p n piece d"
    using seed_loop_spec [OF _ x2, of "words_of s"] keepsD [OF k2] by blast
  have p2: "parse_announce_seed ?st1 p s = Inr (st3, None)"
    using x1 3(1) four by (simp add: parse_announce_seed_def load_xpeer_def Let_def return_ok_def)
  let ?y4 = "?y2\<lparr>seed_map := m\<rparr>\<lparr>leech_map := Map.empty\<rparr>"
  let ?st4 = "store_xpeer st3 p ?y4"
  have k4: "keeps p st3 ?st4" using keepsD [OF 3(2)] by (intro store_peer_keeps [OF _ 3(3)]) simp_all
  have x4: "xpeers ?st4 p = Some ?y4" by (simp add: store_xpeer_def)
  obtain st5 m' where 5: "cpp_leech_loop ?st4 p (words_of t) = Inr st5" "keeps p ?st4 st5" "xpeers st5 p = Some (?y4\<lparr>leech_map := m'\<rparr>)"
    "mgr_map st5 = mgr_map ?st4" "\<forall>key \<in> set (words_of t). \<forall>f. mgr_map ?st4 key = Some f \<longrightarrow> lists st5 f p"
    using cpp_leech_loop_spec [OF _ x4, of "words_of t"] keepsD [OF k4] by blast
  have p4: "parse_announce_leech st3 p t = Inr (st5, None)"
    using 3(3) 5(1) by (simp add: parse_announce_leech_def load_xpeer_def return_ok_def)
  let ?y6 = "?y4\<lparr>leech_map := m'\<rparr>\<lparr>announced := True\<rparr>"
  let ?y7 = "?y6\<lparr>written := written y @ [''ok'' @ newline]\<rparr>"
  let ?y8 = "?y7\<lparr>seq_errors := 0\<rparr>"
  let ?st6 = "store_xpeer (store_xpeer st5 p ?y6) p ?y7" and ?st8 = "store_xpeer st5 p ?y8"
  have st8: "store_xpeer ?st6 p ?y8 = ?st8" by (simp add: store_xpeer_def)
  have k8: "keeps p st5 ?st8" using keepsD [OF 5(2)] by (intro keeps_peer [OF _ 5(3), of _ "[''ok'' @ newline]"]) simp_all
  have p6: "announce_loop 0 p kw g r l True True True st5 = Inr (?st6, None)" for kw g r l
    using 5(3) by (simp add: load_xpeer_def return_ok_def send_ok_def peer_write_def store_xpeer_def)
  have "handle_announce st p \<lparr>rest = '' listen '' @ dec port @ '' seed ['' @ s @ ''] leech ['' @ t @ '']'', eofbit = False, failbit = False\<rparr> =
      Inr (?st6, None)"
    using k(2) a by (simp only: handle_announce_def load_xpeer_def option.case rbind_Inr if_False simp_thms announce_rounds [OF br] 1 p2 p4 p6
      unless_thrown_def prod.case)
  moreover have "xpeers ?st6 p = Some ?y7" by (simp add: store_xpeer_def)
  ultimately have h: "handle_line st p (announce_line port s t) = Inr (True, ?st8)"
    using st8 by (simp add: handle_line_def announce_words init_handlers_def load_xpeer_def)
  note k5 = keeps_trans [OF k4 5(2)]
  have "keeps p st ?st8" by (rule keeps_trans [OF keeps_trans [OF k1 k2] keeps_trans [OF 3(2) keeps_trans [OF k5 k8]]])
  moreover have "\<forall>(a, b, c, d) \<in> set (groups_of_four (words_of s)). \<forall>n piece. stoul b = Some n \<longrightarrow> stoul c = Some piece \<longrightarrow> seeds ?st8 p n piece d"
    using 3(4) seeds_mono [OF keeps_trans [OF k5 k8]] by fast
  moreover have "\<forall>key \<in> set (words_of t). \<forall>f. mgr_map ?st8 key = Some f \<longrightarrow> lists ?st8 f p"
    using 5(4,5) lists_mono [OF k8] by (simp add: store_xpeer_def)
  moreover have "xpeers ?st8 p = Some ?y8" by (simp add: store_xpeer_def)
  ultimately show ?thesis using h by (intro exI [of _ ?st8] exI [of _ ?y8] conjI) simp_all
qed

section \<open>Properties\<close>

text \<open>C9: In every state the C++ tracker reaches by connections, requests and the closing of connections no file lists, a
  request faults only if it is a getfile for an unknown key; any other is handled, changes no other peer, takes back
  nothing sent and forgets neither a file nor a peer of a file.\<close>
theorem cpp_requests_safe:
  assumes "cpp_reach st" and "xpeers st p \<noteq> None"
  shows "if asks_unknown st p l then handle_line st p l = Inl Null_Deref
    else \<exists>go st'. handle_line st p l = Inr (go, st') \<and> keeps p st st' \<and> cpp_reach st'"
proof (cases "asks_unknown st p l")
  case True
  with handle_line_unknown show ?thesis by simp
next
  case False
  obtain y where y: "xpeers st p = Some y" using assms(2) by blast
  from handle_line_keeps [OF cpp_reach_inv [OF assms(1)] y False] cpp_reach.request [OF assms] False show ?thesis by auto
qed

text \<open>C19: A peer that is listed for a file and closes its connection stays listed: the next getfile of another announced
  peer for the file reads the deleted object.\<close>
theorem cpp_peer_stays_listed:
  assumes "cpp_reach st" and "xpeers st p = Some y" and "announced y" and "mgr_map st key = Some f"
    and "xfiles st f = Some x" and "q \<in> set (fpeers x)" and "q \<noteq> p" and "read_word ss [] = (key, ss')"
  shows "handle_getfile (delete_peer st q) p ss = Inl Use_After_Free"
proof -
  have "\<forall>r \<in> set (fpeers x). xpeers st r \<noteq> None"
    using cpp_reach_inv [OF assms(1)] assms(5) unfolding cpp_inv_def by blast
  from peer_list_parts_deleted [OF assms(6,7) this] assms show ?thesis
    by (simp add: handle_getfile_def delete_peer_def load_xpeer_def load_xfile_def file_map_get_def peer_list_string_def)
qed

text \<open>C10: An announce of a peer that has not announced is answered ok; the peer listens on the port, is listed by a file of
  the manager with the attributes of each group of four of the seed list whose numbers can be read, and by every known
  file of the leech list.\<close>
theorem cpp_announce_lists:
  assumes "cpp_reach st" and "xpeers st p = Some y" and "\<not> announced y" and "0 < port" and "port < 65536"
    and "CHR '']'' \<notin> set s" and "CHR '']'' \<notin> set t" and "length (words_of s) mod 4 = 0"
  shows "\<exists>st' y'. handle_line st p (announce_line port s t) = Inr (True, st') \<and> keeps p st st' \<and>
    xpeers st' p = Some y' \<and> announced y' \<and> listen_port y' = of_nat port \<and> written y' = written y @ [''ok'' @ newline] \<and>
    (\<forall>(a, b, c, d) \<in> set (groups_of_four (words_of s)). \<forall>n piece. stoul b = Some n \<longrightarrow> stoul c = Some piece \<longrightarrow> seeds st' p n piece d) \<and>
    (\<forall>key \<in> set (words_of t). \<forall>f. mgr_map st' key = Some f \<longrightarrow> lists st' f p)"
  by (rule announce_spec [OF cpp_reach_inv [OF assms(1)] assms(2-)])

section \<open>An example run\<close>

text \<open>Peer 0 announces a file, peer 1 announces nothing.\<close>

definition state_after :: "cpp_state \<Rightarrow> addr \<Rightarrow> string \<Rightarrow> cpp_state" where
  "state_after st p l = (case handle_line st p l of Inl e \<Rightarrow> st | Inr (go, st') \<Rightarrow> st')"

definition cpp_demo_connected :: cpp_state where
  "cpp_demo_connected = store_xpeer (store_xpeer cpp_init 0 (new_peer 16777343)) 1 (new_peer 33554559)"

definition cpp_demo_announced :: cpp_state where
  "cpp_demo_announced = state_after (state_after cpp_demo_connected 0 (announce_line 80 ''a.txt 4 2 k'' [])) 1 (announce_line 81 [] [])"

lemma cpp_demo_connected_reach: "cpp_reach cpp_demo_connected"
proof -
  have "cpp_reach (store_xpeer cpp_init 0 (new_peer 16777343))"
    by (rule cpp_reach.connect [OF cpp_reach.start]) (simp add: cpp_init_def)
  then show ?thesis
    unfolding cpp_demo_connected_def by (rule cpp_reach.connect) (simp add: cpp_init_def store_xpeer_def)
qed

lemma state_after_reach:
  assumes r: "cpp_reach st" and p: "xpeers st p \<noteq> None" and ask: "\<not> asks_unknown st p l"
  shows "cpp_reach (state_after st p l) \<and> (\<forall>q. xpeers st q \<noteq> None \<longrightarrow> xpeers (state_after st p l) q \<noteq> None)"
proof -
  obtain y where y: "xpeers st p = Some y" using p by blast
  obtain go st' where h: "handle_line st p l = Inr (go, st')" "keeps p st st'"
    using handle_line_keeps [OF cpp_reach_inv [OF r] y ask] by blast
  have "xpeers st' q \<noteq> None" if "xpeers st q \<noteq> None" for q
    using h(2) that unfolding keeps_def by (cases "q = p") auto
  with cpp_reach.request [OF r p h(1)] h(1) show ?thesis by (simp add: state_after_def)
qed

lemma asks_announce: "\<not> asks_unknown st p (announce_line port s t)"
  by (simp add: asks_unknown_def announce_words)

lemma cpp_demo_announced_reach: "cpp_reach cpp_demo_announced"
proof -
  have 0: "xpeers cpp_demo_connected 0 \<noteq> None" "xpeers cpp_demo_connected 1 \<noteq> None"
    by (simp_all add: cpp_demo_connected_def store_xpeer_def)
  note 1 = state_after_reach [OF cpp_demo_connected_reach 0(1) asks_announce, of 80 "''a.txt 4 2 k''" "[]"]
  then have "xpeers (state_after cpp_demo_connected 0 (announce_line 80 ''a.txt 4 2 k'' [])) 1 \<noteq> None" using 0(2) by blast
  from state_after_reach [OF conjunct1 [OF 1] this asks_announce] show ?thesis unfolding cpp_demo_announced_def by blast
qed

lemma cpp_demo_announced_values:
  "map_option announced (xpeers cpp_demo_announced 1) = Some True \<and> mgr_map cpp_demo_announced ''k'' = Some 0 \<and>
   map_option fpeers (xfiles cpp_demo_announced 0) = Some [0]"
  by code_simp

lemma cpp_requests_safe_witness:
  "\<exists>go st'. handle_line cpp_demo_connected 0 ''look [x]'' = Inr (go, st') \<and> cpp_reach st'"
proof -
  have "xpeers cpp_demo_connected 0 \<noteq> None" by (simp add: cpp_demo_connected_def store_xpeer_def)
  moreover have "fst (read_word (sstream_of ''look [x]'') []) \<noteq> ''getfile''" by code_simp
  then have "\<not> asks_unknown cpp_demo_connected 0 ''look [x]''" by (auto simp: asks_unknown_def)
  ultimately show ?thesis using cpp_requests_safe [OF cpp_demo_connected_reach, of 0 "''look [x]''"] by auto
qed

lemma cpp_peer_stays_listed_witness:
  "handle_getfile (delete_peer cpp_demo_announced 0) 1 (sstream_of ''k'') = Inl Use_After_Free"
proof -
  obtain y x where yx: "xpeers cpp_demo_announced 1 = Some y" "announced y" "mgr_map cpp_demo_announced ''k'' = Some 0"
    "xfiles cpp_demo_announced 0 = Some x" "fpeers x = [0]"
    using cpp_demo_announced_values by auto
  obtain ss' where "read_word (sstream_of ''k'') [] = (''k'', ss')"
    using read_word_word [of "''k''" "[]" "[]" "[]"] by (simp add: sstream_of_def c_isspace_def)
  then show ?thesis
    by (intro cpp_peer_stays_listed [OF cpp_demo_announced_reach yx(1-4)]) (simp_all add: yx(5))
qed

lemma cpp_announce_lists_witness:
  "\<exists>st'. handle_line cpp_demo_connected 0 (announce_line 80 ''a.txt 4 2 k'' []) = Inr (True, st') \<and> seeds st' 0 4 2 ''k''"
proof -
  obtain y where y: "xpeers cpp_demo_connected 0 = Some y" "\<not> announced y"
    by (simp add: cpp_demo_connected_def store_xpeer_def new_peer_def)
  have "words_of ''a.txt 4 2 k'' = [''a.txt'', ''4'', ''2'', ''k''] \<and> stoul ''4'' = Some 4 \<and> stoul ''2'' = Some 2" by code_simp
  with cpp_announce_lists [OF cpp_demo_connected_reach y, of 80 "''a.txt 4 2 k''" "[]"] show ?thesis by auto
qed

end
