(* ===== verification/Cpp_Look.thy ===== *)
theory Cpp_Look
  imports Cpp_Safe
begin

text \<open>
  What the criteria of a look request select in the C++ tracker: the table of \<open>Criterion.cpp\<close> gives the operators on
  numbers their meaning, but exchanges equal and not equal.
\<close>

section \<open>Criteria on numbers\<close>

datatype num_field = Filesize | Piecesize

fun field_name :: "num_field \<Rightarrow> string" where
  "field_name Filesize = ''filesize''"
| "field_name Piecesize = ''piecesize''"

fun field_of :: "num_field \<Rightarrow> cpp_file \<Rightarrow> 64 word" where
  "field_of Filesize = fsize"
| "field_of Piecesize = fpiece"

datatype cmp = Cmp_Eq | Cmp_Neq | Cmp_Geq | Cmp_Leq | Cmp_Gt | Cmp_Lt

fun cmp_name :: "cmp \<Rightarrow> string" where
  "cmp_name Cmp_Eq = ''=''"
| "cmp_name Cmp_Neq = ''!=''"
| "cmp_name Cmp_Geq = ''>=''"
| "cmp_name Cmp_Leq = ''<=''"
| "cmp_name Cmp_Gt = ''>''"
| "cmp_name Cmp_Lt = ''<''"

text \<open>The meaning of an operator, and the one the table has.\<close>

fun cmp_rel :: "cmp \<Rightarrow> 64 word \<Rightarrow> 64 word \<Rightarrow> bool" where
  "cmp_rel Cmp_Eq a b \<longleftrightarrow> a = b"
| "cmp_rel Cmp_Neq a b \<longleftrightarrow> a \<noteq> b"
| "cmp_rel Cmp_Geq a b \<longleftrightarrow> a \<ge> b"
| "cmp_rel Cmp_Leq a b \<longleftrightarrow> a \<le> b"
| "cmp_rel Cmp_Gt a b \<longleftrightarrow> a > b"
| "cmp_rel Cmp_Lt a b \<longleftrightarrow> a < b"

definition code_rel :: "cmp \<Rightarrow> 64 word \<Rightarrow> 64 word \<Rightarrow> bool" where
  "code_rel c a b \<longleftrightarrow> (if c \<in> {Cmp_Eq, Cmp_Neq} then \<not> cmp_rel c a b else cmp_rel c a b)"

definition num_criterion :: "num_field \<Rightarrow> cmp \<Rightarrow> nat \<Rightarrow> string" where
  "num_criterion fld c n = field_name fld @ cmp_name c @ [CHR 0x22] @ dec n @ [CHR 0x22]"

lemma criterion_match_prefix:
  "criterion_match c v \<Longrightarrow> take (length (ckeyword c @ cdelim c)) v = ckeyword c @ cdelim c"
proof -
  assume "criterion_match c v"
  then obtain pos where pos: "strstr v (cdelim c) = Some pos" "take pos v = ckeyword c"
    by (auto simp: criterion_match_def split: option.splits)
  from strstr_Some [OF pos(1)] have v: "v = take pos v @ cdelim c @ drop (pos + length (cdelim c)) v" by simp
  show ?thesis by (subst v) (simp add: pos(2))
qed

fun cmp_pred :: "cmp \<Rightarrow> num_field \<Rightarrow> pred" where
  "cmp_pred Cmp_Eq fld = eqi True (field_of fld)"
| "cmp_pred Cmp_Neq fld = eqi False (field_of fld)"
| "cmp_pred Cmp_Geq fld = num_pred (\<ge>) (field_of fld)"
| "cmp_pred Cmp_Leq fld = num_pred (\<le>) (field_of fld)"
| "cmp_pred Cmp_Gt fld = num_pred (>) (field_of fld)"
| "cmp_pred Cmp_Lt fld = num_pred (<) (field_of fld)"

lemma cmp_pred_dec: "n < 2 ^ 64 \<Longrightarrow> cmp_pred c fld x (dec n) = Some (code_rel c (field_of fld x) (of_nat n))"
  by (cases c) (auto simp: eqi_def num_pred_def stoul_dec code_rel_def)

lemma no_match:
  "take (length (ckeyword c @ cdelim c)) v \<noteq> ckeyword c @ cdelim c \<Longrightarrow> \<not> criterion_match c v"
  using criterion_match_prefix by blast

lemma find_num_criterion:
  "List.find (\<lambda>c. criterion_match c (num_criterion fld c' n)) criterions = Some (mk_criterion (cmp_name c') (field_name fld) (cmp_pred c' fld))"
proof -
  let ?v = "num_criterion fld c' n"
  have m: "criterion_match (mk_criterion (cmp_name c') (field_name fld) q) ?v" for q
    by (cases fld; cases c') (simp_all add: criterion_match_def mk_criterion_def num_criterion_def)
  have d: "\<not> criterion_match (mk_criterion (cmp_name c) (field_name g) q) ?v" if "c \<noteq> c' \<or> g \<noteq> fld" for c g q
    using that by (intro no_match) (cases fld; cases c'; cases g; cases c; simp add: mk_criterion_def num_criterion_def)
  note d1 = d [of Cmp_Eq Filesize, simplified] d [of Cmp_Neq Filesize, simplified] d [of Cmp_Geq Filesize, simplified]
    d [of Cmp_Leq Filesize, simplified] d [of Cmp_Gt Filesize, simplified] d [of Cmp_Lt Filesize, simplified]
    d [of Cmp_Eq Piecesize, simplified] d [of Cmp_Neq Piecesize, simplified] d [of Cmp_Geq Piecesize, simplified]
    d [of Cmp_Leq Piecesize, simplified] d [of Cmp_Gt Piecesize, simplified] d [of Cmp_Lt Piecesize, simplified]
  show ?thesis
    using m d1 unfolding criterions_def make_num_field_def by (cases fld; cases c') simp_all
qed

section \<open>A look request\<close>

lemma set_insert_least: "\<forall>g \<in> set fs. f < g \<Longrightarrow> set_insert f fs = f # fs"
  by (cases fs) (auto simp: set_insert_def)

lemma select_files_filter:
  assumes "sorted s" and "distinct s" and "\<forall>f \<in> set s. xfiles st f \<noteq> None" and "\<And>x. p x a = Some (q x)"
  shows "select_files st p a s = Inr (Inr (filter (\<lambda>f. q (the (xfiles st f))) s))"
  using assms(1-3)
proof (induction s)
  case (Cons f fs)
  then obtain x where x: "xfiles st f = Some x" by auto
  have "set_insert f (filter (\<lambda>f. q (the (xfiles st f))) fs) = f # filter (\<lambda>f. q (the (xfiles st f))) fs"
    using Cons.prems(1,2) by (intro set_insert_least) (auto simp: order_less_le)
  with Cons x assms(4) show ?case by (simp add: load_xfile_def)
qed simp

lemma dec_no_quote: "CHR 0x22 \<notin> set (dec n)" "CHR '' '' \<notin> set (dec n)" "CHR '']'' \<notin> set (dec n)"
  using dec_digits [of n] by (auto simp: c_isdigit_def)

lemma apply_num_criterion:
  assumes "sorted s" and "distinct s" and "\<forall>f \<in> set s. xfiles st f \<noteq> None" and "n < 2 ^ 64"
  shows "parse_criterion st (num_criterion fld c n) s =
    Inr (Inr (filter (\<lambda>f. code_rel c (field_of fld (the (xfiles st f))) (of_nat n)) s))"
proof -
  let ?v = "num_criterion fld c n" and ?c = "mk_criterion (cmp_name c) (field_name fld) (cmp_pred c fld)"
  have "criterion_match ?c ?v" using find_num_criterion [of fld c n] by (auto simp: find_Some_iff)
  then obtain pos where pos: "strstr ?v (cdelim ?c) = Some pos" "take pos ?v = field_name fld"
    by (auto simp: criterion_match_def mk_criterion_def split: option.splits)
  have "pos \<le> length ?v" using conjunct2 [OF strstr_Some [OF pos(1)]] by (rule add_leD1)
  then have "length (take pos ?v) = pos" by simp
  then have p: "pos = length (field_name fld)" by (simp only: pos(2))
  have "drop (pos + length (cdelim ?c)) ?v = dec n @ [CHR 0x22]"
    by (simp add: p num_criterion_def mk_criterion_def)
  then have "parse_criterion st ?v s = select_files st (cmp_pred c fld) (dec n) s"
    using pos(1) read_line_delim [OF dec_no_quote(1), of n "[]" "[]"]
    by (simp add: parse_criterion_def find_num_criterion apply_criterion_def sstream_of_def mk_criterion_def)
  also have "\<dots> = Inr (Inr (filter (\<lambda>f. code_rel c (field_of fld (the (xfiles st f))) (of_nat n)) s))"
    by (intro select_files_filter [where q = "\<lambda>x. code_rel c (field_of fld x) (of_nat n)"] assms(1-3) cmp_pred_dec assms(4))
  finally show ?thesis .
qed


lemma spaced_simps: "spaced [] = []" "spaced (x # xs) = x @ concat (map (\<lambda>y. '' '' @ y) xs)"
proof -
  have "map (\<lambda>i. (if i \<noteq> 0 then '' '' else '''') @ (x # xs) ! i) [Suc 0..<Suc (length xs)] = map (\<lambda>y. '' '' @ y) xs"
    by (rule nth_equalityI) (simp_all del: upt_Suc)
  then show "spaced (x # xs) = x @ concat (map (\<lambda>y. '' '' @ y) xs)"
    by (simp add: spaced_def upt_conv_Cons del: upt_Suc)
qed (simp add: spaced_def)

lemma split_spaced: "\<forall>x \<in> set xs. CHR '' '' \<notin> set x \<and> x \<noteq> [] \<Longrightarrow> split_string (spaced xs) (CHR '' '') = xs"
proof (induction xs)
  case Nil
  then show ?case by (simp add: spaced_simps split_string_last)
next
  case (Cons x xs)
  show ?case
  proof (cases xs)
    case Nil
    with Cons.prems show ?thesis by (simp add: spaced_simps split_string_last)
  next
    case (Cons y ys)
    then have "spaced (x # xs) = x @ CHR '' '' # spaced xs" by (simp add: spaced_simps)
    with Cons.IH Cons.prems show ?thesis by (simp add: split_string_delim)
  qed
qed

lemma num_criterion_chars: "CHR '' '' \<notin> set (num_criterion fld c n)" "num_criterion fld c n \<noteq> []" "CHR '']'' \<notin> set (num_criterion fld c n)"
  using dec_no_quote [of n] by (cases fld; cases c; auto simp: num_criterion_def)+

text \<open>The files that meet all of a list of criteria, each a field, an operator and a number.\<close>

definition selected :: "(num_field \<times> cmp \<times> nat) list \<Rightarrow> cpp_file \<Rightarrow> bool" where
  "selected cs x \<longleftrightarrow> (\<forall>(fld, c, n) \<in> set cs. code_rel c (field_of fld x) (of_nat n))"

definition look_line :: "(num_field \<times> cmp \<times> nat) list \<Rightarrow> string" where
  "look_line cs = ''look ['' @ spaced (map (\<lambda>(fld, c, n). num_criterion fld c n) cs) @ '']''"

lemma look_loop_selected:
  assumes "sorted s" and "distinct s" and "\<forall>f \<in> set s. xfiles st f \<noteq> None" and "\<forall>(fld, c, n) \<in> set cs. n < 2 ^ 64"
  shows "look_loop st (map (\<lambda>(fld, c, n). num_criterion fld c n) cs) s =
    Inr (Inr (filter (\<lambda>f. selected cs (the (xfiles st f))) s))"
  using assms
proof (induction cs arbitrary: s)
  case Nil
  then show ?case by (simp add: selected_def)
next
  case (Cons k cs)
  obtain fld c n where k: "k = (fld, c, n)" by (cases k)
  let ?t = "filter (\<lambda>f. code_rel c (field_of fld (the (xfiles st f))) (of_nat n)) s"
  have "parse_criterion st (num_criterion fld c n) s = Inr (Inr ?t)"
    using Cons.prems k by (intro apply_num_criterion) simp_all
  moreover have "look_loop st (map (\<lambda>(fld, c, n). num_criterion fld c n) cs) ?t =
      Inr (Inr (filter (\<lambda>f. selected cs (the (xfiles st f))) ?t))"
    using Cons.prems by (intro Cons.IH) (simp_all add: sorted_wrt_filter)
  ultimately show ?case by (simp add: k selected_def conj_commute)
qed

lemma look_words:
  "read_word (sstream_of (look_line cs)) [] = (''look'',
     \<lparr>rest = '' ['' @ spaced (map (\<lambda>(fld, c, n). num_criterion fld c n) cs) @ '']'', eofbit = False, failbit = False\<rparr>)"
  using read_word_word [of "''look''" "[]" "'' ['' @ spaced (map (\<lambda>(fld, c, n). num_criterion fld c n) cs) @ '']''" "[]"]
  by (simp add: look_line_def sstream_of_def c_isspace_def)

lemma spaced_chars: "c \<noteq> CHR '' '' \<Longrightarrow> \<forall>x \<in> set xs. c \<notin> set x \<Longrightarrow> c \<notin> set (spaced xs)"
  by (cases xs) (auto simp: spaced_simps)


lemma look_selected:
  assumes i: "cpp_inv st" and y: "xpeers st p = Some y" "announced y" and n: "\<forall>(fld, c, n) \<in> set cs. n < 2 ^ 64"
  shows "\<exists>st'. handle_line st p (look_line cs) = Inr (True, st') \<and>
    st' = store_xpeer st p (y\<lparr>written := written y @ [''list ['' @
      spaced (map (\<lambda>f. file_to_string (the (xfiles st f))) (filter (\<lambda>f. selected cs (the (xfiles st f))) (mgr_set st))) @
      '']'' @ newline], seq_errors := 0\<rparr>)"
proof -
  let ?cs = "map (\<lambda>(fld, c, n). num_criterion fld c n) cs"
  let ?s = "filter (\<lambda>f. selected cs (the (xfiles st f))) (mgr_set st)"
  let ?msg = "''list ['' @ spaced (map (\<lambda>f. file_to_string (the (xfiles st f))) ?s) @ '']'' @ newline"
  have m: "sorted (mgr_set st)" "distinct (mgr_set st)" "\<forall>f \<in> set (mgr_set st). xfiles st f \<noteq> None"
    using i unfolding cpp_inv_def by blast+
  have "\<forall>x \<in> set ?cs. CHR '' '' \<notin> set x \<and> x \<noteq> []" using num_criterion_chars by auto
  note sp = split_spaced [OF this]
  have "CHR '']'' \<notin> set (spaced ?cs)" using num_criterion_chars(3) by (intro spaced_chars) auto
  note br = bracketed_next [OF this, of "[]" "[]" "[]"]
  have l: "look_loop st (split_string (spaced ?cs) (CHR '' '')) (mgr_set st) = Inr (Inr ?s)"
    unfolding sp by (rule look_loop_selected [OF m n])
  have "file_list_string st ?s = Inr ?msg"
    using m(3) by (simp add: file_list_string_def file_list_parts_total)
  then have "parse_look st p (spaced ?cs) = Inr (store_xpeer st p (y\<lparr>written := written y @ [?msg]\<rparr>), None)"
    using y(1) by (simp add: parse_look_def l return_ok_def peer_write_def load_xpeer_def)
  then have "handle_look st p \<lparr>rest = '' ['' @ spaced ?cs @ '']'', eofbit = False, failbit = False\<rparr> =
      Inr (store_xpeer st p (y\<lparr>written := written y @ [?msg]\<rparr>), None)"
    using y br by (simp add: handle_look_def load_xpeer_def)
  then show ?thesis
    by (simp add: handle_line_def look_words init_handlers_def load_xpeer_def store_xpeer_def)
qed

section \<open>Properties\<close>

text \<open>C11: A look request of an announced peer whose criteria compare a size with a number is answered with exactly the files
  that meet every criterion, in order, each once; but for equality, which the table exchanges with its negation, every
  operator has its meaning.\<close>
theorem cpp_look_selects:
  assumes "cpp_reach st" and "xpeers st p = Some y" and "announced y" and "\<forall>(fld, c, n) \<in> set cs. n < 2 ^ 64"
  shows "distinct (mgr_set st) \<and> (\<forall>key f. mgr_map st key = Some f \<longrightarrow> f \<in> set (mgr_set st)) \<and>
    (\<exists>st' y'. handle_line st p (look_line cs) = Inr (True, st') \<and> xpeers st' p = Some y' \<and>
      written y' = written y @ [''list ['' @ spaced (map (\<lambda>f. file_to_string (the (xfiles st f)))
        (filter (\<lambda>f. \<forall>(fld, c, n) \<in> set cs. let b = cmp_rel c (field_of fld (the (xfiles st f))) (of_nat n)
           in if c = Cmp_Eq \<or> c = Cmp_Neq then \<not> b else b) (mgr_set st))) @ '']'' @ newline])"
proof -
  note i = cpp_reach_inv [OF assms(1)]
  have "distinct (mgr_set st)" "\<forall>key f. mgr_map st key = Some f \<longrightarrow> f \<in> set (mgr_set st)"
    using i unfolding cpp_inv_def by (blast, auto simp: ran_def)
  with look_selected [OF i assms(2-4)] show ?thesis
    by (auto simp: selected_def code_rel_def store_xpeer_def Let_def)
qed

lemma cpp_look_selects_witness:
  "\<exists>y y' st'. xpeers cpp_demo_announced 1 = Some y \<and>
    handle_line cpp_demo_announced 1 (look_line [(Filesize, Cmp_Gt, 3), (Piecesize, Cmp_Neq, 2)]) = Inr (True, st') \<and>
    xpeers st' 1 = Some y' \<and> written y' = written y @ [''list [a.txt 4 2 k]'' @ newline]"
proof -
  obtain y where y: "xpeers cpp_demo_announced 1 = Some y" "announced y" using cpp_demo_announced_values by auto
  let ?cs = "[(Filesize, Cmp_Gt, 3), (Piecesize, Cmp_Neq, 2)]"
  have "\<forall>(fld, c, n) \<in> set ?cs. n < (2::nat) ^ 64" by simp
  note l = cpp_look_selects [OF cpp_demo_announced_reach y this]
  have "spaced (map (\<lambda>f. file_to_string (the (xfiles cpp_demo_announced f)))
      (filter (\<lambda>f. \<forall>(fld, c, n) \<in> set ?cs. let b = cmp_rel c (field_of fld (the (xfiles cpp_demo_announced f))) (of_nat n)
        in if c = Cmp_Eq \<or> c = Cmp_Neq then \<not> b else b) (mgr_set cpp_demo_announced))) = ''a.txt 4 2 k''"
    by code_simp
  with l y(1) show ?thesis by auto
qed

end
