(* ===== verification/Cpp_Sockets.thy ===== *)
theory Cpp_Sockets
  imports Cpp_Safe
begin

text \<open>
  The event layer of the C++ tracker: \<open>Event\<close> and \<open>EventManager\<close>, \<open>SocketWriter\<close> and the sending half of
  \<open>ClientSocket\<close> (\<open>tracker_cpp/common\<close>). Events are objects at addresses; which class an object is of, its virtual
  functions, is its constructor. What system calls return is an argument.
\<close>

section \<open>Buffers that grow\<close>

text \<open>\<open>size_t\<close> times the \<open>float\<close> 1.5: both the conversion and the product are rounded to 24 bits, ties to even.\<close>

fun bit_len :: "nat \<Rightarrow> nat" where
  "bit_len n = (if n = 0 then 0 else Suc (bit_len (n div 2)))"

declare bit_len.simps [simp del]

definition to_float :: "nat \<Rightarrow> nat" where
  "to_float n =
     (let u = 2 ^ (bit_len n - 24); q = n div u; r = n mod u
      in if 2 * r < u \<or> 2 * r = u \<and> even q then q * u else (q + 1) * u)"

definition grown :: "nat \<Rightarrow> nat" where
  "grown n = to_float (3 * to_float n) div 2"

lemma cb_resize_fields:
  "cb_resize b True n = Inr b' \<Longrightarrow> capacity b' = n \<and> csize b' = csize b"
  by (auto simp: cb_resize_def Let_def rbind_eq_Inr_iff)

text \<open>The loops \<open>while (size > remainingSpace()) resize(1.5)\<close>; a capacity that does not grow keeps them going.\<close>

function make_room :: "nat \<Rightarrow> cbuf \<Rightarrow> cbuf result" where
  "make_room n b =
     (if n \<le> cb_remaining_space b then Inr b
      else if grown (capacity b) \<le> capacity b then Inl Diverges
      else rbind (cb_resize b True (grown (capacity b))) (make_room n))"
  by pat_completeness auto
termination
  by (relation "measure (\<lambda>(n, b). n + csize b - capacity b)") (auto simp: cb_remaining_space_def dest!: cb_resize_fields)

declare make_room.simps [simp del]

section \<open>Events\<close>

text \<open>Of the mask only \<open>EPOLLONESHOT\<close> matters to what follows.\<close>

record event =
  ev_fd :: nat
  ev_once :: bool
  ev_unregister :: bool
  ev_auto_delete :: bool

definition new_event :: "nat \<Rightarrow> bool \<Rightarrow> event" where
  "new_event fd once = \<lparr>ev_fd = fd, ev_once = once, ev_unregister = False, ev_auto_delete = False\<rparr>"

definition schedule_auto_delete :: "event \<Rightarrow> event" where
  "schedule_auto_delete e = e\<lparr>ev_auto_delete := True\<rparr>"

definition schedule_unregister :: "event \<Rightarrow> event" where
  "schedule_unregister e = e\<lparr>ev_unregister := True\<rparr>"

text \<open>
  The objects: a \<open>p2pListener\<close> with its read buffer, a \<open>Peer\<close> with its two buffers and its writer, a \<open>SocketWriter\<close>
  with the object whose write buffer it empties and the flag \<open>_armed\<close>.
\<close>

datatype evobj =
    Listener (obj_event: event) cbuf
  | Conn (obj_event: event) cbuf cbuf "addr option"
  | Writer (obj_event: event) addr bool

text \<open>
  The program: the peers and files, the event objects, the event manager with its map, its set of objects to delete and
  its counter, the interest list of the epoll instance (whether a descriptor is reported once only, and whether it is
  enabled), and what the system took for each connection.
\<close>

record server =
  app :: cpp_state
  objs :: "addr \<Rightarrow> evobj option"
  onext :: addr
  evmap :: "nat \<Rightarrow> addr option"
  doomed :: "addr list"
  ev_count :: "32 word"
  interest :: "nat \<Rightarrow> (bool \<times> bool) option"
  wire :: "addr \<Rightarrow> byte option list"

definition load_obj :: "server \<Rightarrow> addr \<Rightarrow> evobj result" where
  "load_obj st a = (case objs st a of None \<Rightarrow> Inl Use_After_Free | Some x \<Rightarrow> Inr x)"

definition store_obj :: "server \<Rightarrow> addr \<Rightarrow> evobj \<Rightarrow> server" where
  "store_obj st a x = st\<lparr>objs := (objs st)(a \<mapsto> x)\<rparr>"

text \<open>The event manager. Errors of \<open>epoll_ctl\<close>, a descriptor that is there or is not there, are ignored.\<close>

definition unregister_event :: "server \<Rightarrow> addr \<Rightarrow> server result" where
  "unregister_event st a =
     rbind (load_obj st a) (\<lambda>x. let e = obj_event x in
       Inr (st\<lparr>interest := (interest st)(ev_fd e := None), evmap := (evmap st)(ev_fd e := None),
         doomed := (if ev_auto_delete e then set_insert a (doomed st) else doomed st), ev_count := ev_count st - 1\<rparr>))"

definition rearm_event :: "server \<Rightarrow> addr \<Rightarrow> server result" where
  "rearm_event st a =
     rbind (load_obj st a) (\<lambda>x. let e = obj_event x in
       Inr (if interest st (ev_fd e) = None then st
            else st\<lparr>interest := (interest st)(ev_fd e \<mapsto> (ev_once e, True))\<rparr>))"

definition register_event :: "server \<Rightarrow> addr \<Rightarrow> server result" where
  "register_event st a =
     rbind (load_obj st a) (\<lambda>x. let e = obj_event x; fd = ev_fd e in
       Inr (st\<lparr>interest := (if interest st fd = None then (interest st)(fd \<mapsto> (ev_once e, True)) else interest st),
         evmap := (if evmap st fd = None then (evmap st)(fd \<mapsto> a) else evmap st), ev_count := ev_count st + 1\<rparr>))"

text \<open>\<open>epoll_wait\<close> disables the descriptors it reports that are to be reported once.\<close>

definition epoll_report :: "nat list \<Rightarrow> server \<Rightarrow> server" where
  "epoll_report fds st =
     st\<lparr>interest := (\<lambda>fd. map_option (\<lambda>(once, on). (once, on \<and> \<not> (once \<and> fd \<in> set fds))) (interest st fd))\<rparr>"

section \<open>Writing\<close>

definition writer_rearm :: "server \<Rightarrow> addr \<Rightarrow> server result" where
  "writer_rearm st w =
     rbind (load_obj st w) (\<lambda>x. case x of
         Writer e c armed \<Rightarrow> if armed then Inr st else rbind (rearm_event st w) (\<lambda>st. Inr (store_obj st w (Writer e c True)))
       | _ \<Rightarrow> Inl Uninitialised)"

text \<open>The write buffer of a connection, through the pointer a writer has.\<close>

definition write_buf :: "server \<Rightarrow> addr \<Rightarrow> cbuf result" where
  "write_buf st c =
     rbind (load_obj st c) (\<lambda>x. case x of Conn e rb wb w \<Rightarrow> Inr wb | _ \<Rightarrow> Inl Uninitialised)"

definition set_write_buf :: "server \<Rightarrow> addr \<Rightarrow> cbuf \<Rightarrow> server result" where
  "set_write_buf st c wb =
     rbind (load_obj st c) (\<lambda>x. case x of
         Conn e rb _ w \<Rightarrow> Inr (store_obj st c (Conn e rb wb w)) | _ \<Rightarrow> Inl Uninitialised)"

text \<open>
  \<open>SocketWriter::eventHandler\<close>: \<open>r1\<close> and \<open>r2\<close> are what the calls of \<open>write\<close> return, \<open>again\<close> says whether \<open>errno\<close> is
  \<open>EAGAIN\<close> or \<open>EWOULDBLOCK\<close>.
\<close>

definition writer_handler :: "server \<Rightarrow> addr \<Rightarrow> int \<Rightarrow> int \<Rightarrow> bool \<Rightarrow> (bool \<times> server) result" where
  "writer_handler st w r1 r2 again =
     rbind (load_obj st w) (\<lambda>x. case x of
         Writer e c armed \<Rightarrow>
           (let st = store_obj st w (Writer e c False)
            in rbind (write_buf st c) (\<lambda>b.
               let bsize = csize b
               in if bsize = 0 then Inr (True, st)
                  else rbind (cb_write_to_fd b r1 r2) (\<lambda>(r, sent, b).
                       rbind (set_write_buf st c b) (\<lambda>st.
                       let st = st\<lparr>wire := (wire st)(c := wire st c @ sent)\<rparr>
                       in rbind (if 0 < r \<and> r < int bsize then writer_rearm st w else Inr st) (\<lambda>st.
                          Inr (\<not> (r = 0 \<or> r < 0 \<and> \<not> again), st))))))
       | _ \<Rightarrow> Inl Uninitialised)"

text \<open>\<open>ClientSocket::write\<close>; \<open>fd\<close> is the descriptor \<open>dup\<close> returns for the writer.\<close>

definition cs_write :: "nat \<Rightarrow> addr \<Rightarrow> byte list \<Rightarrow> server \<Rightarrow> server result" where
  "cs_write fd c data st =
     (if data = [] then Inr st
      else rbind (load_obj st c) (\<lambda>x. case x of
          Conn e rb wb w \<Rightarrow>
            rbind (make_room (length data) wb) (\<lambda>wb. rbind (cb_write wb (map Some data)) (\<lambda>(_, wb).
            case w of
              Some a \<Rightarrow> writer_rearm (store_obj st c (Conn e rb wb (Some a))) a
            | None \<Rightarrow>
                let a = onext st; st = store_obj st c (Conn e rb wb (Some a));
                    st = store_obj st a (Writer (new_event fd True) c True)
                in register_event (st\<lparr>onext := a + 1\<rparr>) a))
        | _ \<Rightarrow> Inl Uninitialised))"

section \<open>Growing is enough\<close>

lemma bit_len_least: "0 < n \<Longrightarrow> 2 ^ (bit_len n - 1) \<le> n"
proof (induction n rule: bit_len.induct)
  case (1 n)
  show ?case
  proof (cases "n div 2 = 0")
    case True
    with 1(2) have "n = 1" by linarith
    then show ?thesis by (simp add: bit_len.simps)
  next
    case False
    then have "2 ^ (bit_len (n div 2) - 1) \<le> n div 2" using 1 by simp
    then have "2 * 2 ^ (bit_len (n div 2) - 1) \<le> n" by linarith
    moreover have "0 < bit_len (n div 2)" using False by (simp add: bit_len.simps)
    then have "2 * 2 ^ (bit_len (n div 2) - 1) = (2 :: nat) ^ bit_len (n div 2)" by (cases "bit_len (n div 2)") simp_all
    ultimately show ?thesis using 1(2) by (simp add: bit_len.simps [of n])
  qed
qed

lemma to_float_close: "7 * n \<le> 8 * to_float n"
proof (cases "bit_len n \<le> 24")
  case True
  then show ?thesis by (simp add: to_float_def)
next
  case False
  let ?u = "2 ^ (bit_len n - 24) :: nat"
  have n: "0 < n" using False by (cases "n = 0") (simp_all add: bit_len.simps)
  have "bit_len n - 1 = 23 + (bit_len n - 24)" using False by simp
  then have "2 ^ 23 * ?u = (2 :: nat) ^ (bit_len n - 1)" by (simp only: power_add)
  then have "2 ^ 23 * ?u \<le> n" using bit_len_least [OF n] by (simp only:)
  moreover have "8 * ?u \<le> 2 ^ 23 * ?u" by simp
  ultimately have "8 * ?u \<le> n" by (rule order_trans [rotated])
  moreover have "n div ?u * ?u + n mod ?u = n" by (rule div_mult_mod_eq)
  moreover have "n mod ?u < ?u" by simp
  moreover have "n div ?u * ?u \<le> to_float n" by (simp add: to_float_def Let_def)
  ultimately show ?thesis by linarith
qed

lemma grown_greater: "16 \<le> n \<Longrightarrow> n < grown n"
  using to_float_close [of n] to_float_close [of "3 * to_float n"] unfolding grown_def by linarith

lemma make_room_rel:
  "cb_rel b xs \<Longrightarrow> 16 \<le> capacity b \<Longrightarrow>
    \<exists>b'. make_room n b = Inr b' \<and> cb_rel b' xs \<and> length xs + n \<le> capacity b' \<and> capacity b \<le> capacity b' \<and>
      (cr b' = cr b \<or> cr b' = 0)"
proof (induction n b rule: make_room.induct)
  case (1 n b)
  have sz: "csize b = length xs" "length xs \<le> capacity b" using 1(2) by (simp_all add: cb_rel_def cb_rel_bounds)
  show ?case
  proof (cases "n \<le> cb_remaining_space b")
    case True
    with 1(2) sz show ?thesis by (intro exI [of _ b]) (simp add: make_room.simps [of n b] cb_remaining_space_def)
  next
    case False
    note g = grown_greater [OF 1(3)]
    obtain b1 where b1: "cb_resize b True (grown (capacity b)) = Inr b1" "cb_rel b1 xs" "capacity b1 = grown (capacity b)"
      using cb_resize_rel [OF 1(2), of "grown (capacity b)"] sz(2) g by auto
    have "make_room n b = make_room n b1" using False g b1(1) by (simp add: make_room.simps [of n b])
    moreover have "cr b1 = 0" using b1(1) by (auto simp: cb_resize_def Let_def rbind_eq_Inr_iff)
    ultimately show ?thesis using 1(1) [OF False _ b1(1,2)] b1(3) g 1(3) by auto
  qed
qed

lemma cb_write_cr: "cb_write b d = Inr (n, b') \<Longrightarrow> cr b' = cr b"
  by (auto simp: cb_write_def Let_def rbind_eq_Inr_iff split: if_splits)

section \<open>A writer empties its buffer\<close>

text \<open>The system takes at least one byte, and the second piece in full if it gets that far.\<close>

definition takes :: "cbuf \<Rightarrow> int \<times> int \<Rightarrow> bool" where
  "takes b rs \<longleftrightarrow>
     (let (r1, r2) = rs; k = min (csize b) (capacity b - cr b)
      in 0 < r1 \<and> r1 \<le> int k \<and> (r1 = int k \<and> k < csize b \<longrightarrow> r2 = int (csize b - k)))"

lemma write_to_fd_cr:
  "cb_write_to_fd b r1 r2 = Inr (n, s, b') \<Longrightarrow> cb_rel b xs \<Longrightarrow> cr b < capacity b \<Longrightarrow> cr b' < capacity b'"
  by (cases xs) (auto simp: cb_write_to_fd_def cb_reset_def cb_rel_def Let_def rbind_eq_Inr_iff split: if_splits)

lemma write_to_fd_takes:
  assumes r: "cb_rel b xs" and t: "takes b (r1, r2)"
  shows "\<exists>n b'. cb_write_to_fd b r1 r2 = Inr (int n, map Some (take n xs), b') \<and> 0 < n \<and> n \<le> length xs \<and>
    cb_rel b' (drop n xs) \<and> capacity b' = capacity b"
proof (cases "cr b + length xs \<le> capacity b")
  case True
  with r t have "0 < r1" "nat r1 \<le> length xs" by (auto simp: takes_def cb_rel_def)
  with cb_write_to_fd_linear [OF r True this] show ?thesis
    by (intro exI [of _ "nat r1"]) auto
next
  case False
  let ?k = "capacity b - cr b"
  have sz: "csize b = length xs" "?k < length xs" "cr b \<le> capacity b" using False r by (auto simp: cb_rel_def)
  with t have "0 < r1" "nat r1 < ?k \<or> nat r1 = ?k \<and> 0 < r2 \<and> nat r2 = length xs - ?k"
    by (auto simp: takes_def)
  with cb_write_to_fd_wrapped [OF r _ refl this] False sz show ?thesis
    by (fastforce split: if_splits)
qed

text \<open>The event of the writer is reported \<open>n\<close> times; \<open>k\<close> is what the system does at each time.\<close>

primrec writer_events :: "(nat \<Rightarrow> cbuf \<Rightarrow> int \<times> int) \<Rightarrow> nat \<Rightarrow> addr \<Rightarrow> addr \<Rightarrow> nat \<Rightarrow> server \<Rightarrow> server result" where
  "writer_events k fd w c 0 st = Inr st"
| "writer_events k fd w c (Suc n) st =
     rbind (writer_events k fd w c n st) (\<lambda>st. rbind (write_buf st c) (\<lambda>b.
     rbind (writer_handler (epoll_report [fd] st) w (fst (k n b)) (snd (k n b)) False) (\<lambda>(ok, st).
       if ok then Inr st else Inl Exits)))"

text \<open>
  The writer of a connection whose write buffer holds \<open>xs\<close>: it is armed if there is anything to send, and if it is armed
  its descriptor will be reported.
\<close>

definition writer_of :: "server \<Rightarrow> nat \<Rightarrow> addr \<Rightarrow> addr \<Rightarrow> byte list \<Rightarrow> bool" where
  "writer_of st fd w c xs \<longleftrightarrow>
     (\<exists>e armed e' rb wb on. objs st w = Some (Writer e c armed) \<and> ev_fd e = fd \<and> ev_once e \<and>
        objs st c = Some (Conn e' rb wb (Some w)) \<and> cb_rel wb xs \<and> 16 \<le> capacity wb \<and> cr wb < capacity wb \<and>
        interest st fd = Some (True, on) \<and> (armed \<longrightarrow> on) \<and> (xs \<noteq> [] \<longrightarrow> armed))"

lemma writer_event_step:
  assumes o: "writer_of st fd w c xs" and wc: "w \<noteq> c" and t: "\<And>b. cb_rel b xs \<Longrightarrow> xs \<noteq> [] \<Longrightarrow> cr b < capacity b \<Longrightarrow> takes b (rs b)"
  shows "\<exists>b n st'. write_buf st c = Inr b \<and>
    writer_handler (epoll_report [fd] st) w (fst (rs b)) (snd (rs b)) False = Inr (True, st') \<and>
    writer_of st' fd w c (drop n xs) \<and> wire st' c = wire st c @ map Some (take n xs) \<and> (xs \<noteq> [] \<longrightarrow> 0 < n)"
proof -
  obtain e armed e' rb wb on where st: "objs st w = Some (Writer e c armed)" "ev_fd e = fd" "ev_once e"
    "objs st c = Some (Conn e' rb wb (Some w))" "cb_rel wb xs" "interest st fd = Some (True, on)" "16 \<le> capacity wb"
    "cr wb < capacity wb"
    using o unfolding writer_of_def by fastforce
  have sz: "csize wb = length xs" using st(5) by (simp add: cb_rel_def)
  have b: "write_buf st c = Inr wb" using st(4) by (simp add: write_buf_def load_obj_def)
  show ?thesis
  proof (cases "xs = []")
    case True
    then show ?thesis
      using st sz b wc by (intro exI [of _ wb] exI [of _ 0])
        (auto simp: writer_handler_def load_obj_def store_obj_def write_buf_def epoll_report_def writer_of_def Let_def)
  next
    case False
    have tk: "takes wb (fst (rs wb), snd (rs wb))" using t [OF st(5) False st(8)] by simp
    obtain n b' where n: "cb_write_to_fd wb (fst (rs wb)) (snd (rs wb)) = Inr (int n, map Some (take n xs), b')" "0 < n"
      "n \<le> length xs" "cb_rel b' (drop n xs)" "capacity b' = capacity wb"
      using write_to_fd_takes [OF st(5) tk] by auto
    have cr: "cr b' < capacity b'" by (rule write_to_fd_cr [OF n(1) st(5,8)])
    show ?thesis
    proof (cases "n < length xs")
      case True
      then show ?thesis
        using st sz b wc n cr False by (intro exI [of _ wb] exI [of _ n])
          (auto simp: writer_handler_def load_obj_def store_obj_def write_buf_def set_write_buf_def writer_rearm_def
            rearm_event_def epoll_report_def writer_of_def Let_def)
    next
      case all: False
      then show ?thesis
        using st sz b wc n cr False by (intro exI [of _ wb] exI [of _ n])
          (auto simp: writer_handler_def load_obj_def store_obj_def write_buf_def set_write_buf_def
            epoll_report_def writer_of_def Let_def)
    qed
  qed
qed

lemma writer_events_drain:
  assumes o: "writer_of st fd w c xs" and wc: "w \<noteq> c" and t: "\<And>n b ys. cb_rel b ys \<Longrightarrow> ys \<noteq> [] \<Longrightarrow> cr b < capacity b \<Longrightarrow> takes b (k n b)"
  shows "\<exists>m st'. writer_events k fd w c n st = Inr st' \<and> min n (length xs) \<le> m \<and> m \<le> length xs \<and>
    writer_of st' fd w c (drop m xs) \<and> wire st' c = wire st c @ map Some (take m xs)"
proof (induction n)
  case 0
  with o show ?case by (intro exI [of _ 0] exI [of _ st]) simp
next
  case (Suc n)
  then obtain m st1 where 1: "writer_events k fd w c n st = Inr st1" "min n (length xs) \<le> m" "m \<le> length xs"
    "writer_of st1 fd w c (drop m xs)" "wire st1 c = wire st c @ map Some (take m xs)"
    by blast
  obtain b j st2 where 2: "write_buf st1 c = Inr b"
    "writer_handler (epoll_report [fd] st1) w (fst (k n b)) (snd (k n b)) False = Inr (True, st2)"
    "writer_of st2 fd w c (drop j (drop m xs))" "wire st2 c = wire st1 c @ map Some (take j (drop m xs))"
    "drop m xs \<noteq> [] \<longrightarrow> 0 < j"
    using writer_event_step [OF 1(4) wc t [of _ "drop m xs" n]] by blast
  let ?m = "min (m + j) (length xs)"
  have "drop j (drop m xs) = drop ?m xs" by (simp add: min_def add.commute)
  moreover have "take m xs @ take j (drop m xs) = take ?m xs" using 1(3) by (simp add: min_def take_add)
  moreover have "min (Suc n) (length xs) \<le> ?m" using 1(2,3) 2(5) by auto
  moreover have "writer_events k fd w c (Suc n) st = Inr st2" using 1(1) 2(1,2) by simp
  moreover have "wire st2 c = wire st c @ map Some (take m xs @ take j (drop m xs))" using 1(5) 2(4) by simp
  ultimately show ?case using 2(3) by (intro exI [of _ ?m] exI [of _ st2]) auto
qed

text \<open>What is handed to \<open>write\<close> is behind what waits.\<close>

lemma cs_write_of:
  assumes o: "writer_of st fd w c xs" and wc: "w \<noteq> c"
  shows "\<exists>st'. cs_write f c data st = Inr st' \<and> writer_of st' fd w c (xs @ data) \<and> wire st' = wire st"
proof (cases "data = []")
  case True
  with o show ?thesis by (simp add: cs_write_def)
next
  case False
  obtain e armed e' rb wb on where st: "objs st w = Some (Writer e c armed)" "ev_fd e = fd" "ev_once e"
    "objs st c = Some (Conn e' rb wb (Some w))" "cb_rel wb xs" "16 \<le> capacity wb" "interest st fd = Some (True, on)"
    "armed \<longrightarrow> on" "cr wb < capacity wb"
    using o unfolding writer_of_def by fastforce
  obtain b where b: "make_room (length data) wb = Inr b" "cb_rel b xs" "length xs + length data \<le> capacity b"
    "capacity wb \<le> capacity b" "cr b = cr wb \<or> cr b = 0"
    using make_room_rel [OF st(5,6)] by blast
  obtain b' where b': "cb_write b (map Some data) = Inr (length data, b')" "cb_rel b' (xs @ data)" "capacity b' = capacity b"
    using cb_write_rel [OF b(2,3)] by blast
  have "cr b' < capacity b'" using cb_write_cr [OF b'(1)] b(4,5) b'(3) st(6,9) by linarith
  then show ?thesis
    using st b b' wc False
    by (cases armed) (auto simp: cs_write_def writer_of_def load_obj_def store_obj_def writer_rearm_def rearm_event_def Let_def)
qed

text \<open>The first message makes the writer.\<close>

lemma cs_write_new:
  assumes "objs st c = Some (Conn e rb (cb_create n) None)" and "16 \<le> n" and "data \<noteq> []" and "onext st \<noteq> c"
    and "interest st f = None"
  shows "\<exists>st'. cs_write f c data st = Inr st' \<and> writer_of st' f (onext st) c data \<and> wire st' = wire st \<and>
    (evmap st f = None \<longrightarrow> evmap st' = (evmap st)(f \<mapsto> onext st))"
proof -
  obtain b where b: "make_room (length data) (cb_create n) = Inr b" "cb_rel b []" "length data \<le> capacity b" "n \<le> capacity b"
    "cr b = 0"
    using make_room_rel [OF cb_create_rel, of n "length data"] assms(2) by (auto simp: cb_create_def)
  obtain b' where b': "cb_write b (map Some data) = Inr (length data, b')" "cb_rel b' data" "capacity b' = capacity b"
    using cb_write_rel [OF b(2), of data] b(3) by auto
  have "cr b' < capacity b'" using cb_write_cr [OF b'(1)] b(4,5) b'(3) assms(2) by linarith
  then show ?thesis
    using assms b b' by (auto simp: cs_write_def writer_of_def load_obj_def store_obj_def register_event_def new_event_def Let_def)
qed

text \<open>
  When the contents lie in two pieces and the second call of \<open>write\<close> finds no room, the event is kept but the writer is
  not armed again: its descriptor stays disabled, and all bytes are still to be sent, the first piece a second time.
\<close>

lemma writer_stalls:
  assumes "writer_of st fd w c xs" and "w \<noteq> c" and "write_buf st c = Inr b" and "capacity b < cr b + length xs"
    and "k = capacity b - cr b" and "r < 0"
  shows "\<exists>st' e. writer_handler (epoll_report [fd] st) w (int k) r True = Inr (True, st') \<and>
    objs st' w = Some (Writer e c False) \<and> interest st' fd = Some (True, False) \<and> write_buf st' c = Inr b \<and>
    wire st' c = wire st c @ map Some (take k xs)"
proof -
  obtain e armed e' rb on where st: "objs st w = Some (Writer e c armed)" "ev_fd e = fd" "ev_once e"
    "objs st c = Some (Conn e' rb b (Some w))" "cb_rel b xs" "interest st fd = Some (True, on)" "cr b < capacity b"
    using assms(1,3) unfolding writer_of_def by (fastforce simp: write_buf_def load_obj_def)
  have sz: "csize b = length xs" using st(5) by (simp add: cb_rel_def)
  have k: "0 < k" "k < length xs" using st(7) assms(4,5) by simp_all
  have "capacity b \<le> cr b + length xs" using assms(4) by simp
  note g = ring_slice_two [OF st(5) order_refl this, folded assms(5)]
  have "cb_write_to_fd b (int k) r = Inr (r, map Some (take k xs), b)"
    using g assms(4,6) k sz by (simp add: cb_write_to_fd_def Let_def assms(5) [symmetric])
  then show ?thesis
    using st assms(2,4,6) sz
    by (auto simp: writer_handler_def load_obj_def store_obj_def write_buf_def set_write_buf_def epoll_report_def Let_def)
qed

section \<open>Properties\<close>

text \<open>C14: A message handed to \<open>ClientSocket::write\<close> while a writer is at work is sent: if the system takes at least one
  byte at each event, and the second piece of the buffer in full whenever it gets that far, the writer is reported until
  all that waited and the message are sent, in order and once, at the latest after as many events as there are bytes.\<close>
theorem writer_drains:
  assumes "writer_of st fd w c xs" and "w \<noteq> c" and "\<forall>n b ys. cb_rel b ys \<and> ys \<noteq> [] \<and> cr b < capacity b \<longrightarrow> takes b (k n b)"
  shows "\<exists>st1 st2. cs_write f c data st = Inr st1 \<and> writer_events k fd w c (length (xs @ data)) st1 = Inr st2 \<and>
    wire st2 c = wire st c @ map Some (xs @ data) \<and> writer_of st2 fd w c [] \<and>
    (\<forall>n < length (xs @ data). \<exists>stn m. writer_events k fd w c n st1 = Inr stn \<and> writer_of stn fd w c (drop m (xs @ data)) \<and>
      wire stn c = wire st c @ map Some (take m (xs @ data)) \<and> n \<le> m)"
proof -
  obtain st1 where st1: "cs_write f c data st = Inr st1" "writer_of st1 fd w c (xs @ data)" "wire st1 = wire st"
    using cs_write_of [OF assms(1,2)] by blast
  have d: "\<exists>m st'. writer_events k fd w c n st1 = Inr st' \<and> min n (length (xs @ data)) \<le> m \<and> m \<le> length (xs @ data) \<and>
      writer_of st' fd w c (drop m (xs @ data)) \<and> wire st' c = wire st1 c @ map Some (take m (xs @ data))" for n
    by (rule writer_events_drain [OF st1(2) assms(2)]) (use assms(3) in blast)
  obtain st2 where "writer_events k fd w c (length (xs @ data)) st1 = Inr st2" "writer_of st2 fd w c []"
    "wire st2 c = wire st c @ map Some (xs @ data)"
    using d [of "length (xs @ data)"] st1(3) by auto
  moreover have "\<forall>n < length (xs @ data). \<exists>stn m. writer_events k fd w c n st1 = Inr stn \<and>
      writer_of stn fd w c (drop m (xs @ data)) \<and> wire stn c = wire st c @ map Some (take m (xs @ data)) \<and> n \<le> m"
  proof (intro allI impI)
    fix n assume "n < length (xs @ data)"
    then show "\<exists>stn m. writer_events k fd w c n st1 = Inr stn \<and>
      writer_of stn fd w c (drop m (xs @ data)) \<and> wire stn c = wire st c @ map Some (take m (xs @ data)) \<and> n \<le> m"
      using d [of n] st1(3) by auto
  qed
  ultimately show ?thesis using st1(1) by blast
qed

lemma takes_all:
  assumes "cb_rel b ys" and "ys \<noteq> []" and "cr b < capacity b"
  shows "takes b (int (min (csize b) (capacity b - cr b)), int (csize b - (capacity b - cr b)))"
  using assms by (cases "csize b \<le> capacity b - cr b") (auto simp: takes_def cb_rel_def)

definition demo_sockets :: server where
  "demo_sockets = \<lparr>app = cpp_init, objs = [0 \<mapsto> Conn (new_event 5 False) (cb_create 16) (cb_create 16) None],
     onext = 1, evmap = Map.empty, doomed = [], ev_count = 0, interest = Map.empty, wire = (\<lambda>_. [])\<rparr>"

lemma writer_drains_witness:
  "\<exists>st st1 st2. cs_write 6 0 [0x6F] demo_sockets = Inr st \<and> cs_write 7 0 [0x6B] st = Inr st1 \<and>
     writer_events (\<lambda>_ b. (int (min (csize b) (capacity b - cr b)), int (csize b - (capacity b - cr b)))) 6 1 0 2 st1 = Inr st2 \<and>
     wire st2 0 = [Some 0x6F, Some 0x6B]"
proof -
  let ?k = "\<lambda>_ b. (int (min (csize b) (capacity b - cr b)), int (csize b - (capacity b - cr b)))"
  obtain st where st: "cs_write 6 0 [0x6F] demo_sockets = Inr st" "writer_of st 6 1 0 [0x6F]" "wire st = wire demo_sockets"
    using cs_write_new [of demo_sockets 0 "new_event 5 False" "cb_create 16" 16 "[0x6F]" 6] by (auto simp: demo_sockets_def)
  have k: "\<forall>n b ys. cb_rel b ys \<and> ys \<noteq> [] \<and> cr b < capacity b \<longrightarrow> takes b (?k n b)"
    using takes_all by blast
  have l: "length ([0x6F] @ [0x6B :: byte]) = 2" "wire st 0 @ map Some ([0x6F] @ [0x6B]) = [Some 0x6F, Some 0x6B]"
    by (simp_all add: st(3) demo_sockets_def)
  obtain st1 st2 where "cs_write 7 0 [0x6B] st = Inr st1" "writer_events ?k 6 1 0 2 st1 = Inr st2"
    "wire st2 0 = [Some 0x6F, Some 0x6B]"
    using writer_drains [OF st(2) zero_neq_one [symmetric] k, of 7 "[0x6B]", unfolded l] by (elim exE conjE)
  with st(1) show ?thesis by (intro exI conjI)
qed

end
