(* ===== verification/Cpp_Server.thy ===== *)
theory Cpp_Server
  imports Cpp_Sockets
begin

text \<open>
  The C++ tracker as a program: the event handlers of \<open>ClientSocket\<close>, \<open>ServerSocket\<close> and \<open>p2pListener\<close>, the main loop
  of \<open>EventManager\<close> and \<open>main.cpp\<close>. The requests are those of \<open>Cpp_Peer\<close>.
\<close>

section \<open>Handlers\<close>

text \<open>
  What the system calls of one handler return: the pieces \<open>read\<close> delivers and its last result, whether \<open>errno\<close> is
  \<open>EAGAIN\<close> at the end, the descriptor of \<open>dup\<close>, the two results of \<open>write\<close>, the accepted descriptors and what
  \<open>getsockname\<close> and \<open>getpeername\<close> say of each (\<open>None\<close> if one of them fails, which ends the program). \<open>sys_fuel\<close>
  bounds the lines \<open>readHandler\<close> takes from its buffer.
\<close>

record sys =
  sys_chunks :: "byte list list"
  sys_len :: int
  sys_again :: bool
  sys_dup :: nat
  sys_w1 :: int
  sys_w2 :: int
  sys_accepted :: "32 word list"
  sys_name :: "nat \<Rightarrow> 32 word option"
  sys_fuel :: nat

definition bytes_of :: "string \<Rightarrow> byte list" where
  "bytes_of s = map of_char s"

definition read_chunk :: "addr \<Rightarrow> byte list \<Rightarrow> server \<Rightarrow> server result" where
  "read_chunk c chunk st =
     rbind (load_obj st c) (\<lambda>x. case x of
         Conn e rb wb w \<Rightarrow>
           rbind (make_room (length chunk) rb) (\<lambda>rb. rbind (cb_write rb (map Some chunk)) (\<lambda>(_, rb).
             Inr (store_obj st c (Conn e rb wb w))))
       | _ \<Rightarrow> Inl Uninitialised)"

text \<open>\<open>readHandler\<close> of a \<open>Peer\<close>: the messages it writes go to the socket, in order.\<close>

definition run_read_handler :: "nat \<Rightarrow> nat \<Rightarrow> addr \<Rightarrow> server \<Rightarrow> (bool \<times> server) result" where
  "run_read_handler fuel fd c st =
     rbind (load_obj st c) (\<lambda>x. case x of
         Conn e rb wb w \<Rightarrow>
           rbind (load_xpeer (app st) c) (\<lambda>y.
           rbind (read_handler fuel rb (app st) c) (\<lambda>(go, rb, app').
           rbind (load_xpeer app' c) (\<lambda>y'.
           rbind (fold_result (cs_write fd c) (map bytes_of (drop (length (written y)) (written y')))
             (store_obj (st\<lparr>app := app'\<rparr>) c (Conn e rb wb w))) (\<lambda>st. Inr (go, st)))))
       | _ \<Rightarrow> Inl Uninitialised)"

definition client_handler :: "server \<Rightarrow> addr \<Rightarrow> sys \<Rightarrow> (bool \<times> server) result" where
  "client_handler st c s =
     rbind (fold_result (read_chunk c) (sys_chunks s) st) (\<lambda>st.
     rbind (run_read_handler (sys_fuel s) (sys_dup s) c st) (\<lambda>(go, st).
       if \<not> go then Inr (False, st) else Inr (sys_len s \<noteq> 0 \<and> sys_again s, st)))"

text \<open>An \<open>int\<close> in memory.\<close>

definition int_bytes :: "32 word \<Rightarrow> byte list" where
  "int_bytes s = [ucast s, ucast (drop_bit 8 s), ucast (drop_bit 16 s), ucast (drop_bit 24 s)]"

fun bytes_int :: "byte option list \<Rightarrow> 32 word result" where
  "bytes_int [Some a, Some b, Some c, Some d] =
     Inr (or (ucast a) (or (push_bit 8 (ucast b)) (or (push_bit 16 (ucast c)) (push_bit 24 (ucast d)))))"
| "bytes_int _ = Inl Uninitialised"

definition accept_one :: "32 word \<Rightarrow> cbuf \<Rightarrow> cbuf result" where
  "accept_one s lb = rbind (cb_write lb (map Some (int_bytes s))) (\<lambda>(_, lb). Inr lb)"

definition accept_peer :: "(nat \<Rightarrow> 32 word option) \<Rightarrow> nat \<Rightarrow> server \<Rightarrow> server result" where
  "accept_peer name fd st =
     (case name fd of
        None \<Rightarrow> Inl Exits
      | Some ip \<Rightarrow>
          let p = onext st;
              st = store_obj st p (Conn (schedule_auto_delete (new_event fd False)) (cb_create 32768) (cb_create 32768) None)
          in register_event (st\<lparr>onext := p + 1, app := store_xpeer (app st) p (new_peer ip)\<rparr>) p)"

lemma cb_read_csize: "cb_read b n = Inr (d, b') \<Longrightarrow> csize b' = csize b - n \<and> n \<le> csize b"
  by (auto simp: cb_read_def Let_def rbind_eq_Inr_iff split: if_splits)

function accept_handler :: "(nat \<Rightarrow> 32 word option) \<Rightarrow> cbuf \<Rightarrow> server \<Rightarrow> (bool \<times> cbuf \<times> server) result" where
  "accept_handler name lb st =
     (if csize lb = 0 then Inr (True, lb, st)
      else if csize lb < 4 then Inr (False, lb, st)
      else rbind (cb_read lb 4) (\<lambda>(d, lb). rbind (bytes_int d) (\<lambda>accepted.
           rbind (accept_peer name (unat accepted) st) (accept_handler name lb))))"
  by pat_completeness auto
termination
  by (relation "measure (\<lambda>(name, lb, st). csize lb)") (auto dest!: cb_read_csize)

declare accept_handler.simps [simp del]

definition set_listener_buf :: "server \<Rightarrow> addr \<Rightarrow> cbuf \<Rightarrow> server result" where
  "set_listener_buf st a lb =
     rbind (load_obj st a) (\<lambda>x. case x of Listener e _ \<Rightarrow> Inr (store_obj st a (Listener e lb)) | _ \<Rightarrow> Inl Uninitialised)"

definition listener_handler :: "server \<Rightarrow> addr \<Rightarrow> cbuf \<Rightarrow> sys \<Rightarrow> (bool \<times> server) result" where
  "listener_handler st a lb s =
     rbind (fold_result accept_one (sys_accepted s) lb) (\<lambda>lb.
     rbind (accept_handler (sys_name s) lb st) (\<lambda>(ok, lb, st).
     rbind (set_listener_buf st a lb) (\<lambda>st.
       if \<not> ok then Inr (False, st) else Inr (sys_again s, st))))"

text \<open>The virtual function.\<close>

definition event_handler :: "server \<Rightarrow> addr \<Rightarrow> sys \<Rightarrow> (bool \<times> server) result" where
  "event_handler st a s =
     rbind (load_obj st a) (\<lambda>x. case x of
         Listener e lb \<Rightarrow> listener_handler st a lb s
       | Conn e rb wb w \<Rightarrow> client_handler st a s
       | Writer e c armed \<Rightarrow> writer_handler st a (sys_w1 s) (sys_w2 s) (sys_again s))"

section \<open>The main loop\<close>

text \<open>The destructors: a connection takes its writer with it.\<close>

definition delete_obj :: "server \<Rightarrow> addr \<Rightarrow> server result" where
  "delete_obj st a =
     rbind (load_obj st a) (\<lambda>x. case x of
         Conn e rb wb w \<Rightarrow>
           rbind (case w of
                    None \<Rightarrow> Inr st
                  | Some b \<Rightarrow>
                      rbind (unregister_event st b) (\<lambda>st. rbind (load_obj st b) (\<lambda>_.
                        Inr (st\<lparr>objs := (objs st)(b := None)\<rparr>)))) (\<lambda>st.
             Inr (st\<lparr>objs := (objs st)(a := None), app := delete_peer (app st) a\<rparr>))
       | _ \<Rightarrow> Inr (st\<lparr>objs := (objs st)(a := None)\<rparr>))"

partial_function (option) clean_delete_list :: "server \<Rightarrow> server result option" where
  "clean_delete_list st =
     (case doomed st of
        [] \<Rightarrow> Some (Inr st)
      | a # as \<Rightarrow>
          (case delete_obj st a of
             Inl e \<Rightarrow> Some (Inl e)
           | Inr st \<Rightarrow> clean_delete_list (st\<lparr>doomed := remove1 a (doomed st)\<rparr>)))"

definition handle_ready :: "nat \<times> sys \<Rightarrow> server \<Rightarrow> server result" where
  "handle_ready ev st =
     (case evmap st (fst ev) of
        None \<Rightarrow> Inr st
      | Some a \<Rightarrow> rbind (event_handler st a (snd ev)) (\<lambda>(ok, st). if ok then Inr st else unregister_event st a))"

text \<open>One round of \<open>mainLoop\<close>: whether the loop goes on, and the state.\<close>

definition main_round :: "(nat \<times> sys) list \<Rightarrow> server \<Rightarrow> (bool \<times> server) result" where
  "main_round evs st =
     rbind (fold_result handle_ready evs (epoll_report (map fst evs) st)) (\<lambda>st.
       case clean_delete_list st of
         None \<Rightarrow> Inl Diverges
       | Some r \<Rightarrow> rbind r (\<lambda>st. Inr (ev_count st \<noteq> 0, st)))"

text \<open>\<open>main\<close>: the listener with descriptor \<open>fd\<close> is registered.\<close>

definition server_start :: "nat \<Rightarrow> server result" where
  "server_start fd =
     register_event
       \<lparr>app = cpp_init, objs = [0 \<mapsto> Listener (new_event fd False) (cb_create 32768)], onext = 1, evmap = Map.empty,
        doomed = [], ev_count = 0, interest = Map.empty, wire = (\<lambda>_. [])\<rparr> 0"

end
