(* ===== verification/Cpp_Loop.thy ===== *)
theory Cpp_Loop
  imports Cpp_Server
begin

text \<open>
  The life of the event objects: what every state of the main loop keeps as long as no writer fails, and what a failing
  writer does to the counter that ends the loop.
\<close>

section \<open>Shapes\<close>

text \<open>Of an object: its event and what it points to, not its buffers nor whether it is armed.\<close>

datatype shape =
    is_L: Sh_L (sh_event: event) cbuf
  | is_C: Sh_C (sh_event: event) "addr option"
  | is_W: Sh_W (sh_event: event) addr

fun shape_of :: "evobj \<Rightarrow> shape" where
  "shape_of (Listener e lb) = Sh_L e lb"
| "shape_of (Conn e rb wb w) = Sh_C e w"
| "shape_of (Writer e c armed) = Sh_W e c"

definition shp :: "server \<Rightarrow> addr \<Rightarrow> shape option" where
  "shp st a = map_option shape_of (objs st a)"

lemma shp_simps [simp]:
  "shp (st\<lparr>interest := i\<rparr>) = shp st" "shp (st\<lparr>wire := u\<rparr>) = shp st" "shp (st\<lparr>app := y\<rparr>) = shp st"
  "shp (st\<lparr>evmap := m\<rparr>) = shp st" "shp (st\<lparr>doomed := d\<rparr>) = shp st" "shp (st\<lparr>ev_count := n\<rparr>) = shp st"
  "shp (st\<lparr>onext := k\<rparr>) = shp st" "shp (st\<lparr>objs := (objs st)(a := None)\<rparr>) = (shp st)(a := None)"
  "shp (store_obj st a x) = (shp st)(a \<mapsto> shape_of x)"
  by (rule ext, simp add: shp_def store_obj_def)+

definition fresh_fd :: "server \<Rightarrow> nat \<Rightarrow> bool" where
  "fresh_fd st fd \<longleftrightarrow> (\<forall>a s. shp st a = Some s \<longrightarrow> ev_fd (sh_event s) \<noteq> fd)"

text \<open>
  What is registered is an object of the descriptor; descriptors are of one object each; addresses are handed out in
  order; listeners stay and have read all they accepted; writers are registered and belong to a connection, which has
  them; connections are deleted with the manager's set, in which they are exactly when they are no longer registered; the
  counter counts.
\<close>

definition inv_reg :: "server \<Rightarrow> bool" where
  "inv_reg st \<longleftrightarrow> (\<forall>fd a. evmap st fd = Some a \<longrightarrow> (\<exists>s. shp st a = Some s \<and> ev_fd (sh_event s) = fd))"

definition inv_fds :: "server \<Rightarrow> bool" where
  "inv_fds st \<longleftrightarrow> (\<forall>a b s t. shp st a = Some s \<longrightarrow> shp st b = Some t \<longrightarrow> ev_fd (sh_event s) = ev_fd (sh_event t) \<longrightarrow> a = b)"

definition inv_next :: "server \<Rightarrow> bool" where
  "inv_next st \<longleftrightarrow> (\<forall>a \<ge> onext st. shp st a = None)"

definition inv_listener :: "server \<Rightarrow> bool" where
  "inv_listener st \<longleftrightarrow> (\<forall>a e lb. shp st a = Some (Sh_L e lb) \<longrightarrow> \<not> ev_auto_delete e \<and> cb_rel lb [])"

definition inv_writer :: "server \<Rightarrow> bool" where
  "inv_writer st \<longleftrightarrow> (\<forall>b e c. shp st b = Some (Sh_W e c) \<longrightarrow>
     \<not> ev_auto_delete e \<and> evmap st (ev_fd e) = Some b \<and> (\<exists>e'. shp st c = Some (Sh_C e' (Some b))))"

definition inv_conn :: "server \<Rightarrow> bool" where
  "inv_conn st \<longleftrightarrow> (\<forall>a e w. shp st a = Some (Sh_C e w) \<longrightarrow>
     ev_auto_delete e \<and> (a \<in> set (doomed st) \<longleftrightarrow> evmap st (ev_fd e) = None) \<and> (\<forall>b. w = Some b \<longrightarrow> (\<exists>e'. shp st b = Some (Sh_W e' a))))"

definition inv_doomed :: "server \<Rightarrow> bool" where
  "inv_doomed st \<longleftrightarrow> sorted (doomed st) \<and> distinct (doomed st) \<and> (\<forall>a \<in> set (doomed st). \<exists>e w. shp st a = Some (Sh_C e w))"

definition inv_count :: "server \<Rightarrow> bool" where
  "inv_count st \<longleftrightarrow> finite (dom (evmap st)) \<and> ev_count st = of_nat (card (dom (evmap st)))"

lemmas inv_defs = inv_reg_def inv_fds_def inv_next_def inv_listener_def inv_writer_def inv_conn_def inv_doomed_def inv_count_def

definition srv_inv :: "server \<Rightarrow> bool" where
  "srv_inv st \<longleftrightarrow> inv_reg st \<and> inv_fds st \<and> inv_next st \<and> inv_listener st \<and> inv_writer st \<and> inv_conn st \<and> inv_doomed st \<and>
     inv_count st"

text \<open>Everything the invariant looks at is the same.\<close>

definition same_shape :: "server \<Rightarrow> server \<Rightarrow> bool" where
  "same_shape st st' \<longleftrightarrow> shp st' = shp st \<and> evmap st' = evmap st \<and> onext st' = onext st \<and> doomed st' = doomed st \<and>
     ev_count st' = ev_count st"

lemma same_shape_inv: "same_shape st st' \<Longrightarrow> srv_inv st \<Longrightarrow> srv_inv st'"
  by (simp add: same_shape_def srv_inv_def inv_defs)

lemma same_shape_refl [simp]: "same_shape st st"
  by (simp add: same_shape_def)

lemma same_shape_trans: "same_shape st st1 \<Longrightarrow> same_shape st1 st2 \<Longrightarrow> same_shape st st2"
  by (simp add: same_shape_def)

lemma same_shape_store: "objs st a = Some x \<Longrightarrow> shape_of x' = shape_of x \<Longrightarrow> same_shape st (store_obj st a x')"
  by (auto simp: same_shape_def shp_def store_obj_def)

lemma fold_result_same:
  "(\<And>x st st'. f x st = Inr st' \<Longrightarrow> same_shape st st') \<Longrightarrow> fold_result f xs st = Inr st' \<Longrightarrow> same_shape st st'"
proof (induction xs arbitrary: st)
  case (Cons x xs)
  then show ?case by (fastforce simp: rbind_eq_Inr_iff intro: same_shape_trans)
qed simp

lemma read_chunk_same: "read_chunk c chunk st = Inr st' \<Longrightarrow> same_shape st st'"
  by (auto simp: read_chunk_def load_obj_def rbind_eq_Inr_iff intro!: same_shape_store split: option.splits evobj.splits)

lemma rearm_event_same: "rearm_event st a = Inr st' \<Longrightarrow> same_shape st st' \<and> objs st' = objs st"
  by (auto simp: rearm_event_def rbind_eq_Inr_iff same_shape_def shp_def Let_def)

lemma writer_rearm_same: "writer_rearm st a = Inr st' \<Longrightarrow> same_shape st st'"
proof -
  assume a: "writer_rearm st a = Inr st'"
  then obtain e c armed where x: "objs st a = Some (Writer e c armed)"
    by (auto simp: writer_rearm_def load_obj_def rbind_eq_Inr_iff split: option.splits evobj.splits)
  show ?thesis
  proof (cases armed)
    case True
    with a x show ?thesis by (simp add: writer_rearm_def load_obj_def)
  next
    case False
    with a x obtain st1 where "rearm_event st a = Inr st1" "st' = store_obj st1 a (Writer e c True)"
      by (auto simp: writer_rearm_def load_obj_def rbind_eq_Inr_iff)
    with rearm_event_same [of st a st1] x same_shape_store [of st1 a "Writer e c armed" "Writer e c True"] show ?thesis
      by (auto intro: same_shape_trans)
  qed
qed

lemma epoll_report_same: "same_shape st (epoll_report fds st)"
  by (simp add: same_shape_def epoll_report_def)

lemma set_write_buf_same: "set_write_buf st c b = Inr st' \<Longrightarrow> same_shape st st'"
  by (auto simp: set_write_buf_def load_obj_def rbind_eq_Inr_iff intro!: same_shape_store split: option.splits evobj.splits)

lemma wire_same: "same_shape st (st\<lparr>wire := x\<rparr>)" "same_shape st (st\<lparr>app := y\<rparr>)"
  by (simp_all add: same_shape_def)

lemma writer_handler_same: "writer_handler st w r1 r2 again = Inr (ok, st') \<Longrightarrow> same_shape st st'"
proof -
  assume h: "writer_handler st w r1 r2 again = Inr (ok, st')"
  then obtain e c armed where x: "objs st w = Some (Writer e c armed)"
    by (auto simp: writer_handler_def load_obj_def rbind_eq_Inr_iff split: option.splits evobj.splits)
  let ?st = "store_obj st w (Writer e c False)"
  have s: "same_shape st ?st" by (rule same_shape_store [OF x]) simp
  obtain b where b: "write_buf ?st c = Inr b" using h x by (auto simp: writer_handler_def load_obj_def rbind_eq_Inr_iff Let_def)
  show ?thesis
  proof (cases "csize b = 0")
    case True
    with h x b s show ?thesis by (simp add: writer_handler_def load_obj_def)
  next
    case False
    with h x b obtain r sent b' st1 where st1: "set_write_buf ?st c b' = Inr st1" and
      r: "(if 0 < r \<and> r < int (csize b) then writer_rearm (st1\<lparr>wire := (wire st1)(c := wire st1 c @ sent)\<rparr>) w
        else Inr (st1\<lparr>wire := (wire st1)(c := wire st1 c @ sent)\<rparr>)) = Inr st'"
      by (auto simp: writer_handler_def load_obj_def rbind_eq_Inr_iff Let_def)
    have "same_shape st (st1\<lparr>wire := (wire st1)(c := wire st1 c @ sent)\<rparr>)"
      using same_shape_trans [OF s same_shape_trans [OF set_write_buf_same [OF st1] wire_same(1)]] .
    with r writer_rearm_same show ?thesis by (auto split: if_splits intro: same_shape_trans)
  qed
qed

section \<open>Registering\<close>

lemma reg_obj: "srv_inv st \<Longrightarrow> evmap st fd = Some a \<Longrightarrow> \<exists>s. shp st a = Some s \<and> ev_fd (sh_event s) = fd"
  by (simp add: srv_inv_def inv_reg_def)

lemma fd_obj: "srv_inv st \<Longrightarrow> shp st a = Some s \<Longrightarrow> shp st b = Some t \<Longrightarrow> ev_fd (sh_event s) = ev_fd (sh_event t) \<Longrightarrow> a = b"
  unfolding srv_inv_def inv_fds_def by blast

lemma next_obj: "srv_inv st \<Longrightarrow> onext st \<le> a \<Longrightarrow> shp st a = None"
  by (simp add: srv_inv_def inv_next_def)

lemma listener_obj: "srv_inv st \<Longrightarrow> shp st a = Some (Sh_L e lb) \<Longrightarrow> \<not> ev_auto_delete e \<and> cb_rel lb []"
  unfolding srv_inv_def inv_listener_def by blast

lemma writer_obj: "srv_inv st \<Longrightarrow> shp st b = Some (Sh_W e c) \<Longrightarrow>
    \<not> ev_auto_delete e \<and> evmap st (ev_fd e) = Some b \<and> (\<exists>e'. shp st c = Some (Sh_C e' (Some b)))"
  unfolding srv_inv_def inv_writer_def by blast

lemma conn_obj: "srv_inv st \<Longrightarrow> shp st a = Some (Sh_C e w) \<Longrightarrow>
    ev_auto_delete e \<and> (a \<in> set (doomed st) \<longleftrightarrow> evmap st (ev_fd e) = None) \<and> (\<forall>b. w = Some b \<longrightarrow> (\<exists>e'. shp st b = Some (Sh_W e' a)))"
  unfolding srv_inv_def inv_conn_def by blast

lemma doomed_obj: "srv_inv st \<Longrightarrow> sorted (doomed st) \<and> distinct (doomed st) \<and> (\<forall>a \<in> set (doomed st). \<exists>e w. shp st a = Some (Sh_C e w))"
  unfolding srv_inv_def inv_doomed_def by blast

lemma count_obj: "srv_inv st \<Longrightarrow> finite (dom (evmap st)) \<and> ev_count st = of_nat (card (dom (evmap st)))"
  unfolding srv_inv_def inv_count_def by blast

lemma fresh_evmap: "srv_inv st \<Longrightarrow> fresh_fd st fd \<Longrightarrow> evmap st fd = None"
  using reg_obj [of st fd] unfolding fresh_fd_def by (cases "evmap st fd") auto

text \<open>What was registered stays, and what was there keeps its event.\<close>

definition ids :: "server \<Rightarrow> addr \<Rightarrow> (event \<times> bool) option" where
  "ids st a = map_option (\<lambda>s. (sh_event s, is_W s)) (shp st a)"

definition extends :: "server \<Rightarrow> server \<Rightarrow> bool" where
  "extends st st' \<longleftrightarrow> evmap st \<subseteq>\<^sub>m evmap st' \<and> ids st \<subseteq>\<^sub>m ids st'"

lemma extends_same: "same_shape st st' \<Longrightarrow> extends st st'"
  by (simp add: extends_def same_shape_def ids_def map_le_def)

lemma extends_refl [simp]: "extends st st"
  by (simp add: extends_def)

lemma extends_trans: "extends st st1 \<Longrightarrow> extends st1 st2 \<Longrightarrow> extends st st2"
  unfolding extends_def by (blast intro: map_le_trans)

lemma extends_reg: "extends st st' \<Longrightarrow> evmap st fd = Some a \<Longrightarrow> evmap st' fd = Some a"
  by (auto simp: extends_def map_le_def dom_def)

lemma extends_obj: "extends st st' \<Longrightarrow> shp st a = Some s \<Longrightarrow> \<exists>s'. shp st' a = Some s' \<and> sh_event s' = sh_event s \<and> is_W s' = is_W s"
proof -
  assume a: "extends st st'" "shp st a = Some s"
  then have "ids st a = Some (sh_event s, is_W s)" by (simp add: ids_def)
  then have "ids st' a = Some (sh_event s, is_W s)" using a(1) unfolding extends_def map_le_def by (metis domI)
  then show ?thesis by (auto simp: ids_def)
qed

lemma card_add: "finite (dom m) \<Longrightarrow> m fd = None \<Longrightarrow> (of_nat (card (dom (m(fd \<mapsto> a)))) :: 32 word) = of_nat (card (dom m)) + 1"
  by (simp add: domIff)

lemma card_remove: "finite (dom m) \<Longrightarrow> m fd = Some a \<Longrightarrow> (of_nat (card (dom (m(fd := None)))) :: 32 word) = of_nat (card (dom m)) - 1"
proof -
  assume a: "finite (dom m)" "m fd = Some a"
  then have "card (dom m) = Suc (card (dom m - {fd}))" by (intro card.remove) auto
  then show ?thesis by (simp add: dom_fun_upd)
qed

lemma new_writer_inv:
  assumes i: "srv_inv st" and c: "shp st c = Some (Sh_C e None)" and f: "fresh_fd st fd"
    and st': "shp st' = (shp st)(c \<mapsto> Sh_C e (Some (onext st)), onext st \<mapsto> Sh_W (new_event fd True) c)"
      "evmap st' = (evmap st)(fd \<mapsto> onext st)" "onext st' = onext st + 1" "doomed st' = doomed st" "ev_count st' = ev_count st + 1"
  shows "srv_inv st' \<and> extends st st'"
proof -
  let ?b = "onext st"
  have b: "shp st ?b = None" "?b \<noteq> c" using next_obj [OF i order_refl] c by auto
  have e: "ev_fd e \<noteq> fd" using f c unfolding fresh_fd_def by force
  have ff: "ev_fd (sh_event s) \<noteq> fd" if "shp st a = Some s" for a s using f that unfolding fresh_fd_def by blast
  have fd: "evmap st fd = None" by (rule fresh_evmap [OF i f])
  have "inv_reg st'"
    unfolding inv_reg_def st'
  proof (intro allI impI)
    fix x a assume "((evmap st)(fd \<mapsto> ?b)) x = Some a"
    then show "\<exists>s. ((shp st)(c \<mapsto> Sh_C e (Some ?b), ?b \<mapsto> Sh_W (new_event fd True) c)) a = Some s \<and> ev_fd (sh_event s) = x"
      using reg_obj [OF i, of x a] c b by (auto simp: new_event_def split: if_splits)
  qed
  moreover have "inv_fds st'"
    unfolding inv_fds_def st'
  proof (intro allI impI)
    fix x y s t
    assume "((shp st)(c \<mapsto> Sh_C e (Some ?b), ?b \<mapsto> Sh_W (new_event fd True) c)) x = Some s"
      "((shp st)(c \<mapsto> Sh_C e (Some ?b), ?b \<mapsto> Sh_W (new_event fd True) c)) y = Some t" "ev_fd (sh_event s) = ev_fd (sh_event t)"
    then show "x = y"
      using fd_obj [OF i, of x _ y] fd_obj [OF i c, of y] fd_obj [OF i _ c, of x] ff [of x] ff [of y] e b
      by (auto simp: new_event_def split: if_splits)
  qed
  moreover have "inv_next st'"
    using next_obj [OF i] c by (auto simp: inv_next_def st')
  moreover have "inv_listener st'"
    using listener_obj [OF i] by (auto simp: inv_listener_def st')
  moreover have "inv_writer st'"
    unfolding inv_writer_def st'
  proof (intro allI impI)
    fix x e1 c1 assume x: "((shp st)(c \<mapsto> Sh_C e (Some ?b), ?b \<mapsto> Sh_W (new_event fd True) c)) x = Some (Sh_W e1 c1)"
    show "\<not> ev_auto_delete e1 \<and> ((evmap st)(fd \<mapsto> ?b)) (ev_fd e1) = Some x \<and>
      (\<exists>e'. ((shp st)(c \<mapsto> Sh_C e (Some ?b), ?b \<mapsto> Sh_W (new_event fd True) c)) c1 = Some (Sh_C e' (Some x)))"
    proof (cases "x = ?b")
      case True
      with x b show ?thesis by (auto simp: new_event_def)
    next
      case False
      with x have x': "shp st x = Some (Sh_W e1 c1)" by (auto split: if_splits)
      from writer_obj [OF i this] ff [OF this] b c show ?thesis by auto
    qed
  qed
  moreover have "inv_conn st'"
    unfolding inv_conn_def st'
  proof (intro allI impI)
    fix x e1 w assume x: "((shp st)(c \<mapsto> Sh_C e (Some ?b), ?b \<mapsto> Sh_W (new_event fd True) c)) x = Some (Sh_C e1 w)"
    show "ev_auto_delete e1 \<and> (x \<in> set (doomed st) \<longleftrightarrow> ((evmap st)(fd \<mapsto> ?b)) (ev_fd e1) = None) \<and> (\<forall>b. w = Some b \<longrightarrow>
      (\<exists>e'. ((shp st)(c \<mapsto> Sh_C e (Some ?b), ?b \<mapsto> Sh_W (new_event fd True) c)) b = Some (Sh_W e' x)))"
    proof (cases "x = c")
      case True
      with x b conn_obj [OF i c] e show ?thesis by auto
    next
      case False
      with x b have x': "shp st x = Some (Sh_C e1 w)" by (auto split: if_splits)
      from conn_obj [OF i this] ff [OF this] b c False show ?thesis by auto
    qed
  qed
  moreover have "inv_doomed st'"
    using doomed_obj [OF i] b c by (auto simp: inv_doomed_def st')
  moreover have "inv_count st'"
    using count_obj [OF i] card_add [where m = "evmap st" and fd = fd] fd by (simp add: inv_count_def st')
  ultimately have "srv_inv st'" by (simp add: srv_inv_def)
  moreover have "extends st st'"
    using c fd b by (auto simp: extends_def map_le_def ids_def dom_def st')
  ultimately show ?thesis by blast
qed

lemma register_conn_inv:
  assumes i: "srv_inv st" and f: "fresh_fd st fd" and e: "ev_fd e = fd" "ev_auto_delete e"
    and st': "shp st' = (shp st)(onext st \<mapsto> Sh_C e None)" "evmap st' = (evmap st)(fd \<mapsto> onext st)" "onext st' = onext st + 1"
      "doomed st' = doomed st" "ev_count st' = ev_count st + 1"
  shows "srv_inv st' \<and> extends st st'"
proof -
  let ?b = "onext st"
  have b: "shp st ?b = None" using next_obj [OF i order_refl] by simp
  have ff: "ev_fd (sh_event s) \<noteq> fd" if "shp st a = Some s" for a s using f that unfolding fresh_fd_def by blast
  have fd: "evmap st fd = None" by (rule fresh_evmap [OF i f])
  have nd: "?b \<notin> set (doomed st)" using doomed_obj [OF i] b by auto
  have "inv_reg st'"
    using reg_obj [OF i] b e by (force simp: inv_reg_def st')
  moreover have "inv_fds st'"
    using fd_obj [OF i] ff e by (auto simp: inv_fds_def st' dest: sym)
  moreover have "inv_next st'" using next_obj [OF i] by (auto simp: inv_next_def st')
  moreover have "inv_listener st'" using listener_obj [OF i] by (auto simp: inv_listener_def st')
  moreover have "inv_writer st'"
    using writer_obj [OF i] ff b by (fastforce simp: inv_writer_def st')
  moreover have "inv_conn st'"
    unfolding inv_conn_def st'
  proof (intro allI impI)
    fix x e1 w assume x: "((shp st)(?b \<mapsto> Sh_C e None)) x = Some (Sh_C e1 w)"
    show "ev_auto_delete e1 \<and> (x \<in> set (doomed st) \<longleftrightarrow> ((evmap st)(fd \<mapsto> ?b)) (ev_fd e1) = None) \<and> (\<forall>b. w = Some b \<longrightarrow>
      (\<exists>e'. ((shp st)(?b \<mapsto> Sh_C e None)) b = Some (Sh_W e' x)))"
    proof (cases "x = ?b")
      case True
      with x nd e show ?thesis by auto
    next
      case False
      with x have x': "shp st x = Some (Sh_C e1 w)" by simp
      from conn_obj [OF i this] ff [OF this] b show ?thesis by auto
    qed
  qed
  moreover have "inv_doomed st'" using doomed_obj [OF i] b by (auto simp: inv_doomed_def st')
  moreover have "inv_count st'"
    using count_obj [OF i] card_add [where m = "evmap st" and fd = fd] fd by (simp add: inv_count_def st')
  ultimately have "srv_inv st'" by (simp add: srv_inv_def)
  moreover have "extends st st'"
    using fd b by (auto simp: extends_def map_le_def ids_def dom_def st')
  ultimately show ?thesis by blast
qed

lemma unregister_inv:
  assumes i: "srv_inv st" and r: "evmap st fd = Some a" and s: "shp st a = Some s" "\<not> is_W s"
  shows "\<exists>st'. unregister_event st a = Inr st' \<and> srv_inv st'"
proof -
  have fd: "ev_fd (sh_event s) = fd" using reg_obj [OF i r] s by auto
  obtain x where x: "objs st a = Some x" "shape_of x = s" using s(1) by (auto simp: shp_def)
  have e: "obj_event x = sh_event s" using x(2) by (cases x) auto
  let ?st = "st\<lparr>interest := (interest st)(fd := None), evmap := (evmap st)(fd := None),
    doomed := (if ev_auto_delete (sh_event s) then set_insert a (doomed st) else doomed st), ev_count := ev_count st - 1\<rparr>"
  have u: "unregister_event st a = Inr ?st" using x e fd by (simp add: unregister_event_def load_obj_def Let_def)
  have c: "ev_auto_delete (sh_event s) \<longleftrightarrow> is_C s"
    using s listener_obj [OF i, of a] conn_obj [OF i, of a] by (cases s) auto
  have other: "ev_fd (sh_event t) \<noteq> fd" if "shp st b = Some t" "b \<noteq> a" for b t
    using fd_obj [OF i s(1) that(1)] fd that(2) by auto
  have d: "set (doomed ?st) = set (doomed st) \<union> (if is_C s then {a} else {})"
    using c by (simp add: set_insert_simps)
  have "inv_reg ?st" using reg_obj [OF i] by (auto simp: inv_reg_def)
  moreover have "inv_fds ?st" using fd_obj [OF i] by (simp add: inv_fds_def)
  moreover have "inv_next ?st" using next_obj [OF i] by (simp add: inv_next_def)
  moreover have "inv_listener ?st" using listener_obj [OF i] by (simp add: inv_listener_def)
  moreover have "inv_writer ?st"
    unfolding inv_writer_def
  proof (intro allI impI)
    fix b e1 c1 assume "shp ?st b = Some (Sh_W e1 c1)"
    then have b: "shp st b = Some (Sh_W e1 c1)" by simp
    moreover from b s have "b \<noteq> a" by auto
    ultimately show "\<not> ev_auto_delete e1 \<and> evmap ?st (ev_fd e1) = Some b \<and> (\<exists>e'. shp ?st c1 = Some (Sh_C e' (Some b)))"
      using writer_obj [OF i b] other [OF b] by simp
  qed
  moreover have "inv_conn ?st"
    unfolding inv_conn_def d
  proof (intro allI impI)
    fix b e1 w assume "shp ?st b = Some (Sh_C e1 w)"
    then have b: "shp st b = Some (Sh_C e1 w)" by simp
    show "ev_auto_delete e1 \<and> (b \<in> set (doomed st) \<union> (if is_C s then {a} else {}) \<longleftrightarrow> evmap ?st (ev_fd e1) = None) \<and>
      (\<forall>c1. w = Some c1 \<longrightarrow> (\<exists>e'. shp ?st c1 = Some (Sh_W e' b)))"
      using conn_obj [OF i b] other [OF b] s fd b by (cases "b = a") auto
  qed
  moreover have "inv_doomed ?st"
    using doomed_obj [OF i] s c by (cases s) (auto simp: inv_doomed_def set_insert_simps)
  moreover have "inv_count ?st"
    using count_obj [OF i] card_remove [where m = "evmap st", OF _ r] by (simp add: inv_count_def)
  ultimately show ?thesis using u by (auto simp: srv_inv_def)
qed

section \<open>The handlers\<close>

definition can_write :: "server \<Rightarrow> nat \<Rightarrow> addr \<Rightarrow> bool" where
  "can_write st fd c \<longleftrightarrow> fresh_fd st fd \<or> (\<exists>e b. shp st c = Some (Sh_C e (Some b)))"

lemma can_write_same: "same_shape st st' \<Longrightarrow> can_write st fd c \<Longrightarrow> can_write st' fd c"
  by (simp add: can_write_def same_shape_def fresh_fd_def)

lemma cs_write_inv:
  assumes w: "cs_write fd c data st = Inr st'" and i: "srv_inv st" and f: "can_write st fd c"
  shows "srv_inv st' \<and> extends st st' \<and> can_write st' fd c"
proof (cases "data = []")
  case True
  with assms show ?thesis by (simp add: cs_write_def)
next
  case False
  with w obtain e rb wb wr where c: "objs st c = Some (Conn e rb wb wr)"
    by (auto simp: cs_write_def load_obj_def rbind_eq_Inr_iff split: option.splits evobj.splits)
  show ?thesis
  proof (cases wr)
    case (Some a)
    with w c False obtain wb' where "writer_rearm (store_obj st c (Conn e rb wb' (Some a))) a = Inr st'"
      by (auto simp: cs_write_def load_obj_def rbind_eq_Inr_iff)
    with same_shape_store [OF c, of "Conn e rb wb' (Some a)"] Some have "same_shape st st'"
      by (auto dest: writer_rearm_same intro: same_shape_trans)
    with i f same_shape_inv extends_same can_write_same show ?thesis by blast
  next
    case None
    let ?a = "onext st"
    have sc: "shp st c = Some (Sh_C e None)" using c None by (simp add: shp_def)
    then have fr: "fresh_fd st fd" using f by (simp add: can_write_def)
    from w c False None obtain wb' where r: "register_event
        ((store_obj (store_obj st c (Conn e rb wb' (Some ?a))) ?a (Writer (new_event fd True) c True))\<lparr>onext := ?a + 1\<rparr>) ?a = Inr st'"
      by (auto simp: cs_write_def load_obj_def rbind_eq_Inr_iff Let_def)
    then have "shp st' = (shp st)(c \<mapsto> Sh_C e (Some ?a), ?a \<mapsto> Sh_W (new_event fd True) c)" "evmap st' = (evmap st)(fd \<mapsto> ?a)"
      "onext st' = ?a + 1" "doomed st' = doomed st" "ev_count st' = ev_count st + 1"
      using fresh_evmap [OF i fr] by (auto simp: register_event_def load_obj_def store_obj_def new_event_def shp_def Let_def fun_eq_iff)
    note n = new_writer_inv [OF i sc fr this]
    moreover have "?a \<noteq> c" using next_obj [OF i order_refl] sc by auto
    with \<open>shp st' = _\<close> have "can_write st' fd c" by (simp add: can_write_def)
    ultimately show ?thesis by blast
  qed
qed

lemma cs_writes_inv:
  "fold_result (cs_write fd c) ds st = Inr st' \<Longrightarrow> srv_inv st \<Longrightarrow> can_write st fd c \<Longrightarrow> srv_inv st' \<and> extends st st'"
proof (induction ds arbitrary: st)
  case (Cons d ds)
  then obtain st1 where st1: "cs_write fd c d st = Inr st1" "fold_result (cs_write fd c) ds st1 = Inr st'"
    by (auto simp: rbind_eq_Inr_iff)
  from cs_write_inv [OF st1(1) Cons.prems(2,3)] Cons.IH [OF st1(2)] show ?case by (blast intro: extends_trans)
qed simp

lemma run_read_handler_inv:
  assumes h: "run_read_handler fuel fd c st = Inr (go, st')" and i: "srv_inv st" and f: "fresh_fd st fd"
  shows "srv_inv st' \<and> extends st st'"
proof -
  from h obtain e rb wb w where c: "objs st c = Some (Conn e rb wb w)"
    by (auto simp: run_read_handler_def load_obj_def rbind_eq_Inr_iff split: option.splits evobj.splits)
  from h c obtain rb' app' ms where ms:
    "fold_result (cs_write fd c) ms (store_obj (st\<lparr>app := app'\<rparr>) c (Conn e rb' wb w)) = Inr st'"
    by (auto simp: run_read_handler_def load_obj_def rbind_eq_Inr_iff)
  have "same_shape st (store_obj (st\<lparr>app := app'\<rparr>) c (Conn e rb' wb w))"
    by (rule same_shape_trans [OF wire_same(2) same_shape_store [where x = "Conn e rb wb w"]]) (use c in simp_all)
  note s = same_shape_inv [OF this i] extends_same [OF this] can_write_same [OF this]
  have "can_write st fd c" using f by (simp add: can_write_def)
  from cs_writes_inv [OF ms s(1) s(3) [OF this]] s(2) show ?thesis by (blast intro: extends_trans)
qed

lemma client_handler_inv:
  assumes h: "client_handler st c s = Inr (ok, st')" and i: "srv_inv st" and f: "fresh_fd st (sys_dup s)"
  shows "srv_inv st' \<and> extends st st'"
proof -
  from h obtain st1 go st2 where st1: "fold_result (read_chunk c) (sys_chunks s) st = Inr st1"
    "run_read_handler (sys_fuel s) (sys_dup s) c st1 = Inr (go, st2)" "st' = st2"
    by (auto simp: client_handler_def rbind_eq_Inr_iff split: if_splits)
  have "same_shape st st1" by (rule fold_result_same [OF read_chunk_same st1(1)])
  with run_read_handler_inv [OF st1(2) same_shape_inv [OF this i]] f st1(3) extends_same [OF this] show ?thesis
    by (auto simp: fresh_fd_def same_shape_def intro: extends_trans)
qed

text \<open>Accepted descriptors go through the buffer unchanged.\<close>

lemma bytes_int_bytes: "bytes_int (map Some (int_bytes s)) = Inr s"
  unfolding int_bytes_def list.map bytes_int.simps sum.inject
proof (rule bit_word_eqI)
  fix n assume n: "n < LENGTH(32)"
  then consider "n < 8" | "8 \<le> n \<and> n < 16" | "16 \<le> n \<and> n < 24" | "24 \<le> n" by linarith
  then show "bit (or (ucast (ucast s :: byte) :: 32 word) (or (push_bit 8 (ucast (ucast (drop_bit 8 s) :: byte)))
      (or (push_bit 16 (ucast (ucast (drop_bit 16 s) :: byte))) (push_bit 24 (ucast (ucast (drop_bit 24 s) :: byte)))))) n = bit s n"
    using n by cases (auto simp: bit_simps)
qed

lemma length_int_bytes [simp]: "length (int_bytes s) = 4"
  by (simp add: int_bytes_def)

lemma accepts_rel:
  "fold_result accept_one ss lb = Inr lb' \<Longrightarrow> cb_rel lb xs \<Longrightarrow> cb_rel lb' (xs @ concat (map int_bytes ss))"
proof (induction ss arbitrary: lb xs)
  case (Cons s ss)
  then obtain n lb1 where lb1: "cb_write lb (map Some (int_bytes s)) = Inr (n, lb1)" "fold_result accept_one ss lb1 = Inr lb'"
    unfolding fold_result.simps accept_one_def [of s] rbind_assoc by (auto simp: rbind_eq_Inr_iff)
  have "length xs + length (int_bytes s) \<le> capacity lb"
    using lb1(1) Cons.prems(2) by (auto simp: cb_write_def cb_remaining_space_def cb_rel_def split: if_splits)
  from cb_write_rel [OF Cons.prems(2) this] lb1(1) have "cb_rel lb1 (xs @ int_bytes s)" by auto
  from Cons.IH [OF lb1(2) this] show ?case by simp
qed simp

lemma accept_peer_inv:
  assumes a: "accept_peer name fd st = Inr st'" and i: "srv_inv st" and f: "fresh_fd st fd"
  shows "srv_inv st' \<and> extends st st' \<and> (\<forall>g. g \<noteq> fd \<longrightarrow> fresh_fd st g \<longrightarrow> fresh_fd st' g)"
proof -
  let ?p = "onext st" and ?e = "schedule_auto_delete (new_event fd False)"
  from a obtain ip where "name fd = Some ip" by (auto simp: accept_peer_def split: option.splits)
  with a have st': "shp st' = (shp st)(?p \<mapsto> Sh_C ?e None)" "evmap st' = (evmap st)(fd \<mapsto> ?p)" "onext st' = ?p + 1"
    "doomed st' = doomed st" "ev_count st' = ev_count st + 1"
    using fresh_evmap [OF i f]
    by (auto simp: accept_peer_def register_event_def load_obj_def store_obj_def new_event_def schedule_auto_delete_def
      shp_def Let_def fun_eq_iff)
  have e: "ev_fd ?e = fd" "ev_auto_delete ?e" by (simp_all add: schedule_auto_delete_def new_event_def)
  from register_conn_inv [OF i f e st'] st'(1) e(1) show ?thesis by (auto simp: fresh_fd_def split: if_splits)
qed

lemma accept_handler_inv:
  "accept_handler name lb st = Inr (ok, lb', st') \<Longrightarrow> cb_rel lb (concat (map int_bytes ss)) \<Longrightarrow> srv_inv st \<Longrightarrow> distinct ss \<Longrightarrow>
    \<forall>s \<in> set ss. fresh_fd st (unat s) \<Longrightarrow> srv_inv st' \<and> extends st st' \<and> cb_rel lb' []"
proof (induction ss arbitrary: lb st)
  case Nil
  then have "csize lb = 0" by (simp add: cb_rel_def)
  with Nil show ?case by (simp add: accept_handler.simps [of name lb])
next
  case (Cons s ss)
  have sz: "csize lb = 4 + length (concat (map int_bytes ss))" using Cons.prems(2) by (simp add: cb_rel_def)
  obtain lb1 where lb1: "cb_read lb 4 = Inr (map Some (int_bytes s), lb1)" "cb_rel lb1 (concat (map int_bytes ss))"
    using cb_read_rel [OF Cons.prems(2), of 4] by auto
  with Cons.prems(1) sz obtain st1 where st1: "accept_peer name (unat s) st = Inr st1"
    "accept_handler name lb1 st1 = Inr (ok, lb', st')"
    by (auto simp: accept_handler.simps [of name lb] bytes_int_bytes rbind_eq_Inr_iff)
  have "fresh_fd st (unat s)" using Cons.prems(5) by simp
  note p = accept_peer_inv [OF st1(1) Cons.prems(3) this]
  have "unat t \<noteq> unat s" if "t \<in> set ss" for t using that Cons.prems(4) by (metis unsigned_word_eqI distinct.simps(2))
  with p Cons.prems(5) have "\<forall>t \<in> set ss. fresh_fd st1 (unat t)" by simp
  with Cons.IH [OF st1(2) lb1(2)] p Cons.prems(4) show ?case by (auto intro: extends_trans)
qed

text \<open>
  What the system may return: descriptors that are not in use, and no failure to a writer.
\<close>

definition sys_ok :: "server \<Rightarrow> nat \<Rightarrow> sys \<Rightarrow> bool" where
  "sys_ok st fd s \<longleftrightarrow> fresh_fd st (sys_dup s) \<and> distinct (sys_accepted s) \<and> (\<forall>t \<in> set (sys_accepted s). fresh_fd st (unat t)) \<and>
     (\<forall>a e c. evmap st fd = Some a \<longrightarrow> shp st a = Some (Sh_W e c) \<longrightarrow> sys_again s \<and> sys_w1 s \<noteq> 0 \<and> sys_w2 s \<noteq> 0)"

lemma writer_handler_again:
  assumes "writer_handler st w r1 r2 True = Inr (ok, st')" and "r1 \<noteq> 0" and "r2 \<noteq> 0"
  shows ok
  using assms
  by (auto simp: writer_handler_def load_obj_def rbind_eq_Inr_iff cb_write_to_fd_def Let_def
      split: option.splits evobj.splits if_splits)

lemma listener_handler_inv:
  assumes h: "listener_handler st a lb s = Inr (ok, st')" and i: "srv_inv st" and a: "objs st a = Some (Listener e lb)"
    and d: "distinct (sys_accepted s)" and f: "\<forall>t \<in> set (sys_accepted s). fresh_fd st (unat t)"
  shows "srv_inv st' \<and> extends st st'"
proof -
  from h obtain lb1 ok1 lb2 st1 where 1: "fold_result accept_one (sys_accepted s) lb = Inr lb1"
    "accept_handler (sys_name s) lb1 st = Inr (ok1, lb2, st1)" "set_listener_buf st1 a lb2 = Inr st'"
    by (auto simp: listener_handler_def rbind_eq_Inr_iff split: if_splits)
  have l: "shp st a = Some (Sh_L e lb)" using a by (simp add: shp_def)
  have "cb_rel lb1 (concat (map int_bytes (sys_accepted s)))" using accepts_rel [OF 1(1), of "[]"] listener_obj [OF i l] by simp
  note p = accept_handler_inv [OF 1(2) this i d f]
  obtain e' lb' where x: "objs st1 a = Some (Listener e' lb')" and st': "st' = store_obj st1 a (Listener e' lb2)"
    using 1(3) by (auto simp: set_listener_buf_def load_obj_def rbind_eq_Inr_iff split: option.splits evobj.splits)
  then have l1: "shp st1 a = Some (Sh_L e' lb')" by (simp add: shp_def)
  have i1: "srv_inv st1" and b: "cb_rel lb2 []" using p by auto
  have f: "shp st' = (shp st1)(a \<mapsto> Sh_L e' lb2)" "evmap st' = evmap st1" "onext st' = onext st1" "doomed st' = doomed st1"
    "ev_count st' = ev_count st1"
    by (simp_all add: st') (simp_all add: store_obj_def)
  have "inv_reg st'" using reg_obj [OF i1] l1 by (force simp: f inv_reg_def)
  moreover have "inv_fds st'"
    using fd_obj [OF i1] fd_obj [OF i1 l1] fd_obj [OF i1 _ l1] by (auto simp: f inv_fds_def)
  moreover have "inv_next st'" using next_obj [OF i1, of a] next_obj [OF i1] l1 by (auto simp: f inv_next_def)
  moreover have "inv_listener st'" using listener_obj [OF i1] l1 b by (auto simp: f inv_listener_def)
  moreover have "inv_writer st'"
    unfolding inv_writer_def f
  proof (intro allI impI)
    fix w e1 c assume "((shp st1)(a \<mapsto> Sh_L e' lb2)) w = Some (Sh_W e1 c)"
    then have "shp st1 w = Some (Sh_W e1 c)" by (auto split: if_splits)
    from writer_obj [OF i1 this] l1 show "\<not> ev_auto_delete e1 \<and> evmap st1 (ev_fd e1) = Some w \<and>
      (\<exists>e. ((shp st1)(a \<mapsto> Sh_L e' lb2)) c = Some (Sh_C e (Some w)))" by auto
  qed
  moreover have "inv_conn st'"
    unfolding inv_conn_def f
  proof (intro allI impI)
    fix c e1 w assume "((shp st1)(a \<mapsto> Sh_L e' lb2)) c = Some (Sh_C e1 w)"
    then have "shp st1 c = Some (Sh_C e1 w)" by (auto split: if_splits)
    from conn_obj [OF i1 this] l1 show "ev_auto_delete e1 \<and> (c \<in> set (doomed st1) \<longleftrightarrow> evmap st1 (ev_fd e1) = None) \<and>
      (\<forall>b. w = Some b \<longrightarrow> (\<exists>e. ((shp st1)(a \<mapsto> Sh_L e' lb2)) b = Some (Sh_W e c)))" by auto
  qed
  moreover have "inv_doomed st'" using doomed_obj [OF i1] l1 by (force simp: f inv_doomed_def)
  moreover have "inv_count st'" using count_obj [OF i1] by (simp add: f inv_count_def)
  ultimately have "srv_inv st'" by (simp add: srv_inv_def)
  moreover have "extends st1 st'"
    using l1 by (auto simp: f extends_def ids_def map_le_def)
  ultimately show ?thesis using p by (blast intro: extends_trans)
qed

lemma handle_ready_inv:
  assumes h: "handle_ready (fd, s) st = Inr st'" and i: "srv_inv st" and k: "sys_ok st fd s"
  shows "srv_inv st'"
proof (cases "evmap st fd")
  case None
  with h i show ?thesis by (simp add: handle_ready_def)
next
  case (Some a)
  obtain x where x: "objs st a = Some x" using reg_obj [OF i Some] by (auto simp: shp_def)
  from h Some obtain ok st1 where st1: "event_handler st a s = Inr (ok, st1)"
    "(if ok then Inr st1 else unregister_event st1 a) = Inr st'"
    by (auto simp: handle_ready_def rbind_eq_Inr_iff)
  have "srv_inv st1 \<and> extends st st1 \<and> (is_W (shape_of x) \<longrightarrow> ok)"
  proof (cases x)
    case (Listener e lb)
    with st1(1) x i k listener_handler_inv [of st a lb s ok st1 e] show ?thesis
      by (simp add: event_handler_def load_obj_def sys_ok_def)
  next
    case (Conn e rb wb w)
    with st1(1) x i k client_handler_inv [of st a s ok st1] show ?thesis
      by (simp add: event_handler_def load_obj_def sys_ok_def)
  next
    case (Writer e c armed)
    with x k Some have "sys_again s" "sys_w1 s \<noteq> 0" "sys_w2 s \<noteq> 0" by (auto simp: sys_ok_def shp_def)
    moreover from this st1(1) x Writer have w: "writer_handler st a (sys_w1 s) (sys_w2 s) True = Inr (ok, st1)"
      by (simp add: event_handler_def load_obj_def)
    ultimately show ?thesis
      using writer_handler_again [OF w] same_shape_inv [OF writer_handler_same [OF w] i]
        extends_same [OF writer_handler_same [OF w]] by blast
  qed
  then have 1: "srv_inv st1" "extends st st1" "is_W (shape_of x) \<longrightarrow> ok" by blast+
  show ?thesis
  proof (cases ok)
    case True
    with st1(2) 1 show ?thesis by simp
  next
    case False
    have "shp st a = Some (shape_of x)" using x by (simp add: shp_def)
    from extends_obj [OF 1(2) this] obtain s' where "shp st1 a = Some s'" "\<not> is_W s'" using 1(3) False by auto
    from unregister_inv [OF 1(1) extends_reg [OF 1(2) Some] this] st1(2) False show ?thesis by auto
  qed
qed

section \<open>Deleting\<close>

lemma delete_obj_inv:
  assumes i: "srv_inv st" and d: "doomed st = a # as"
  shows "\<exists>st'. delete_obj st a = Inr st' \<and> doomed (st'\<lparr>doomed := remove1 a (doomed st')\<rparr>) = as \<and>
    srv_inv (st'\<lparr>doomed := remove1 a (doomed st')\<rparr>)"
proof -
  obtain e w where a: "shp st a = Some (Sh_C e w)" using doomed_obj [OF i] d by auto
  note c = conn_obj [OF i a]
  have na: "evmap st fd \<noteq> Some a" for fd using reg_obj [OF i, of fd a] a c d by auto
  obtain rb wb where x: "objs st a = Some (Conn e rb wb w)"
    using a by (auto simp: shp_def elim: shape_of.elims)
  have as: "sorted as" "distinct as" "a \<notin> set as" "\<forall>b \<in> set as. \<exists>e w. shp st b = Some (Sh_C e w)"
    using doomed_obj [OF i] d by auto
  show ?thesis
  proof (cases w)
    case None
    define F where "F = st\<lparr>objs := (objs st)(a := None), app := delete_peer (app st) a, doomed := as\<rparr>"
    have f: "shp F = (shp st)(a := None)" "evmap F = evmap st" "onext F = onext st" "doomed F = as" "ev_count F = ev_count st"
      by (auto simp: F_def shp_def)
    have nw: "b \<noteq> a" if "shp st b = Some (Sh_W e1 b1)" for b e1 b1 using that a by auto
    have no: "c1 \<noteq> a" if "shp st b = Some (Sh_W e1 c1)" for b e1 c1 using writer_obj [OF i that] a None by auto
    have "inv_reg F" using reg_obj [OF i] na by (auto simp: inv_reg_def f)
    moreover have "inv_fds F" using fd_obj [OF i] by (auto simp: inv_fds_def f)
    moreover have "inv_next F" using next_obj [OF i] by (auto simp: inv_next_def f)
    moreover have "inv_listener F" using listener_obj [OF i] by (auto simp: inv_listener_def f)
    moreover have "inv_writer F" using writer_obj [OF i] no by (auto simp: inv_writer_def f)
    moreover have "inv_conn F" using conn_obj [OF i] d nw by (fastforce simp: inv_conn_def f)
    moreover have "inv_doomed F" using as by (auto simp: inv_doomed_def f)
    moreover have "inv_count F" using count_obj [OF i] by (simp add: inv_count_def f)
    ultimately have "srv_inv F" by (simp add: srv_inv_def)
    moreover have "delete_obj st a = Inr (st\<lparr>objs := (objs st)(a := None), app := delete_peer (app st) a\<rparr>)"
      using x None by (simp add: delete_obj_def load_obj_def)
    ultimately show ?thesis using d by (simp add: F_def)
  next
    case (Some b)
    with c obtain e1 where b: "shp st b = Some (Sh_W e1 a)" by auto
    note wb = writer_obj [OF i b]
    obtain armed where y: "objs st b = Some (Writer e1 a armed)"
      using b by (auto simp: shp_def elim: shape_of.elims)
    let ?fd = "ev_fd e1"
    have ab: "a \<noteq> b" using a b by auto
    define F where "F = st\<lparr>interest := (interest st)(?fd := None), evmap := (evmap st)(?fd := None), ev_count := ev_count st - 1,
      objs := (objs st)(b := None, a := None), app := delete_peer (app st) a, doomed := as\<rparr>"
    have f: "shp F = (shp st)(b := None, a := None)" "evmap F = (evmap st)(?fd := None)" "onext F = onext st" "doomed F = as"
      "ev_count F = ev_count st - 1"
      by (auto simp: F_def shp_def)
    have nb: "fd = ?fd" if "evmap st fd = Some b" for fd using reg_obj [OF i that] b by auto
    have of: "ev_fd (sh_event t) \<noteq> ?fd" if "shp st x = Some t" "x \<noteq> b" for x t
      using fd_obj [OF i that(1) b] that(2) by auto
    have ow: "c1 \<noteq> a" if "shp st x = Some (Sh_W e2 c1)" "x \<noteq> b" for x e2 c1
      using writer_obj [OF i that(1)] a Some that(2) by auto
    have oc: "w1 \<noteq> Some b \<and> w1 \<noteq> Some a" if "shp st x = Some (Sh_C e2 w1)" "x \<noteq> a" for x e2 w1
      using conn_obj [OF i that(1)] that(2) a b by auto
    have "inv_reg F"
      unfolding inv_reg_def f
    proof (intro allI impI)
      fix fd x assume "((evmap st)(?fd := None)) fd = Some x"
      then have "evmap st fd = Some x" "fd \<noteq> ?fd" by (auto split: if_splits)
      then show "\<exists>s. ((shp st)(b := None, a := None)) x = Some s \<and> ev_fd (sh_event s) = fd"
        using reg_obj [OF i, of fd x] na [of fd] nb [of fd] by auto
    qed
    moreover have "inv_fds F" using fd_obj [OF i] by (auto simp: inv_fds_def f)
    moreover have "inv_next F" using next_obj [OF i] by (auto simp: inv_next_def f)
    moreover have "inv_listener F" using listener_obj [OF i] by (auto simp: inv_listener_def f)
    moreover have "inv_writer F"
      unfolding inv_writer_def f
    proof (intro allI impI)
      fix x e2 c1 assume "((shp st)(b := None, a := None)) x = Some (Sh_W e2 c1)"
      then have x: "shp st x = Some (Sh_W e2 c1)" "x \<noteq> b" "x \<noteq> a" by (auto split: if_splits)
      moreover have "c1 \<noteq> b" using writer_obj [OF i x(1)] b by auto
      ultimately show "\<not> ev_auto_delete e2 \<and> ((evmap st)(?fd := None)) (ev_fd e2) = Some x \<and>
        (\<exists>e'. ((shp st)(b := None, a := None)) c1 = Some (Sh_C e' (Some x)))"
        using writer_obj [OF i x(1)] of [OF x(1,2)] ow [OF x(1,2)] by simp
    qed
    moreover have "inv_conn F"
      unfolding inv_conn_def f
    proof (intro allI impI)
      fix x e2 w1 assume "((shp st)(b := None, a := None)) x = Some (Sh_C e2 w1)"
      then have x: "shp st x = Some (Sh_C e2 w1)" "x \<noteq> b" "x \<noteq> a" by (auto split: if_splits)
      then show "ev_auto_delete e2 \<and> (x \<in> set as \<longleftrightarrow> ((evmap st)(?fd := None)) (ev_fd e2) = None) \<and>
        (\<forall>c1. w1 = Some c1 \<longrightarrow> (\<exists>e'. ((shp st)(b := None, a := None)) c1 = Some (Sh_W e' x)))"
        using conn_obj [OF i x(1)] of [OF x(1,2)] oc [OF x(1,3)] d by auto
    qed
    moreover have "inv_doomed F" using as b by (auto simp: inv_doomed_def f)
    moreover have "inv_count F"
      using count_obj [OF i] card_remove [where m = "evmap st" and fd = ?fd] wb by (simp add: inv_count_def f)
    ultimately have "srv_inv F" by (simp add: srv_inv_def)
    moreover have "delete_obj st a = Inr (st\<lparr>interest := (interest st)(?fd := None), evmap := (evmap st)(?fd := None),
        ev_count := ev_count st - 1, objs := (objs st)(b := None, a := None), app := delete_peer (app st) a\<rparr>)"
      using x y Some wb by (simp add: delete_obj_def load_obj_def unregister_event_def Let_def)
    ultimately show ?thesis using d by (simp add: F_def)
  qed
qed

lemma clean_delete_list_inv:
  "srv_inv st \<Longrightarrow> \<exists>st'. clean_delete_list st = Some (Inr st') \<and> srv_inv st' \<and> doomed st' = []"
proof (induction "doomed st" arbitrary: st)
  case Nil
  then show ?case by (intro exI [of _ st]) (simp add: clean_delete_list.simps [of st])
next
  case (Cons a as)
  obtain st1 where st1: "delete_obj st a = Inr st1" "doomed (st1\<lparr>doomed := remove1 a (doomed st1)\<rparr>) = as"
    "srv_inv (st1\<lparr>doomed := remove1 a (doomed st1)\<rparr>)"
    using delete_obj_inv [OF Cons.prems Cons.hyps(2) [symmetric]] by blast
  from Cons.hyps(1) [OF st1(2) [symmetric] st1(3)] st1(1) Cons.hyps(2) [symmetric] show ?case
    by (simp add: clean_delete_list.simps [of st])
qed

section \<open>Reachable states\<close>

text \<open>The steps of the main loop: waiting, handling a ready descriptor, and deleting.\<close>

inductive srv_reach :: "server \<Rightarrow> bool" where
  start: "server_start fd = Inr st \<Longrightarrow> srv_reach st"
| wait: "srv_reach st \<Longrightarrow> srv_reach (epoll_report fds st)"
| ready: "srv_reach st \<Longrightarrow> sys_ok st fd s \<Longrightarrow> handle_ready (fd, s) st = Inr st' \<Longrightarrow> srv_reach st'"
| clean: "srv_reach st \<Longrightarrow> clean_delete_list st = Some (Inr st') \<Longrightarrow> srv_reach st'"

lemma server_start_inv: "server_start fd = Inr st \<Longrightarrow> srv_inv st"
proof -
  assume a: "server_start fd = Inr st"
  let ?b = "cb_create 32768"
  have f: "shp st = [0 \<mapsto> Sh_L (new_event fd False) ?b]" "evmap st = [fd \<mapsto> 0]" "onext st = 1" "doomed st = []" "ev_count st = 1"
    using a by (auto simp: server_start_def register_event_def load_obj_def new_event_def shp_def Let_def fun_eq_iff)
  show ?thesis
    using cb_create_rel [of 32768] by (auto simp: srv_inv_def inv_defs f new_event_def split: if_splits)
qed

lemma srv_reach_inv: "srv_reach st \<Longrightarrow> srv_inv st"
proof (induction rule: srv_reach.induct)
  case (wait st fds)
  then show ?case by (blast intro: same_shape_inv epoll_report_same)
next
  case (clean st st')
  then show ?case using clean_delete_list_inv [OF clean.IH] by auto
qed (auto intro: server_start_inv handle_ready_inv)

lemma shp_Conn: "shp st a = Some (Sh_C e w) \<Longrightarrow> \<exists>rb wb. objs st a = Some (Conn e rb wb w)"
  by (auto simp: shp_def elim: shape_of.elims)

lemma shp_Writer: "shp st a = Some (Sh_W e c) \<Longrightarrow> \<exists>armed. objs st a = Some (Writer e c armed)"
  by (auto simp: shp_def elim: shape_of.elims)

lemma shp_event: "shp st a = Some s \<Longrightarrow> \<exists>x. objs st a = Some x \<and> obj_event x = sh_event s"
proof -
  have "obj_event x = sh_event (shape_of x)" for x by (cases x) simp_all
  moreover assume "shp st a = Some s"
  ultimately show ?thesis by (auto simp: shp_def)
qed

section \<open>A writer that fails\<close>

lemma write_to_fd_fails:
  assumes r: "cb_rel b xs" and f: "r1 < 0"
  shows "cb_write_to_fd b r1 r2 = Inr (r1, [], b)"
proof (cases "cr b + length xs \<le> capacity b")
  case True
  with ring_slice_one [OF r order_refl True] r f show ?thesis by (simp add: cb_write_to_fd_def cb_rel_def)
next
  case False
  then have "capacity b \<le> cr b + length xs" by simp
  from ring_slice_two [OF r order_refl this] False r f show ?thesis by (simp add: cb_write_to_fd_def cb_rel_def Let_def)
qed

lemma clean_none: "doomed st = [] \<Longrightarrow> clean_delete_list st = Some (Inr st)"
  by (simp add: clean_delete_list.simps [of st])

lemma clean_one:
  "doomed st = [c] \<Longrightarrow> delete_obj st c = Inr st' \<Longrightarrow> doomed st' = [c] \<Longrightarrow>
    clean_delete_list st = Some (Inr (st'\<lparr>doomed := []\<rparr>))"
  by (simp add: clean_delete_list.simps [of st] clean_none)

lemma round_writer_fails:
  assumes "objs st w = Some (Writer e' c armed)" and "objs st c = Some (Conn e rb wb wr)" and "evmap st (ev_fd e') = Some w"
    and "cb_rel wb xs" and "xs \<noteq> []" and "sys_w1 s < 0" and "\<not> sys_again s" and "doomed st = []" and "\<not> ev_auto_delete e'"
    and "w \<noteq> c"
  shows "\<exists>st1. main_round [(ev_fd e', s)] st = Inr (ev_count st \<noteq> 1, st1) \<and> objs st1 = (objs st)(w \<mapsto> Writer e' c False) \<and>
    evmap st1 = (evmap st)(ev_fd e' := None) \<and> doomed st1 = [] \<and> ev_count st1 = ev_count st - 1 \<and> app st1 = app st"
proof -
  let ?s0 = "epoll_report [ev_fd e'] st"
  let ?s1 = "(store_obj ?s0 w (Writer e' c False))\<lparr>wire := (wire st)(c := wire st c @ [])\<rparr>"
  let ?s2 = "?s1\<lparr>interest := (interest ?s1)(ev_fd e' := None), evmap := (evmap ?s1)(ev_fd e' := None), doomed := doomed ?s1,
    ev_count := ev_count ?s1 - 1\<rparr>"
  have sz: "csize wb \<noteq> 0" using assms(4,5) by (auto simp: cb_rel_def)
  have h: "writer_handler ?s0 w (sys_w1 s) (sys_w2 s) (sys_again s) = Inr (False, ?s1)"
    using assms sz write_to_fd_fails [OF assms(4,6)]
    by (simp add: writer_handler_def load_obj_def store_obj_def write_buf_def set_write_buf_def epoll_report_def Let_def fun_upd_idem)
  have "handle_ready (ev_fd e', s) ?s0 = Inr ?s2"
    using assms(1,3,9) h
    by (simp add: handle_ready_def event_handler_def load_obj_def unregister_event_def epoll_report_def store_obj_def Let_def)
  moreover have "clean_delete_list ?s2 = Some (Inr ?s2)"
    using assms(8) by (intro clean_none) (simp add: store_obj_def epoll_report_def)
  ultimately have "main_round [(ev_fd e', s)] st = Inr (ev_count ?s2 \<noteq> 0, ?s2)" by (simp add: main_round_def)
  then show ?thesis
    using assms(8) by (intro exI [of _ ?s2]) (simp add: store_obj_def epoll_report_def)
qed

lemma round_client_ends:
  assumes "objs st c = Some (Conn e rb wb (Some w))" and "objs st w = Some (Writer e' c armed)" and "evmap st (ev_fd e) = Some c"
    and "csize rb = 0" and "xpeers (app st) c = Some y" and "sys_chunks s = []" and "sys_len s = 0" and "0 < sys_fuel s"
    and "doomed st = []" and "ev_auto_delete e" and "\<not> ev_auto_delete e'" and "w \<noteq> c"
  shows "\<exists>st1. main_round [(ev_fd e, s)] st = Inr (ev_count st \<noteq> 2, st1) \<and>
    evmap st1 = (evmap st)(ev_fd e := None, ev_fd e' := None) \<and> ev_count st1 = ev_count st - 2"
proof -
  let ?s0 = "epoll_report [ev_fd e] st"
  let ?s1 = "store_obj (?s0\<lparr>app := app st\<rparr>) c (Conn e rb wb (Some w))"
  let ?s2 = "?s1\<lparr>interest := (interest ?s1)(ev_fd e := None), evmap := (evmap ?s1)(ev_fd e := None), doomed := [c],
    ev_count := ev_count ?s1 - 1\<rparr>"
  let ?s3 = "?s2\<lparr>interest := (interest ?s2)(ev_fd e' := None), evmap := (evmap ?s2)(ev_fd e' := None),
    ev_count := ev_count ?s2 - 1, objs := (objs ?s2)(w := None, c := None), app := delete_peer (app st) c, doomed := []\<rparr>"
  obtain n where n: "sys_fuel s = Suc n" using assms(8) by (cases "sys_fuel s") auto
  have "read_handler (sys_fuel s) rb (app st) c = Inr (True, rb, app st)" using assms(4) by (simp add: n)
  then have "client_handler ?s0 c s = Inr (False, ?s1)"
    using assms(1,5,6,7)
    by (simp add: client_handler_def run_read_handler_def load_obj_def load_xpeer_def epoll_report_def)
  then have "handle_ready (ev_fd e, s) ?s0 = Inr ?s2"
    using assms(1,3,9,10)
    by (simp add: handle_ready_def event_handler_def load_obj_def unregister_event_def epoll_report_def store_obj_def set_insert_def Let_def)
  moreover have "clean_delete_list ?s2 = Some (Inr ?s3)"
  proof -
    have "delete_obj ?s2 c = Inr (?s3\<lparr>doomed := [c]\<rparr>)"
      using assms(2,11,12) by (simp add: delete_obj_def load_obj_def unregister_event_def epoll_report_def store_obj_def Let_def)
    from clean_one [OF _ this] show ?thesis by simp
  qed
  ultimately have "main_round [(ev_fd e, s)] st = Inr (ev_count ?s3 \<noteq> 0, ?s3)" by (simp add: main_round_def)
  then show ?thesis
    by (intro exI [of _ ?s3]) (simp add: store_obj_def epoll_report_def)
qed

section \<open>Properties\<close>



text \<open>C15: When the writer of a connection fails and the connection is closed later, the counter goes down by three for the
  two descriptors that are taken out. If they and the listener were all there was, the main loop ends: the tracker stops
  serving although its listener is registered.\<close>
theorem writer_error_ends_loop:
  assumes "srv_inv st" and "doomed st = []" and "objs st c = Some (Conn e rb wb (Some w))" and "cb_rel wb xs" and "xs \<noteq> []"
    and "csize rb = 0" and "xpeers (app st) c \<noteq> None" and "sys_w1 s1 < 0" and "\<not> sys_again s1"
    and "sys_chunks s2 = []" and "sys_len s2 = 0" and "0 < sys_fuel s2"
  shows "\<exists>e' armed st1 st2 more. objs st w = Some (Writer e' c armed) \<and> main_round [(ev_fd e', s1)] st = Inr (more, st1) \<and>
    main_round [(ev_fd e, s2)] st1 = Inr (card (dom (evmap st)) mod 2 ^ 32 \<noteq> 3, st2) \<and>
    evmap st2 = (evmap st)(ev_fd e' := None, ev_fd e := None) \<and> ev_count st2 = ev_count st - 3"
proof -
  have c: "shp st c = Some (Sh_C e (Some w))" using assms(3) by (simp add: shp_def)
  obtain e' where w: "shp st w = Some (Sh_W e' c)" using conn_obj [OF assms(1) c] by auto
  obtain armed where x: "objs st w = Some (Writer e' c armed)" using shp_Writer [OF w] by auto
  obtain y where y: "xpeers (app st) c = Some y" using assms(7) by auto
  note ww = writer_obj [OF assms(1) w] and cc = conn_obj [OF assms(1) c]
  have wc: "w \<noteq> c" using w c by auto
  then have fd: "ev_fd e \<noteq> ev_fd e'" using fd_obj [OF assms(1) c w] by auto
  obtain a where "evmap st (ev_fd e) = Some a" using cc assms(2) by auto
  with reg_obj [OF assms(1) this] fd_obj [OF assms(1) _ c, of a] have ec: "evmap st (ev_fd e) = Some c" by auto
  obtain st1 where 1: "main_round [(ev_fd e', s1)] st = Inr (ev_count st \<noteq> 1, st1)" "objs st1 = (objs st)(w \<mapsto> Writer e' c False)"
    "evmap st1 = (evmap st)(ev_fd e' := None)" "doomed st1 = []" "ev_count st1 = ev_count st - 1" "app st1 = app st"
    using round_writer_fails [OF x assms(3) _ assms(4,5,8,9,2) _ wc] ww by blast
  have "objs st1 c = Some (Conn e rb wb (Some w))" "objs st1 w = Some (Writer e' c False)" "evmap st1 (ev_fd e) = Some c"
    "xpeers (app st1) c = Some y"
    using 1 assms(3) wc fd ec y by simp_all
  from round_client_ends [OF this(1-3) assms(6) this(4) assms(10-12) 1(4) _ _ wc] cc ww obtain st2 where
    2: "main_round [(ev_fd e, s2)] st1 = Inr (ev_count st1 \<noteq> 2, st2)" "evmap st2 = (evmap st1)(ev_fd e := None, ev_fd e' := None)"
    "ev_count st2 = ev_count st1 - 2"
    by blast
  have "ev_count st1 = 2 \<longleftrightarrow> ev_count st = 3" using 1(5) by (simp add: diff_eq_eq)
  also have "\<dots> \<longleftrightarrow> card (dom (evmap st)) mod 2 ^ 32 = 3"
    using count_obj [OF assms(1)] word_of_nat_eq_iff [where 'a = 32, of "card (dom (evmap st))" 3]
    by (simp add: take_bit_eq_mod)
  finally have n: "ev_count st1 \<noteq> 2 \<longleftrightarrow> card (dom (evmap st)) mod 2 ^ 32 \<noteq> 3" by simp
  have "evmap st2 = (evmap st)(ev_fd e' := None, ev_fd e := None)" using 2(2) 1(3) by auto
  moreover have "ev_count st2 = ev_count st - 3" using 2(3) 1(5) by simp
  ultimately show ?thesis using x 1(1) 2(1) unfolding n by blast
qed

text \<open>A listener, a connection and its writer.\<close>

definition demo_server :: server where
  "demo_server = \<lparr>app = store_xpeer cpp_init 1 (new_peer 16777343),
     objs = [0 \<mapsto> Listener (new_event 3 False) (cb_create 8),
       1 \<mapsto> Conn (schedule_auto_delete (new_event 4 False)) (cb_create 16)
         \<lparr>capacity = 4, csize = 1, cr = 0, cw = 1, cbytes = [Some 0x6F, None, None, None]\<rparr> (Some 2),
       2 \<mapsto> Writer (new_event 5 True) 1 True],
     onext = 3, evmap = [3 \<mapsto> 0, 4 \<mapsto> 1, 5 \<mapsto> 2], doomed = [], ev_count = 3,
     interest = [3 \<mapsto> (False, True), 4 \<mapsto> (False, True), 5 \<mapsto> (True, True)], wire = (\<lambda>_. [])\<rparr>"

definition sys_failed :: sys where
  "sys_failed = \<lparr>sys_chunks = [], sys_len = 0, sys_again = False, sys_dup = 9, sys_w1 = -1, sys_w2 = -1, sys_accepted = [],
     sys_name = (\<lambda>_. None), sys_fuel = 1\<rparr>"

lemma demo_server_inv: "srv_inv demo_server"
proof -
  have f: "shp demo_server = [0 \<mapsto> Sh_L (new_event 3 False) (cb_create 8),
      1 \<mapsto> Sh_C (schedule_auto_delete (new_event 4 False)) (Some 2), 2 \<mapsto> Sh_W (new_event 5 True) 1]"
    by (rule ext) (simp add: demo_server_def shp_def)
  have g: "evmap demo_server = [3 \<mapsto> 0, 4 \<mapsto> 1, 5 \<mapsto> 2]" "onext demo_server = 3" "doomed demo_server = []" "ev_count demo_server = 3"
    by (simp_all add: demo_server_def)
  have "inv_reg demo_server" by (simp add: inv_reg_def f g new_event_def schedule_auto_delete_def)
  moreover have "inv_fds demo_server"
    by (auto simp: inv_fds_def f new_event_def schedule_auto_delete_def split: if_splits)
  moreover have "inv_next demo_server" by (simp add: inv_next_def f g)
  moreover have "inv_listener demo_server"
    using cb_create_rel by (auto simp: inv_listener_def f new_event_def split: if_splits)
  moreover have "inv_writer demo_server" by (auto simp: inv_writer_def f g new_event_def split: if_splits)
  moreover have "inv_conn demo_server" by (auto simp: inv_conn_def f g new_event_def schedule_auto_delete_def split: if_splits)
  moreover have "inv_doomed demo_server" by (simp add: inv_doomed_def g)
  moreover have "inv_count demo_server" by (simp add: inv_count_def g)
  ultimately show ?thesis by (simp add: srv_inv_def)
qed

lemma writer_error_ends_loop_witness:
  "\<exists>st1 st2 more. main_round [(5, sys_failed)] demo_server = Inr (more, st1) \<and>
     main_round [(4, sys_failed)] st1 = Inr (False, st2) \<and> evmap st2 = [3 \<mapsto> 0]"
proof -
  let ?e = "schedule_auto_delete (new_event 4 False)"
  let ?wb = "\<lparr>capacity = 4, csize = 1, cr = 0, cw = 1, cbytes = [Some 0x6F, None, None, None]\<rparr>"
  have d: "doomed demo_server = []" "objs demo_server 1 = Some (Conn ?e (cb_create 16) ?wb (Some 2))"
    "objs demo_server 2 = Some (Writer (new_event 5 True) 1 True)" "evmap demo_server = [3 \<mapsto> 0, 4 \<mapsto> 1, 5 \<mapsto> 2]"
    "xpeers (app demo_server) 1 \<noteq> None"
    by (simp_all add: demo_server_def store_xpeer_def)
  have b: "cb_rel ?wb [0x6F]" by (simp add: cb_rel_def ring_pos_def)
  have s: "sys_w1 sys_failed < 0" "\<not> sys_again sys_failed" "sys_chunks sys_failed = []" "sys_len sys_failed = 0" "0 < sys_fuel sys_failed"
    by (simp_all add: sys_failed_def)
  have "csize (cb_create 16) = 0" by (simp add: cb_create_def)
  from writer_error_ends_loop [OF demo_server_inv d(1,2) b _ this d(5) s] obtain e' armed st1 st2 more where
    1: "objs demo_server 2 = Some (Writer e' 1 armed)" "main_round [(ev_fd e', sys_failed)] demo_server = Inr (more, st1)"
    "main_round [(ev_fd ?e, sys_failed)] st1 = Inr (card (dom (evmap demo_server)) mod 2 ^ 32 \<noteq> 3, st2)"
    "evmap st2 = (evmap demo_server)(ev_fd e' := None, ev_fd ?e := None)"
    by auto
  have e: "e' = new_event 5 True" using 1(1) d(3) by simp
  have fd: "ev_fd (new_event 5 True) = 5" "ev_fd ?e = 4" by (simp_all add: new_event_def schedule_auto_delete_def)
  have "evmap st2 = [3 \<mapsto> 0]" using 1(4) unfolding e fd d(4) by auto
  moreover have "card (dom (evmap demo_server)) mod 2 ^ 32 = 3" by (simp add: d(4))
  ultimately show ?thesis using 1(2,3) unfolding e fd by auto
qed

end
