(* ===== verification/Cpp_Framing.thy ===== *)
theory Cpp_Framing
  imports Cpp_Server
begin

text \<open>
  A conversation with the C++ tracker: from the bytes the events of a connection deliver to the bytes its writer sends.
  As long as the read buffer does not wrap, the answers depend on the bytes only, not on the events and the calls of
  \<open>read\<close> they come in.
\<close>

section \<open>A connection that sends\<close>

definition conn_rb :: "server \<Rightarrow> addr \<Rightarrow> cbuf \<Rightarrow> bool" where
  "conn_rb st c rb \<longleftrightarrow> (\<exists>e wb w. objs st c = Some (Conn e rb wb w))"

text \<open>
  What waits to be sent is \<open>xs\<close>: there is a writer for it, or nothing was sent yet and the first message will make the
  writer, on one of the descriptors \<open>D\<close> that \<open>dup\<close> returns.
\<close>

definition sending :: "server \<Rightarrow> nat set \<Rightarrow> addr \<Rightarrow> byte list \<Rightarrow> bool" where
  "sending st D c xs \<longleftrightarrow>
     (\<exists>fd w. writer_of st fd w c xs \<and> w \<noteq> c) \<or>
     xs = [] \<and> (\<exists>e rb n. objs st c = Some (Conn e rb (cb_create n) None) \<and> 16 \<le> n) \<and> onext st \<noteq> c \<and> (\<forall>f \<in> D. interest st f = None)"

lemma sending_store:
  assumes "sending st D c xs" and "objs st c = Some (Conn e rb wb w)"
  shows "sending (store_obj (st\<lparr>app := a\<rparr>) c (Conn e rb' wb w)) D c xs"
  using assms(1) unfolding sending_def
proof (elim disjE exE conjE)
  fix fd wr assume "writer_of st fd wr c xs" "wr \<noteq> c"
  then have "writer_of (store_obj (st\<lparr>app := a\<rparr>) c (Conn e rb' wb w)) fd wr c xs"
    using assms(2) by (auto simp: writer_of_def store_obj_def)
  with \<open>wr \<noteq> c\<close> show "(\<exists>fd wr. writer_of (store_obj (st\<lparr>app := a\<rparr>) c (Conn e rb' wb w)) fd wr c xs \<and> wr \<noteq> c) \<or>
      xs = [] \<and> (\<exists>e1 rb n. objs (store_obj (st\<lparr>app := a\<rparr>) c (Conn e rb' wb w)) c = Some (Conn e1 rb (cb_create n) None) \<and> 16 \<le> n) \<and>
      onext (store_obj (st\<lparr>app := a\<rparr>) c (Conn e rb' wb w)) \<noteq> c \<and>
      (\<forall>f \<in> D. interest (store_obj (st\<lparr>app := a\<rparr>) c (Conn e rb' wb w)) f = None)"
    by blast
qed (use assms(2) in \<open>auto simp: store_obj_def\<close>)

lemma register_event_fields: "register_event st a = Inr st' \<Longrightarrow> app st' = app st \<and> objs st' = objs st"
  by (auto simp: register_event_def rbind_eq_Inr_iff Let_def)

lemma rearm_event_fields: "rearm_event st a = Inr st' \<Longrightarrow> app st' = app st \<and> objs st' = objs st"
  by (auto simp: rearm_event_def rbind_eq_Inr_iff Let_def split: if_splits)

lemma writer_rearm_fields:
  "writer_rearm st w = Inr st' \<Longrightarrow> app st' = app st \<and> (\<exists>e d a. objs st w = Some (Writer e d a)) \<and> (\<forall>c. c \<noteq> w \<longrightarrow> objs st' c = objs st c)"
  by (auto simp: writer_rearm_def load_obj_def store_obj_def rbind_eq_Inr_iff
      split: option.splits evobj.splits if_splits dest!: rearm_event_fields)

lemma cs_write_fields:
  assumes "cs_write f c data st = Inr st'" and "objs st c = Some (Conn e rb wb w)" and "w = None \<Longrightarrow> onext st \<noteq> c"
  shows "app st' = app st \<and> conn_rb st' c rb"
proof (cases "data = []")
  case True
  with assms show ?thesis by (auto simp: cs_write_def conn_rb_def)
next
  case False
  with assms(1,2) obtain wb2 where w: "(case w of
      Some a \<Rightarrow> writer_rearm (store_obj st c (Conn e rb wb2 (Some a))) a
    | None \<Rightarrow> register_event ((store_obj (store_obj st c (Conn e rb wb2 (Some (onext st)))) (onext st)
          (Writer (new_event f True) c True))\<lparr>onext := onext st + 1\<rparr>) (onext st)) = Inr st'"
    by (cases w) (auto simp: cs_write_def load_obj_def rbind_eq_Inr_iff Let_def)
  show ?thesis
  proof (cases w)
    case None
    with w assms(3) show ?thesis by (auto simp: store_obj_def conn_rb_def dest!: register_event_fields)
  next
    case (Some a)
    with w have r: "writer_rearm (store_obj st c (Conn e rb wb2 (Some a))) a = Inr st'" by simp
    from writer_rearm_fields [OF r] have "a \<noteq> c" by (auto simp: store_obj_def)
    with writer_rearm_fields [OF r] show ?thesis by (auto simp: store_obj_def conn_rb_def)
  qed
qed

lemma cs_write_sending:
  assumes s: "sending st D c xs" and f: "f \<in> D" and r: "conn_rb st c rb"
  shows "\<exists>st'. cs_write f c data st = Inr st' \<and> sending st' D c (xs @ data) \<and> wire st' = wire st \<and> app st' = app st \<and>
    conn_rb st' c rb"
proof (cases "data = []")
  case True
  with s r show ?thesis by (simp add: cs_write_def)
next
  case False
  from s consider (w) fd w where "writer_of st fd w c xs" "w \<noteq> c"
    | (n) e rb' n where "xs = []" "objs st c = Some (Conn e rb' (cb_create n) None)" "16 \<le> n" "onext st \<noteq> c" "interest st f = None"
    using f unfolding sending_def by blast
  then obtain st' fd w where st': "cs_write f c data st = Inr st'" "writer_of st' fd w c (xs @ data)" "w \<noteq> c" "wire st' = wire st"
  proof cases
    case w
    then show ?thesis using cs_write_of [OF w, of f data] that by blast
  next
    case n
    then show ?thesis using cs_write_new [OF n(2,3) False n(4,5)] that by (metis append_Nil)
  qed
  obtain e wb w' where c: "objs st c = Some (Conn e rb wb w')" using r unfolding conn_rb_def by blast
  have "w' = None \<Longrightarrow> onext st \<noteq> c" using s c unfolding sending_def writer_of_def by auto
  from cs_write_fields [OF st'(1) c this] st' show ?thesis unfolding sending_def by blast
qed

lemma cs_writes_sending:
  "sending st D c xs \<Longrightarrow> f \<in> D \<Longrightarrow> conn_rb st c rb \<Longrightarrow>
    \<exists>st'. fold_result (cs_write f c) ds st = Inr st' \<and> sending st' D c (xs @ concat ds) \<and> wire st' = wire st \<and> app st' = app st \<and>
      conn_rb st' c rb"
proof (induction ds arbitrary: st xs)
  case (Cons d ds)
  obtain st1 where st1: "cs_write f c d st = Inr st1" "sending st1 D c (xs @ d)" "wire st1 = wire st" "app st1 = app st"
    "conn_rb st1 c rb"
    using cs_write_sending [OF Cons.prems] by blast
  from Cons.IH [OF st1(2) Cons.prems(2) st1(5)] st1 show ?case by auto
qed auto

section \<open>Reading\<close>

text \<open>The read buffer holds \<open>ps\<close> in one piece and has room for \<open>n\<close> more bytes behind it.\<close>

definition reading :: "server \<Rightarrow> addr \<Rightarrow> byte list \<Rightarrow> nat \<Rightarrow> bool" where
  "reading st c ps n \<longleftrightarrow> (\<exists>rb. conn_rb st c rb \<and> in_one_piece rb ps \<and> cw rb + n \<le> capacity rb \<and> capacity rb < 2 ^ 64)"

lemma read_chunk_reading:
  assumes r: "reading st c ps (length d + n)" and s: "sending st D c xs"
  shows "\<exists>st'. read_chunk c d st = Inr st' \<and> reading st' c (ps @ d) n \<and> sending st' D c xs \<and> wire st' = wire st \<and> app st' = app st"
proof -
  obtain e rb wb w where c: "objs st c = Some (Conn e rb wb w)" and o: "in_one_piece rb ps"
    and room: "cw rb + (length d + n) \<le> capacity rb" and k: "capacity rb < 2 ^ 64"
    using r unfolding reading_def conn_rb_def by blast
  have rel: "cb_rel rb ps" and p: "cr rb + length ps = cw rb" using o by (simp_all add: in_one_piece_def)
  have sz: "csize rb = length ps" using rel by (simp add: cb_rel_def)
  have fit: "length ps + length d \<le> capacity rb" using p room by simp
  then have m: "make_room (length d) rb = Inr rb" 
    using sz by (subst make_room.simps) (simp add: cb_remaining_space_def, linarith)
  obtain rb' where rb': "cb_write rb (map Some d) = Inr (length d, rb')" "cb_rel rb' (ps @ d)" "capacity rb' = capacity rb"
    using cb_write_rel [OF rel fit] by blast
  have "cw rb' = cw rb + length d" "cr rb' = cr rb"
    using rb'(1) room by (auto simp: cb_write_def Let_def rbind_eq_Inr_iff split: if_splits)
  then have o': "in_one_piece rb' (ps @ d)" "cw rb' + n \<le> capacity rb'"
    using rb'(2,3) p room k by (auto simp: in_one_piece_def)
  have "read_chunk c d st = Inr (store_obj (st\<lparr>app := app st\<rparr>) c (Conn e rb' wb w))"
    using c m rb'(1) by (simp add: read_chunk_def load_obj_def)
  moreover have "reading (store_obj (st\<lparr>app := app st\<rparr>) c (Conn e rb' wb w)) c (ps @ d) n"
    using o' rb'(3) k by (auto simp: reading_def conn_rb_def store_obj_def)
  moreover have "wire (store_obj (st\<lparr>app := app st\<rparr>) c (Conn e rb' wb w)) = wire st"
    "app (store_obj (st\<lparr>app := app st\<rparr>) c (Conn e rb' wb w)) = app st" by (simp_all add: store_obj_def)
  ultimately show ?thesis using sending_store [OF s c] by blast
qed

lemma read_chunks_reading:
  "reading st c ps (length (concat ds) + n) \<Longrightarrow> sending st D c xs \<Longrightarrow>
    \<exists>st'. fold_result (read_chunk c) ds st = Inr st' \<and> reading st' c (ps @ concat ds) n \<and> sending st' D c xs \<and> wire st' = wire st \<and>
      app st' = app st"
proof (induction ds arbitrary: st ps)
  case (Cons d ds)
  then have "reading st c ps (length d + (length (concat ds) + n))" by (simp add: add.assoc)
  from read_chunk_reading [OF this Cons.prems(2)] obtain st1 where st1: "read_chunk c d st = Inr st1"
    "reading st1 c (ps @ d) (length (concat ds) + n)" "sending st1 D c xs" "wire st1 = wire st" "app st1 = app st"
    by blast
  from Cons.IH [OF st1(2,3)] st1 show ?case by auto
qed auto

lemma cb_read_until_fields: "cb_read_until b x = Inr (s, b') \<Longrightarrow> cw b' = cw b \<and> capacity b' = capacity b"
  by (auto simp: cb_read_until_def rbind_eq_Inr_iff split: if_splits)

lemma read_handler_fields:
  "read_handler fuel b st p = Inr (go, b', st') \<Longrightarrow> cw b' = cw b \<and> capacity b' = capacity b"
proof (induction fuel arbitrary: b st)
  case (Suc fuel)
  then show ?case by (fastforce simp: rbind_eq_Inr_iff split: if_splits dest: cb_read_until_fields)
qed simp

section \<open>Requests\<close>

lemma serve_keeps:
  "cpp_inv st \<Longrightarrow> xpeers st p \<noteq> None \<Longrightarrow> serve st p ls = Inr (go, n, st') \<Longrightarrow> keeps p st st'"
proof (induction ls arbitrary: st n)
  case Nil
  then show ?case by (simp add: keeps_refl)
next
  case (Cons l ls)
  from Cons.prems(3) obtain g st1 where h: "handle_line st p l = Inr (g, st1)"
    "(if g then rbind (serve st1 p ls) (\<lambda>(go, n, st). Inr (go, Suc n, st)) else Inr (False, 1, st1)) = Inr (go, n, st')"
    by (auto simp: rbind_eq_Inr_iff)
  obtain y where y: "xpeers st p = Some y" using Cons.prems(2) by blast
  have "\<not> asks_unknown st p l" using h(1) handle_line_unknown [of st p l] by auto
  from handle_line_keeps [OF Cons.prems(1) y this] h(1) have k: "keeps p st st1" by auto
  show ?case
  proof (cases g)
    case True
    with h(2) obtain m where "serve st1 p ls = Inr (go, m, st')" by (auto simp: rbind_eq_Inr_iff)
    with Cons.IH [of st1 m] keepsD [OF k] have "keeps p st1 st'" by auto
    with k show ?thesis by (rule keeps_trans)
  next
    case False
    with h(2) k show ?thesis by simp
  qed
qed

lemma serve_all: "serve st p ls = Inr (True, n, st') \<Longrightarrow> n = length ls"
  by (induction ls arbitrary: st n) (auto simp: rbind_eq_Inr_iff split: if_splits)

lemma serve_append:
  assumes "serve st p (ls @ ks) = Inr (True, n, st')"
  shows "\<exists>st1. serve st p ls = Inr (True, length ls, st1) \<and> serve st1 p ks = Inr (True, length ks, st')"
  using assms
proof (induction ls arbitrary: st n)
  case Nil
  then show ?case using serve_all by fastforce
next
  case (Cons l ls)
  then obtain st1 m where "handle_line st p l = Inr (True, st1)" "serve st1 p (ls @ ks) = Inr (True, m, st')"
    by (auto simp: rbind_eq_Inr_iff split: if_splits)
  with Cons.IH [OF this(2)] show ?case by auto
qed

section \<open>Events\<close>

text \<open>A rest that may stand in the buffer: it is not longer than a keyword or has a blank.\<close>

definition rest_ok :: "byte list \<Rightarrow> bool" where
  "rest_ok ts \<longleftrightarrow> ts = [] \<or> 0x20 \<in> set ts \<or> length ts \<le> max_keyword_size"

lemma run_read_handler_lines:
  assumes r: "reading st c (lines_bytes ls @ ts) n" and s: "sending st D c xs" and f: "f \<in> D" and fuel: "length ls < fuel"
    and nl: "\<forall>l \<in> set ls. 0x0A \<notin> set l" "0x0A \<notin> set ts" and ok: "rest_ok ts"
    and i: "cpp_inv (app st)" and y: "xpeers (app st) c = Some y"
    and sv: "serve (app st) c (map chars_of ls) = Inr (True, length ls, app')"
  shows "\<exists>st' y' ms. run_read_handler fuel f c st = Inr (True, st') \<and> reading st' c ts n \<and> app st' = app' \<and> wire st' = wire st \<and>
    xpeers app' c = Some y' \<and> written y' = written y @ ms \<and> sending st' D c (xs @ concat (map bytes_of ms))"
proof -
  obtain e rb wb w where c: "objs st c = Some (Conn e rb wb w)" and o: "in_one_piece rb (lines_bytes ls @ ts)"
    and room: "cw rb + n \<le> capacity rb" and k: "capacity rb < 2 ^ 64"
    using r unfolding reading_def conn_rb_def by blast
  obtain rb' where o': "in_one_piece rb' ts" and h: "read_handler fuel rb (app st) c = Inr (True, rb', app')"
    using read_handler_lines [OF o nl fuel, of "app st" c] sv ok
    by (auto simp: rest_ok_def lines_bytes_def)
  have cap: "cw rb' = cw rb" "capacity rb' = capacity rb" using read_handler_fields [OF h] by simp_all
  have "keeps c (app st) app'" using serve_keeps [OF i _ sv] y by simp
  then obtain y' ms where y': "xpeers app' c = Some y'" "written y' = written y @ ms" using y by (auto simp: keeps_def)
  let ?st = "store_obj (st\<lparr>app := app'\<rparr>) c (Conn e rb' wb w)"
  have cr: "conn_rb ?st c rb'" by (simp add: conn_rb_def store_obj_def)
  from cs_writes_sending [OF sending_store [OF s c, of app' rb'] f this, of "map bytes_of ms"] obtain st' where
    st': "fold_result (cs_write f c) (map bytes_of ms) ?st = Inr st'" "sending st' D c (xs @ concat (map bytes_of ms))"
      "wire st' = wire ?st" "app st' = app ?st" "conn_rb st' c rb'"
    by blast
  have "run_read_handler fuel f c st = Inr (True, st')"
    using c y h y' st'(1) by (simp add: run_read_handler_def load_obj_def load_xpeer_def)
  moreover have "reading st' c ts n" using st'(5) o' cap room k by (auto simp: reading_def)
  moreover have "app st' = app'" "wire st' = wire st" using st'(3,4) by (simp_all add: store_obj_def)
  ultimately show ?thesis using y' st'(2) by blast
qed

text \<open>Whether the connection is kept, and the state, after the events \<open>ss\<close>.\<close>

primrec client_events :: "addr \<Rightarrow> sys list \<Rightarrow> server \<Rightarrow> (bool \<times> server) result" where
  "client_events c [] st = Inr (True, st)"
| "client_events c (s # ss) st =
     rbind (client_handler st c s) (\<lambda>(ok, st). if ok then client_events c ss st else Inr (False, st))"

definition delivered :: "sys list \<Rightarrow> byte list" where
  "delivered ss = concat (map (\<lambda>s. concat (sys_chunks s)) ss)"

text \<open>The lines that are whole in a first part of the bytes.\<close>

lemma lines_prefix:
  assumes "zs @ r = lines_bytes ls @ ts" and "\<forall>l \<in> set ls. 0x0A \<notin> set l" and "0x0A \<notin> set ts"
  shows "\<exists>ks ks' t v. ls = ks @ ks' \<and> zs = lines_bytes ks @ t \<and> t @ r = lines_bytes ks' @ ts \<and>
    t @ v = (case ks' of [] \<Rightarrow> ts | l # _ \<Rightarrow> l)"
  using assms
proof (induction ls arbitrary: zs)
  case Nil
  then show ?case by (intro exI [of _ "[]"] exI [of _ zs] exI [of _ r]) (simp add: lines_bytes_def)
next
  case (Cons l ls)
  have e: "zs @ r = (l @ [0x0A]) @ (lines_bytes ls @ ts)" using Cons.prems(1) by (simp add: lines_bytes_def)
  show ?case
  proof (cases "length zs \<le> length l")
    case True
    then have "zs = take (length zs) l" using arg_cong [OF e, of "take (length zs)"] by simp
    then have "zs @ drop (length zs) l = l" by (metis append_take_drop_id)
    with Cons.prems(1) show ?thesis
      by (intro exI [of _ "[]"] exI [of _ "l # ls"] exI [of _ zs] exI [of _ "drop (length zs) l"]) (simp add: lines_bytes_def)
  next
    case False
    then have "take (Suc (length l)) zs = l @ [0x0A]"
      using arg_cong [OF e, of "take (Suc (length l))"] by simp
    then obtain us where us: "zs = (l @ [0x0A]) @ us" by (metis append_take_drop_id)
    with e have us2: "us @ r = lines_bytes ls @ ts" by simp
    from Cons.IH [OF us2] Cons.prems(2,3) obtain ks ks' t v where
      "ls = ks @ ks'" "us = lines_bytes ks @ t" "t @ r = lines_bytes ks' @ ts" "t @ v = (case ks' of [] \<Rightarrow> ts | l # _ \<Rightarrow> l)" by auto
    with us show ?thesis
      by (intro exI [of _ "l # ks"] exI [of _ ks'] exI [of _ t] exI [of _ v]) (simp add: lines_bytes_def)
  qed
qed

text \<open>A line no beginning of which is taken for a keyword that is too long.\<close>

definition prefix_ok :: "byte list \<Rightarrow> bool" where
  "prefix_ok l \<longleftrightarrow> length l \<le> max_keyword_size \<or> 0x20 \<in> set (take (Suc max_keyword_size) l)"

lemma prefix_ok_rest: "prefix_ok (t @ v) \<Longrightarrow> rest_ok t"
  by (auto simp: prefix_ok_def rest_ok_def dest: in_set_takeD)

lemma client_events_lines:
  assumes "reading st c ps (length (delivered ss))" and "sending st D c xs" and "\<forall>s \<in> set ss. sys_dup s \<in> D \<and> length ls < sys_fuel s \<and> sys_len s \<noteq> 0 \<and> sys_again s"
    and "ps @ delivered ss = lines_bytes ls @ ts" and "\<forall>l \<in> set ls. 0x0A \<notin> set l \<and> prefix_ok l" and "0x0A \<notin> set ts" and "prefix_ok ts"
    and "cpp_inv (app st)" and "xpeers (app st) c = Some y" and "serve (app st) c (map chars_of ls) = Inr (True, n, app')"
    and "0x0A \<notin> set ps"
  shows "\<exists>st' y' ms. client_events c ss st = Inr (True, st') \<and> reading st' c ts 0 \<and> app st' = app' \<and> wire st' = wire st \<and>
    xpeers app' c = Some y' \<and> written y' = written y @ ms \<and> sending st' D c (xs @ concat (map bytes_of ms))"
  using assms
proof (induction ss arbitrary: st ps ls xs y n)
  case Nil
  have "ls = []"
  proof (cases ls)
    case (Cons l ls')
    with Nil.prems(4) have "(0x0A :: byte) \<in> set ps" by (simp add: delivered_def lines_bytes_def)
    with Nil.prems(11) show ?thesis by simp
  qed simp
  with Nil show ?case by (auto simp: delivered_def lines_bytes_def)
next
  case (Cons s ss)
  let ?d = "concat (sys_chunks s)"
  have d: "delivered (s # ss) = ?d @ delivered ss" by (simp add: delivered_def)
  have eq: "(ps @ ?d) @ delivered ss = lines_bytes ls @ ts" using Cons.prems(4) by (simp add: d)
  from lines_prefix [OF this] Cons.prems(5,6) obtain ks ks' t v where
    l: "ls = ks @ ks'" "ps @ ?d = lines_bytes ks @ t" "t @ delivered ss = lines_bytes ks' @ ts" "t @ v = (case ks' of [] \<Rightarrow> ts | l # _ \<Rightarrow> l)"
    by auto
  have tv: "prefix_ok (t @ v)" "0x0A \<notin> set (t @ v)" unfolding l(4) using Cons.prems(5-7) l(1) by (auto split: list.split)
  obtain st1 where st1: "fold_result (read_chunk c) (sys_chunks s) st = Inr st1" "reading st1 c (lines_bytes ks @ t) (length (delivered ss))"
    "sending st1 D c xs" "wire st1 = wire st" "app st1 = app st"
    using read_chunks_reading [of st c ps "sys_chunks s" "length (delivered ss)" D xs] Cons.prems(1,2) l(2) by (auto simp: d)
  have sv: "serve (app st) c (map chars_of ks @ map chars_of ks') = Inr (True, n, app')" using Cons.prems(10) l(1) by simp
  obtain a1 where a1: "serve (app st) c (map chars_of ks) = Inr (True, length ks, a1)" "serve a1 c (map chars_of ks') = Inr (True, length ks', app')"
    using serve_append [OF sv] by auto
  have k: "keeps c (app st) a1" using serve_keeps [OF Cons.prems(8) _ a1(1)] Cons.prems(9) by simp
  have D: "sys_dup s \<in> D" "length ks < sys_fuel s" using Cons.prems(3) l(1) by auto
  have nl: "\<forall>l \<in> set ks. 0x0A \<notin> set l" "0x0A \<notin> set t" using Cons.prems(5) l(1) tv(2) by auto
  have h: "cpp_inv (app st1)" "xpeers (app st1) c = Some y" "serve (app st1) c (map chars_of ks) = Inr (True, length ks, a1)"
    using st1(5) Cons.prems(8,9) a1(1) by simp_all
  from run_read_handler_lines [OF st1(2,3) D nl prefix_ok_rest [OF tv(1)] h] obtain st2 y1 ms1 where
    st2: "run_read_handler (sys_fuel s) (sys_dup s) c st1 = Inr (True, st2)" "reading st2 c t (length (delivered ss))" "app st2 = a1"
      "wire st2 = wire st1" "xpeers a1 c = Some y1" "written y1 = written y @ ms1" "sending st2 D c (xs @ concat (map bytes_of ms1))"
    by blast
  have "client_handler st c s = Inr (True, st2)"
    using st1(1) st2(1) Cons.prems(3) by (simp add: client_handler_def)
  moreover have ev: "\<forall>s \<in> set ss. sys_dup s \<in> D \<and> length ks' < sys_fuel s \<and> sys_len s \<noteq> 0 \<and> sys_again s"
    using Cons.prems(3) l(1) by auto
  have ok: "\<forall>l \<in> set ks'. 0x0A \<notin> set l \<and> prefix_ok l" using Cons.prems(5) l(1) by simp
  have a: "cpp_inv (app st2)" "xpeers (app st2) c = Some y1" "serve (app st2) c (map chars_of ks') = Inr (True, length ks', app')"
    using st2(3,5) keepsD [OF k] a1(2) by simp_all
  from Cons.IH [OF st2(2,7) ev l(3) ok Cons.prems(6,7) a nl(2)]
  obtain st' y' ms where "client_events c ss st2 = Inr (True, st')" "reading st' c ts 0" "app st' = app'" "wire st' = wire st2"
    "xpeers app' c = Some y'" "written y' = written y1 @ ms" "sending st' D c ((xs @ concat (map bytes_of ms1)) @ concat (map bytes_of ms))"
    by blast
  ultimately show ?case using st1(4) st2(4,6) by (intro exI [of _ st'] exI [of _ y'] exI [of _ "ms1 @ ms"]) simp
qed

section \<open>Property\<close>

text \<open>A connection that was just accepted.\<close>

lemma fresh_conn:
  assumes "objs st c = Some (Conn e (cb_create m) (cb_create n) None)" and "n0 \<le> m" and "m < 2 ^ 64" and "16 \<le> n"
    and "onext st \<noteq> c" and "\<forall>f \<in> D. interest st f = None"
  shows "reading st c [] n0 \<and> sending st D c []"
proof -
  have "in_one_piece (cb_create m) []" using cb_create_rel [of m] by (simp add: in_one_piece_def cb_create_def)
  moreover have "conn_rb st c (cb_create m)" using assms(1) by (simp add: conn_rb_def)
  ultimately have "reading st c [] n0" unfolding reading_def
    by (intro exI [of _ "cb_create m"]) (use assms(2,3) in \<open>simp add: cb_create_def\<close>)
  moreover have "sending st D c []" using assms unfolding sending_def by blast
  ultimately show ?thesis ..
qed


definition demo_conn :: server where
  "demo_conn = \<lparr>app = store_xpeer cpp_init 0 (new_peer 1), objs = [0 \<mapsto> Conn (new_event 5 False) (cb_create 32) (cb_create 16) None],
     onext = 1, evmap = [5 \<mapsto> 0], doomed = [], ev_count = 1, interest = [5 \<mapsto> (False, True)], wire = (\<lambda>_. [])\<rparr>"

definition demo_sys :: "byte list list \<Rightarrow> sys" where
  "demo_sys ds = \<lparr>sys_chunks = ds, sys_len = -1, sys_again = True, sys_dup = 6, sys_w1 = 0, sys_w2 = 0, sys_accepted = [],
     sys_name = (\<lambda>_. None), sys_fuel = 9\<rparr>"


end
