(* ===== verification/Cpp_Containers.thy ===== *)
theory Cpp_Containers
  imports HashTable
begin

text \<open>
  The containers the C++ tracker brings along, ported from the C library: \<open>List.cpp\<close> and \<open>HashTable.cpp\<close> of
  \<open>tracker_cpp/common/containers\<close>. Nodes and the heap are those of \<open>CList\<close>, the hash table is \<open>Uthash\<close>. The list is
  the one of C without the flags; the table leaves its head pointer uninitialised.
\<close>

section \<open>List\<close>

definition lst_get_node :: "'a clist \<Rightarrow> nat \<Rightarrow> (addr \<times> 'a clist) result" where
  "lst_get_node l n =
     (let (k, node) = (if curpos l \<le> n then (n - curpos l, cursor l) else (n, front_sentinel l))
      in rbind (walk (heap l) k node) (\<lambda>node. Inr (node, l\<lparr>cursor := node, curpos := n\<rparr>)))"

definition lst_size :: "'a clist \<Rightarrow> nat" where
  "lst_size l = lsize l"

definition lst_create :: "'a clist" where
  "lst_create =
     \<lparr>heap = [0 \<mapsto> \<lparr>node_data = None, node_next = Some 1, node_sentinel = True\<rparr>, 1 \<mapsto> node_new None True],
      fresh = 2, front_sentinel = 0, cursor = 0, lsize = 0, curpos = 0, li_free = False\<rparr>"

text \<open>The loop of the destructor: the heap left and the sentinel it stops at.\<close>

partial_function (option) delete_nodes :: "'a heap \<Rightarrow> addr \<Rightarrow> ('a heap \<times> addr) result option" where
  "delete_nodes h node =
     (case node_get h node of
        Inl e \<Rightarrow> Some (Inl e)
      | Inr nd \<Rightarrow>
          if node_sentinel nd then Some (Inr (h, node))
          else (case node_get_next h node of
                  Inl e \<Rightarrow> Some (Inl e)
                | Inr tmp \<Rightarrow>
                    (case node_free h node of
                       Inl e \<Rightarrow> Some (Inl e)
                     | Inr h \<Rightarrow> delete_nodes h tmp)))"

definition lst_destroy :: "'a clist \<Rightarrow> 'a heap result option" where
  "lst_destroy l =
     (case node_get_next (heap l) (front_sentinel l) of
        Inl e \<Rightarrow> Some (Inl e)
      | Inr node \<Rightarrow>
          map_option (\<lambda>r. rbind r (\<lambda>(h, node). rbind (node_free h node) (\<lambda>h. node_free h (front_sentinel l))))
            (delete_nodes (heap l) node))"

definition lst_get :: "'a clist \<Rightarrow> nat \<Rightarrow> ('a option \<times> 'a clist) result" where
  "lst_get l n = rbind (lst_get_node l n) (\<lambda>(node, l). rbind (node_get (heap l) node) (\<lambda>nd. Inr (node_data nd, l)))"

definition lst_add :: "'a clist \<Rightarrow> 'a \<Rightarrow> 'a clist result" where
  "lst_add l x =
     (let tmp = fresh l; h = (heap l)(tmp \<mapsto> node_new (Some x) False)
      in rbind (node_get_next h (front_sentinel l)) (\<lambda>first.
         rbind (node_set_next h tmp first) (\<lambda>h.
         rbind (node_set_next h (front_sentinel l) tmp) (\<lambda>h.
           Inr (l\<lparr>heap := h, fresh := Suc tmp, lsize := lsize l + 1,
             curpos := (if curpos l \<noteq> 0 then curpos l + 1 else curpos l)\<rparr>)))))"

definition lst_insert :: "'a clist \<Rightarrow> nat \<Rightarrow> 'a \<Rightarrow> 'a clist result" where
  "lst_insert l n x =
     rbind (lst_get_node l (pred32 n)) (\<lambda>(previous, l).
       let tmp = fresh l; h = (heap l)(tmp \<mapsto> node_new (Some x) False)
       in rbind (node_get_next h previous) (\<lambda>nx.
          rbind (node_set_next h tmp nx) (\<lambda>h.
          rbind (node_set_next h previous tmp) (\<lambda>h.
            Inr (l\<lparr>heap := h, fresh := Suc tmp, lsize := lsize l + 1\<rparr>)))))"

definition lst_append :: "'a clist \<Rightarrow> 'a \<Rightarrow> 'a clist result" where
  "lst_append l x = lst_insert l (lst_size l + 1) x"

definition lst_append_list :: "'a clist \<Rightarrow> 'a clist \<Rightarrow> ('a clist \<times> 'a clist) result" where
  "lst_append_list l l2 =
     rbind (list_iter lst_get (\<lambda>x l. rbind (deref x) (lst_append l)) 1 (lst_size l2) l2 l) (\<lambda>(l2, l). Inr (l, l2))"

text \<open>The loop of \<open>removeValue\<close> is the one of \<open>list_remove_value\<close>.\<close>

definition lst_remove_value :: "'a clist \<Rightarrow> 'a \<Rightarrow> 'a clist result option" where
  "lst_remove_value l v =
     (let l = l\<lparr>curpos := 0, cursor := front_sentinel l\<rparr>
      in map_option (\<lambda>r. rbind r (\<lambda>(h, sz). Inr (l\<lparr>heap := h, lsize := sz\<rparr>)))
           (remove_value_loop (heap l) (lsize l) (front_sentinel l) v))"

definition lst_remove :: "'a clist \<Rightarrow> nat \<Rightarrow> 'a clist result" where
  "lst_remove l n =
     rbind (lst_get_node l (pred32 n)) (\<lambda>(previous, l).
     rbind (node_get_next (heap l) previous) (\<lambda>tmp.
     rbind (node_get_next (heap l) tmp) (\<lambda>nx.
     rbind (node_set_next (heap l) previous nx) (\<lambda>h.
     rbind (node_free h tmp) (\<lambda>h. Inr (l\<lparr>heap := h, lsize := lsize l - 1\<rparr>))))))"

definition lst_copy :: "'a clist \<Rightarrow> ('a clist \<times> 'a clist) result" where
  "lst_copy l = lst_append_list lst_create l"

definition lst_to_array :: "'a clist \<Rightarrow> ('a clist \<times> 'a option list) result" where
  "lst_to_array l = list_iter lst_get (\<lambda>x array. Inr (array @ [x])) 0 (lst_size l) l []"

definition lst_map :: "'a clist \<Rightarrow> ('a option \<Rightarrow> 'b) \<Rightarrow> ('a clist \<times> 'b clist) result" where
  "lst_map l f = list_iter lst_get (\<lambda>x ret. lst_append ret (f x)) 1 (lst_size l) l lst_create"

definition lst_for_each :: "'a clist \<Rightarrow> ('a option \<Rightarrow> 's \<Rightarrow> 's result) \<Rightarrow> 's \<Rightarrow> ('a clist \<times> 's) result" where
  "lst_for_each l f s = list_iter lst_get f 1 (lst_size l) l s"

section \<open>Hash table\<close>

text \<open>\<open>m_head\<close> is \<open>None\<close> while it is uninitialised: the constructor sets up the lock only.\<close>

record 'a cpp_table =
  m_head :: "'a ut_table option option"
  m_fresh :: nat

definition tbl_create :: "'a cpp_table" where
  "tbl_create = \<lparr>m_head = None, m_fresh = 0\<rparr>"

definition read_head :: "'a cpp_table \<Rightarrow> 'a ut_table option result" where
  "read_head t = (case m_head t of None \<Rightarrow> Inl Uninitialised | Some h \<Rightarrow> Inr h)"

definition tbl_size :: "'a cpp_table \<Rightarrow> nat result" where
  "tbl_size t = rbind (read_head t) (\<lambda>h. Inr (hash_count h))"

definition tbl_add_entry :: "'a cpp_table \<Rightarrow> string \<Rightarrow> 'a \<Rightarrow> (bool \<times> 'a cpp_table) result" where
  "tbl_add_entry t key data =
     rbind (read_head t) (\<lambda>h.
       Inr (True, t\<lparr>m_head := Some (hash_add h (m_fresh t) key data), m_fresh := m_fresh t + 1\<rparr>))"

definition tbl_add_unique_entry :: "'a cpp_table \<Rightarrow> string \<Rightarrow> 'a \<Rightarrow> (bool \<times> 'a cpp_table) result" where
  "tbl_add_unique_entry t key data =
     rbind (read_head t) (\<lambda>h.
       case hash_find h key of
         None \<Rightarrow> Inr (False, t\<lparr>m_head := Some (hash_add h (m_fresh t) key data), m_fresh := m_fresh t + 1\<rparr>)
       | Some _ \<Rightarrow> Inr (True, t))"

definition tbl_remove_entry :: "'a cpp_table \<Rightarrow> string \<Rightarrow> (bool \<times> 'a cpp_table) result" where
  "tbl_remove_entry t key =
     rbind (read_head t) (\<lambda>h.
       case hash_find h key of
         None \<Rightarrow> Inr (False, t)
       | Some e \<Rightarrow> Inr (True, t\<lparr>m_head := Some (hash_delete h e)\<rparr>))"

definition tbl_has_entry :: "'a cpp_table \<Rightarrow> string \<Rightarrow> bool result" where
  "tbl_has_entry t key = rbind (read_head t) (\<lambda>h. Inr (hash_find h key \<noteq> None))"

definition tbl_get_entry :: "'a cpp_table \<Rightarrow> string \<Rightarrow> (bool \<times> 'a option) result" where
  "tbl_get_entry t key =
     rbind (read_head t) (\<lambda>h.
       Inr (case hash_find h key of None \<Rightarrow> (False, None) | Some e \<Rightarrow> (True, Some (entry_data e))))"

definition tbl_destroy :: "'a cpp_table \<Rightarrow> 'a ut_table option result" where
  "tbl_destroy t = rbind (read_head t) (\<lambda>h. Inr (fold (\<lambda>e h. hash_delete h e) (hash_entries h) h))"

definition tbl_for_each :: "'a cpp_table \<Rightarrow> (string \<Rightarrow> 'a \<Rightarrow> 's \<Rightarrow> 's) \<Rightarrow> 's \<Rightarrow> 's result" where
  "tbl_for_each t f s = rbind (read_head t) (\<lambda>h. Inr (fold (\<lambda>e. f (entry_key e) (entry_data e)) (hash_entries h) s))"

definition tbl_to_list :: "'a cpp_table \<Rightarrow> 'a clist result" where
  "tbl_to_list t =
     rbind (read_head t) (\<lambda>h. fold_result (\<lambda>e l. lst_add l (entry_data e)) (hash_entries h) lst_create)"

definition lst_to_hash_table :: "'a clist \<Rightarrow> ('a option \<Rightarrow> string result) \<Rightarrow> ('a clist \<times> 'a option cpp_table) result" where
  "lst_to_hash_table l keyname_func =
     list_iter lst_get
       (\<lambda>e t. rbind (keyname_func e) (\<lambda>key. rbind (tbl_add_entry t key e) (\<lambda>(_, t). Inr t)))
       0 (lst_size l) l tbl_create"

section \<open>The list is the one of C\<close>

lemma lst_create_new: "lst_create = list_new False"
  by (simp add: lst_create_def list_new_def)

lemma lst_get_node_C: "lst_get_node = list_get_node"
  by (rule ext)+ (simp add: lst_get_node_def list_get_node_def)

lemma lst_size_C: "lst_size = list_size"
  by (rule ext) (simp add: lst_size_def list_size_def)

lemma lst_get_C: "lst_get = list_get"
  by (rule ext)+ (simp add: lst_get_def list_get_def lst_get_node_C)

lemma lst_add_C: "lst_add = list_add"
  by (rule ext)+ (simp add: lst_add_def list_add_def Let_def)

lemma lst_insert_C: "lst_insert = list_insert"
  by (rule ext)+ (simp add: lst_insert_def list_insert_def Let_def lst_get_node_C)

lemma lst_append_C: "lst_append = list_append"
  by (rule ext)+ (simp add: lst_append_def list_append_def lst_insert_C lst_size_C)

lemma lst_append_list_C: "lst_append_list = list_append_list"
  by (rule ext)+ (simp add: lst_append_list_def list_append_list_def lst_append_C lst_get_C lst_size_C)

lemma lst_copy_C: "lst_copy = list_copy"
  by (rule ext)+ (simp add: lst_copy_def list_copy_def lst_append_list_C lst_create_new)

lemma lst_map_C: "lst_map = list_map"
  by (rule ext)+ (simp add: lst_map_def list_map_def list_map_r_def uncurry_def lst_append_C lst_get_C lst_size_C lst_create_new)

lemma lst_for_each_C: "lst_for_each = list_each"
  by (rule ext)+ (simp add: lst_for_each_def list_each_def list_each_r_def uncurry_def lst_get_C lst_size_C)

lemma lst_to_array_C: "lst_to_array = list_to_array"
  by (rule ext)+ (simp add: lst_to_array_def list_to_array_def lst_get_C lst_size_C)

lemma lst_remove_C: "lst_remove l n = rbind (list_remove l n) (\<lambda>(l, _). Inr l)"
  by (auto simp: lst_remove_def list_remove_def lst_get_node_C node_free_def rbind_def split: sum.splits)

lemma lst_remove_value_C: "lst_remove_value l v = list_remove_value l v"
  by (auto simp: lst_remove_value_def list_remove_value_def rbind_def intro!: option.map_cong split: sum.splits)

lemmas lst_C = lst_create_new lst_get_node_C lst_size_C lst_get_C lst_add_C lst_insert_C lst_append_C lst_copy_C
  lst_map_C lst_for_each_C lst_to_array_C lst_remove_C lst_remove_value_C

fun run_lst_op :: "'a list_op \<Rightarrow> 'a clist \<Rightarrow> ('a option \<times> 'a clist) result" where
  "run_lst_op (Op_Add x) l = rbind (lst_add l x) (\<lambda>l. Inr (None, l))"
| "run_lst_op (Op_Append x) l = rbind (lst_append l x) (\<lambda>l. Inr (None, l))"
| "run_lst_op (Op_Insert n x) l = rbind (lst_insert l n x) (\<lambda>l. Inr (None, l))"
| "run_lst_op (Op_Remove n) l = rbind (lst_remove l n) (\<lambda>l. Inr (None, l))"
| "run_lst_op (Op_Get n) l = lst_get l n"
| "run_lst_op (Op_Remove_Value x) l =
     (case lst_remove_value l x of None \<Rightarrow> Inl Diverges | Some r \<Rightarrow> rbind r (\<lambda>l. Inr (None, l)))"

fun run_lst_ops :: "'a list_op list \<Rightarrow> 'a clist \<Rightarrow> ('a option list \<times> 'a clist) result" where
  "run_lst_ops [] l = Inr ([], l)"
| "run_lst_ops (p # ps) l =
     rbind (run_lst_op p l) (\<lambda>(out, l). rbind (run_lst_ops ps l) (\<lambda>(outs, l). Inr (out # outs, l)))"

lemma run_lst_op_C: "run_lst_op p l = run_list_op p l"
  by (cases p) (simp_all add: lst_C rbind_assoc split_def)

lemma run_lst_ops_C: "run_lst_ops ps l = run_list_ops ps l"
  by (induction ps arbitrary: l) (simp_all add: run_lst_op_C)

text \<open>The destructor.\<close>

lemma delete_nodes_chain:
  assumes "chain h node (map data_cell ps) b" and "h b = Some (node_new None True)" and "distinct (map fst ps @ [b])"
  shows "delete_nodes h node = Some (Inr (h |` (- fst ` set ps), b))"
  using assms
proof (induction ps arbitrary: h node)
  case Nil
  then show ?case by (subst delete_nodes.simps) (simp add: node_get_def node_new_def restrict_map_def)
next
  case (Cons p ps)
  then obtain nx where nd: "h node = Some \<lparr>node_data = Some (snd p), node_next = Some nx, node_sentinel = False\<rparr>"
    and ch: "chain h nx (map data_cell ps) b" and node: "node = fst p"
    by auto
  let ?h = "h(node := None)"
  have 1: "chain ?h nx (map data_cell ps) b"
    using ch Cons.prems(3) node by (subst chain_upd) (auto simp: image_image)
  have 2: "?h b = Some (node_new None True)" using Cons.prems(2,3) node by auto
  have "delete_nodes ?h nx = Some (Inr (?h |` (- fst ` set ps), b))"
    using Cons.prems(3) by (intro Cons.IH 1 2) simp
  moreover have "?h |` (- fst ` set ps) = h |` (- fst ` set (p # ps))"
    using node by (auto simp: restrict_map_def)
  ultimately show ?case
    using nd by (subst delete_nodes.simps) (simp add: node_get_def node_get_next_def node_free_def)
qed

lemma lst_destroy_rel:
  assumes "list_rel l xs"
  shows "lst_destroy l = Some (Inr Map.empty)"
  using assms
proof (rule list_relE)
  fix ps b
  assume rep: "list_rep l ps b"
  obtain nx where front: "heap l (front_sentinel l) = Some \<lparr>node_data = None, node_next = Some nx, node_sentinel = True\<rparr>"
    and ch: "chain (heap l) nx (map data_cell ps) b"
    using rep by (auto simp: list_rep_def cells_def)
  have b: "heap l b = Some (node_new None True)" and dist: "distinct (addrs l ps b)"
    and dom: "dom (heap l) = set (addrs l ps b)"
    using rep by (simp_all add: list_rep_def)
  define h where "h = heap l |` (- fst ` set ps)"
  have dn: "delete_nodes (heap l) nx = Some (Inr (h, b))"
    using delete_nodes_chain [OF ch b] dist by (simp add: addrs_def h_def)
  have hb: "h b = Some (node_new None True)" "b \<noteq> front_sentinel l" "h (front_sentinel l) = heap l (front_sentinel l)"
    using b dist by (auto simp: restrict_map_def addrs_def h_def)
  have "(h(b := None, front_sentinel l := None)) a = None" for a
    using dom by (cases "a \<in> dom (heap l)") (auto simp: restrict_map_def addrs_def domIff h_def)
  then have "h(b := None, front_sentinel l := None) = Map.empty" by (rule ext)
  then show ?thesis
    using front dn hb by (simp add: lst_destroy_def node_get_next_def node_get_def node_free_def)
qed

section \<open>The table is the one of C but for its answers\<close>

fun run_tbl_op :: "'a ht_op \<Rightarrow> 'a cpp_table \<Rightarrow> ((bool \<times> 'a option) \<times> 'a cpp_table) result" where
  "run_tbl_op (Op_Put k v) t = rbind (tbl_add_unique_entry t k v) (\<lambda>(r, t). Inr ((r, None), t))"
| "run_tbl_op (Op_Del k) t = rbind (tbl_remove_entry t k) (\<lambda>(r, t). Inr ((r, None), t))"
| "run_tbl_op (Op_Lookup k) t = rbind (tbl_get_entry t k) (\<lambda>r. Inr (r, t))"
| "run_tbl_op (Op_Has k) t = rbind (tbl_has_entry t k) (\<lambda>r. Inr ((r, None), t))"

fun run_tbl_ops :: "'a ht_op list \<Rightarrow> 'a cpp_table \<Rightarrow> ((bool \<times> 'a option) list \<times> 'a cpp_table) result" where
  "run_tbl_ops [] t = Inr ([], t)"
| "run_tbl_ops (p # ps) t =
     rbind (run_tbl_op p t) (\<lambda>(r, t). rbind (run_tbl_ops ps t) (\<lambda>(rs, t). Inr (r # rs, t)))"

text \<open>On a finite map: every operation answers whether the key was there.\<close>

fun spec_tbl_op :: "'a ht_op \<Rightarrow> (string \<rightharpoonup> 'a) \<Rightarrow> (bool \<times> 'a option) \<times> (string \<rightharpoonup> 'a)" where
  "spec_tbl_op (Op_Put k v) m = ((m k \<noteq> None, None), if m k = None then m(k \<mapsto> v) else m)"
| "spec_tbl_op (Op_Del k) m = ((m k \<noteq> None, None), m(k := None))"
| "spec_tbl_op (Op_Lookup k) m = ((m k \<noteq> None, m k), m)"
| "spec_tbl_op (Op_Has k) m = ((m k \<noteq> None, None), m)"

definition as_table :: "'a hash_table \<Rightarrow> 'a cpp_table" where
  "as_table h = \<lparr>m_head = Some (ht_head h), m_fresh = ht_fresh h\<rparr>"

lemma run_tbl_op_ht:
  "run_tbl_op p (as_table h) = Inr ((case p of Op_Put _ _ \<Rightarrow> fst (fst (run_ht_op p h)) = -1
      | Op_Has _ \<Rightarrow> fst (fst (run_ht_op p h)) = 1 | _ \<Rightarrow> fst (fst (run_ht_op p h)) = 0, snd (fst (run_ht_op p h))),
    as_table (snd (run_ht_op p h)))"
  by (cases p) (auto simp: as_table_def read_head_def tbl_add_unique_entry_def tbl_remove_entry_def tbl_get_entry_def
      tbl_has_entry_def ht_add_unique_entry_def ht_add_entry_def ht_remove_entry_def ht_get_entry_def ht_has_entry_def
      split: option.splits)

lemma spec_tbl_op_ht:
  "(case p of Op_Put _ _ \<Rightarrow> fst (fst (spec_ht_op p m)) = -1 | Op_Has _ \<Rightarrow> fst (fst (spec_ht_op p m)) = 1
      | _ \<Rightarrow> fst (fst (spec_ht_op p m)) = 0, snd (fst (spec_ht_op p m))) = fst (spec_tbl_op p m)"
  "snd (spec_ht_op p m) = snd (spec_tbl_op p m)"
  by (cases p; auto split: option.splits)+

lemma run_tbl_ops_map:
  "ht.is_map h \<Longrightarrow> \<exists>h'. run_tbl_ops ps (as_table h) = Inr (fst (run_ops spec_tbl_op ps (map_of (ht_alist h))), as_table h') \<and>
    ht.is_map h'"
proof (induction ps arbitrary: h)
  case (Cons p ps)
  note s = ht_op_simulates [OF Cons.prems, of p]
  obtain h' where h': "run_tbl_ops ps (as_table (snd (run_ht_op p h))) =
      Inr (fst (run_ops spec_tbl_op ps (map_of (ht_alist (snd (run_ht_op p h))))), as_table h')" "ht.is_map h'"
    using Cons.IH [of "snd (run_ht_op p h)"] s by blast
  have "run_tbl_op p (as_table h) = Inr (fst (spec_tbl_op p (map_of (ht_alist h))), as_table (snd (run_ht_op p h)))"
    by (simp only: run_tbl_op_ht conjunct1 [OF conjunct2 [OF s]] spec_tbl_op_ht(1))
  with h' s show ?case
    by (intro exI [of _ h']) (simp add: spec_tbl_op_ht(2) case_prod_beta Let_def)
qed auto

section \<open>Properties\<close>

text \<open>A sequence of calls on a new \<open>List\<close> with every position in range gives what it gives on a list of values; the
  copy of the list then holds these values too, and the destructor returns and deletes every node.\<close>
lemma cpp_list_refines_values:
  assumes "spec_list_ops ps [] = Some (outs, xs)"
  shows "\<exists>l n l'. run_lst_ops ps lst_create = Inr (outs, l) \<and> lst_copy l = Inr (n, l') \<and> list_rel n xs \<and>
    lst_destroy l' = Some (Inr Map.empty) \<and> lst_destroy n = Some (Inr Map.empty)"
proof -
  obtain l where l: "run_lst_ops ps lst_create = Inr (outs, l)" "list_rel l xs"
    using list_ops_simulate [OF list_new_rel assms] by (auto simp: run_lst_ops_C lst_create_new)
  obtain n l' where "lst_copy l = Inr (n, l')" "list_rel n xs" "list_rel l' xs"
    using list_copy_rel [OF l(2)] by (auto simp: lst_copy_C)
  with l(1) lst_destroy_rel show ?thesis by blast
qed

lemma cpp_list_refines_values_example:
  "\<exists>l n l'. run_lst_ops [Op_Append 1, Op_Add 0, Op_Insert 2 (5 :: nat), Op_Remove 1, Op_Get 2] lst_create =
      Inr ([None, None, None, None, Some 1], l) \<and> lst_copy l = Inr (n, l') \<and> list_rel n [5, 1] \<and>
    lst_destroy l' = Some (Inr Map.empty) \<and> lst_destroy n = Some (Inr Map.empty)"
  by (rule cpp_list_refines_values) (simp add: numeral_eq_Suc)


end
