(* ===== verification/Cpp_Templates.thy ===== *)
theory Cpp_Templates
  imports Cpp_Containers Circular_Buffer Cpp_Files
begin

text \<open>
  The templates, interfaces and macros of the C++ tracker: the abstract class \<open>Buffer\<close> with its operators, the list behind
  the interface its loops use, \<open>Stack\<close>, \<open>EnumString\<close> and the operator on sets of files in \<open>Peer.cpp\<close>.
\<close>

section \<open>The interface of buffers\<close>

text \<open>\<open>operator<<\<close> and \<open>operator>>\<close> of \<open>Buffer\<close> copy the representation of a value; the first argument is the virtual function.\<close>

definition buf_shl :: "('b \<Rightarrow> byte option list \<Rightarrow> (nat \<times> 'b) result) \<Rightarrow> byte list \<Rightarrow> 'b \<Rightarrow> 'b result" where
  "buf_shl wr v b = rbind (wr b (map Some v)) (\<lambda>(_, b). Inr b)"

definition buf_shr :: "('b \<Rightarrow> nat \<Rightarrow> (byte option list \<times> 'b) result) \<Rightarrow> nat \<Rightarrow> 'b \<Rightarrow> (byte option list \<times> 'b) result" where
  "buf_shr rd n b = rd b n"

fun buf_shrs ::
  "('b \<Rightarrow> nat \<Rightarrow> (byte option list \<times> 'b) result) \<Rightarrow> nat list \<Rightarrow> 'b \<Rightarrow> (byte option list list \<times> 'b) result" where
  "buf_shrs rd [] b = Inr ([], b)"
| "buf_shrs rd (n # ns) b = rbind (buf_shr rd n b) (\<lambda>(v, b). rbind (buf_shrs rd ns b) (\<lambda>(vs, b). Inr (v # vs, b)))"

text \<open>What a class derived from \<open>Buffer\<close> promises of its functions; \<open>rel\<close> relates a buffer to its contents.\<close>

locale byte_buffer =
  fixes wr :: "'b \<Rightarrow> byte option list \<Rightarrow> (nat \<times> 'b) result"
    and rd :: "'b \<Rightarrow> nat \<Rightarrow> (byte option list \<times> 'b) result"
    and pk :: "'b \<Rightarrow> nat \<Rightarrow> byte option list result"
    and sz :: "'b \<Rightarrow> nat"
    and cap :: "'b \<Rightarrow> nat"
    and clear :: "'b \<Rightarrow> 'b"
    and rel :: "'b \<Rightarrow> byte list \<Rightarrow> bool"
  assumes size_rel: "rel b xs \<Longrightarrow> sz b = length xs"
    and write_rel: "rel b xs \<Longrightarrow> length xs + length ys \<le> cap b \<Longrightarrow>
      \<exists>b'. wr b (map Some ys) = Inr (length ys, b') \<and> rel b' (xs @ ys) \<and> cap b' = cap b"
    and read_rel: "rel b xs \<Longrightarrow> n \<le> length xs \<Longrightarrow>
      \<exists>b'. rd b n = Inr (map Some (take n xs), b') \<and> rel b' (drop n xs) \<and> cap b' = cap b"
    and peek_rel: "rel b xs \<Longrightarrow> pk b n = Inr (map Some (take n xs))"
    and clear_rel: "rel b xs \<Longrightarrow> rel (clear b) []"
begin

lemma shl_rel:
  "rel b xs \<Longrightarrow> length xs + length v \<le> cap b \<Longrightarrow> \<exists>b'. buf_shl wr v b = Inr b' \<and> rel b' (xs @ v) \<and> cap b' = cap b"
  using write_rel [of b xs v] by (auto simp: buf_shl_def)

lemma shls_rel:
  "rel b xs \<Longrightarrow> length xs + length (concat vs) \<le> cap b \<Longrightarrow>
    \<exists>b'. fold_result (buf_shl wr) vs b = Inr b' \<and> rel b' (xs @ concat vs) \<and> cap b' = cap b"
proof (induction vs arbitrary: b xs)
  case (Cons v vs)
  obtain b1 where "buf_shl wr v b = Inr b1" "rel b1 (xs @ v)" "cap b1 = cap b" using shl_rel [of b xs v] Cons.prems by auto
  with Cons.IH [of b1 "xs @ v"] Cons.prems(2) show ?case by auto
qed auto

lemma shrs_rel:
  "rel b (concat vs @ xs) \<Longrightarrow> \<exists>b'. buf_shrs rd (map length vs) b = Inr (map (map Some) vs, b') \<and> rel b' xs \<and> cap b' = cap b"
proof (induction vs arbitrary: b)
  case (Cons v vs)
  obtain b1 where "buf_shr rd (length v) b = Inr (map Some v, b1)" "rel b1 (concat vs @ xs)" "cap b1 = cap b"
    using read_rel [OF Cons.prems, of "length v"] by (auto simp: buf_shr_def)
  with Cons.IH [of b1] show ?case by auto
qed auto

text \<open>Values written behind what a buffer holds are read back behind it, however they lie in the buffer.\<close>

lemma shl_shr:
  assumes "rel b xs" and "length xs + length (concat vs) \<le> cap b"
  shows "\<exists>b1 b2 b3. fold_result (buf_shl wr) vs b = Inr b1 \<and> rd b1 (length xs) = Inr (map Some xs, b2) \<and>
    buf_shrs rd (map length vs) b2 = Inr (map (map Some) vs, b3) \<and> rel b3 [] \<and> sz b3 = 0"
proof -
  obtain b1 where b1: "fold_result (buf_shl wr) vs b = Inr b1" "rel b1 (xs @ concat vs)" using shls_rel [OF assms] by blast
  obtain b2 where b2: "rd b1 (length xs) = Inr (map Some xs, b2)" "rel b2 (concat vs @ [])"
    using read_rel [OF b1(2), of "length xs"] by auto
  obtain b3 where b3: "buf_shrs rd (map length vs) b2 = Inr (map (map Some) vs, b3)" "rel b3 []" using shrs_rel [OF b2(2)] by blast
  with b1(1) b2(1) size_rel [OF b3(2)] show ?thesis by auto
qed

end

interpretation cb: byte_buffer cb_write cb_read cb_peek csize capacity cb_reset cb_rel
  by unfold_locales (simp_all add: cb_write_rel cb_peek_rel cb_reset_rel cb_read_rel, simp add: cb_rel_def)

section \<open>The interface of lists\<close>

interpretation cl: list_builder lst_size lst_get list_rel lst_create lst_add lst_append
  unfolding lst_C by (rule li.list_builder_axioms)

section \<open>Stack\<close>

text \<open>The constructor does not initialise \<open>m_head\<close>; the vector has \<open>bufSize\<close> elements from the start.\<close>

record 'a cpp_stack =
  st_head :: "int option"
  st_buf :: "'a list"

definition cpp_stack_create :: "nat \<Rightarrow> 'a \<Rightarrow> 'a cpp_stack" where
  "cpp_stack_create n dflt = \<lparr>st_head = None, st_buf = replicate n dflt\<rparr>"

definition read_st_head :: "'a cpp_stack \<Rightarrow> int result" where
  "read_st_head s = (case st_head s of None \<Rightarrow> Inl Uninitialised | Some h \<Rightarrow> Inr h)"

definition vector_at :: "'a list \<Rightarrow> int \<Rightarrow> 'a result" where
  "vector_at v i = (if 0 \<le> i \<and> i < int (length v) then Inr (v ! nat i) else Inl Out_Of_Bounds)"

definition cpp_stack_peek :: "'a cpp_stack \<Rightarrow> 'a result" where
  "cpp_stack_peek s = rbind (read_st_head s) (vector_at (st_buf s))"

definition cpp_stack_push :: "'a cpp_stack \<Rightarrow> 'a \<Rightarrow> 'a cpp_stack result" where
  "cpp_stack_push s x =
     rbind (read_st_head s) (\<lambda>h. let h = h + 1 in rbind (vector_at (st_buf s) h) (\<lambda>_.
       Inr \<lparr>st_head = Some h, st_buf = (st_buf s)[nat h := x]\<rparr>))"

definition cpp_stack_is_empty :: "'a cpp_stack \<Rightarrow> bool result" where
  "cpp_stack_is_empty s = rbind (read_st_head s) (\<lambda>h. Inr (h = 0))"

definition cpp_stack_size :: "'a cpp_stack \<Rightarrow> int result" where
  "cpp_stack_size s = read_st_head s"

lemma cpp_stack_uninitialised:
  "cpp_stack_push (cpp_stack_create n d) x = Inl Uninitialised" "cpp_stack_peek (cpp_stack_create n d) = Inl Uninitialised"
  "cpp_stack_is_empty (cpp_stack_create n d) = Inl Uninitialised" "cpp_stack_size (cpp_stack_create n d) = Inl Uninitialised"
  by (simp_all add: cpp_stack_create_def read_st_head_def cpp_stack_push_def cpp_stack_peek_def cpp_stack_is_empty_def cpp_stack_size_def)

text \<open>Where the head happens to be 0 the first element of the vector is never used: a stack of size \<open>n\<close> takes \<open>n - 1\<close> values.\<close>

lemma cpp_stack_pushes:
  assumes "length xs < n"
  shows "\<exists>s. fold_result (\<lambda>x s. cpp_stack_push s x) xs \<lparr>st_head = Some 0, st_buf = replicate n d\<rparr> = Inr s \<and>
    st_head s = Some (int (length xs)) \<and> length (st_buf s) = n \<and> (xs \<noteq> [] \<longrightarrow> cpp_stack_peek s = Inr (last xs)) \<and>
    (length xs = n - 1 \<longrightarrow> cpp_stack_push s x = Inl Out_Of_Bounds)"
  using assms
proof (induction xs rule: rev_induct)
  case Nil
  then show ?case by (auto simp: cpp_stack_push_def read_st_head_def vector_at_def)
next
  case (snoc y xs)
  then obtain s where s: "fold_result (\<lambda>x s. cpp_stack_push s x) xs \<lparr>st_head = Some 0, st_buf = replicate n d\<rparr> = Inr s"
    "st_head s = Some (int (length xs))" "length (st_buf s) = n" by auto
  have f: "fold_result (\<lambda>x s. cpp_stack_push s x) (xs @ [y]) s0 = rbind (fold_result (\<lambda>x s. cpp_stack_push s x) xs s0) (\<lambda>s. cpp_stack_push s y)"
    for s0 :: "'a cpp_stack"
    by (simp add: fold_result_append rbind_def split: sum.split)
  show ?case unfolding f s(1)
    using s(2,3) snoc.prems
    by (auto simp: cpp_stack_push_def cpp_stack_peek_def read_st_head_def vector_at_def Let_def nat_add_distrib)
qed

section \<open>Names of enumerations\<close>

text \<open>The macro list of an enumeration as pairs of identifier and value; a later entry for a value replaces an earlier one.\<close>

definition make_enum_string :: "(string \<times> 32 word) list \<Rightarrow> 32 word \<Rightarrow> string option" where
  "make_enum_string table = fold (\<lambda>(ident, value) m. m(value \<mapsto> ident)) table Map.empty"

definition hex_digit :: "nat \<Rightarrow> char" where
  "hex_digit n = ''0123456789abcdef'' ! (n mod 16)"

fun hex_of :: "nat \<Rightarrow> string" where
  "hex_of n = (if n < 16 then [hex_digit n] else hex_of (n div 16) @ [hex_digit n])"

declare hex_of.simps [simp del]

definition lookup_enum_name :: "string \<Rightarrow> (string \<times> 32 word) list \<Rightarrow> 32 word \<Rightarrow> string" where
  "lookup_enum_name enum_name table ident =
     (case make_enum_string table ident of
        None \<Rightarrow> ''invalid '' @ [CHR 0x27] @ enum_name @ [CHR 0x27] @ '' 0x'' @ hex_of (unat ident)
      | Some s \<Rightarrow> s)"

lemma make_enum_string_rev: "make_enum_string table = map_of (rev (map (\<lambda>(i, v). (v, i)) table))"
proof -
  have "fold (\<lambda>(ident, value) m. m(value \<mapsto> ident)) table m = m ++ map_of (rev (map (\<lambda>(i, v). (v, i)) table))" for m
    by (induction table arbitrary: m) (auto simp: map_add_def fun_eq_iff split: option.splits)
  then show ?thesis by (simp add: make_enum_string_def)
qed

lemma lookup_enum_name_listed:
  assumes "distinct (map snd table)" and "(i, v) \<in> set table"
  shows "lookup_enum_name name table v = i"
proof -
  let ?t = "rev (map (\<lambda>(i, v). (v, i)) table)"
  have "map fst ?t = rev (map snd table)" by (simp add: rev_map case_prod_beta)
  then have "distinct (map fst ?t)" using assms(1) by simp
  moreover have "(v, i) \<in> set ?t" using assms(2) by force
  ultimately have "map_of ?t v = Some i" by (rule map_of_is_SomeI)
  then show ?thesis by (simp add: lookup_enum_name_def make_enum_string_rev)
qed

lemma lookup_enum_name_test:
  "lookup_enum_name ''Kind'' [(''A'', 1), (''B'', 2)] 2 = ''B''"
  "lookup_enum_name ''Kind'' [(''A'', 1)] 0xbeef = ''invalid '' @ [CHR 0x27] @ ''Kind'' @ [CHR 0x27] @ '' 0xbeef''"
  by (simp_all add: lookup_enum_name_def make_enum_string_def hex_of.simps hex_digit_def)

section \<open>Intersection of sets of files\<close>

text \<open>
  \<open>operator&=\<close>: the loop goes through the set it erases from. Erasing the element the loop stands at leaves its iterator
  without a node, from which the loop then steps on.
\<close>

fun fileset_and_loop :: "addr list \<Rightarrow> addr list \<Rightarrow> addr list \<Rightarrow> addr list result" where
  "fileset_and_loop [] rhs lhs = Inr lhs"
| "fileset_and_loop (it # its) rhs lhs =
     (if it \<in> set rhs then fileset_and_loop its rhs lhs else Inl Use_After_Free)"

definition fileset_and :: "addr list \<Rightarrow> addr list \<Rightarrow> addr list result" where
  "fileset_and lhs rhs = fileset_and_loop lhs rhs lhs"

lemma fileset_and_subset: "fileset_and lhs rhs = (if set lhs \<subseteq> set rhs then Inr lhs else Inl Use_After_Free)"
proof -
  have "fileset_and_loop its rhs l = (if set its \<subseteq> set rhs then Inr l else Inl Use_After_Free)" for its l
    by (induction its) auto
  then show ?thesis by (simp add: fileset_and_def)
qed

end
