(* ===== verification/Cpp_Serial.thy ===== *)
theory Cpp_Serial
  imports Circular_Buffer
begin

text \<open>
  Writing values into an array of bytes and reading them back: \<open>BufferWriter\<close> and \<open>BufferReader\<close> of
  \<open>tracker_cpp/common\<close>. The array is as in \<open>Circular_Buffer\<close>, \<open>None\<close> a byte that was never written.
\<close>

section \<open>Writer and reader\<close>

record buffer_writer =
  wdata :: "byte option list"
  wsize :: nat
  wpos :: nat

record buffer_reader =
  rdata :: "byte option list"
  rsize :: nat
  rpos :: nat

definition new_writer :: "byte option list \<Rightarrow> nat \<Rightarrow> buffer_writer" where
  "new_writer data n = \<lparr>wdata = data, wsize = n, wpos = 0\<rparr>"

definition writer_write :: "buffer_writer \<Rightarrow> byte option list \<Rightarrow> buffer_writer result" where
  "writer_write w data =
     (if wpos w + length data \<le> wsize w
      then rbind (put_bytes (wdata w) (wpos w) data) (\<lambda>m. Inr (w\<lparr>wdata := m, wpos := wpos w + length data\<rparr>))
      else Inl Assert_Failed)"

text \<open>\<open>operator<<\<close> of a string writes its bytes and the NUL behind them, that of any other value its representation.\<close>

definition writer_put_string :: "buffer_writer \<Rightarrow> byte list \<Rightarrow> buffer_writer result" where
  "writer_put_string w left = writer_write w (map Some (left @ [0]))"

definition writer_put :: "buffer_writer \<Rightarrow> byte list \<Rightarrow> buffer_writer result" where
  "writer_put w left = writer_write w (map Some left)"

definition writer_offset :: "buffer_writer \<Rightarrow> nat" where
  "writer_offset w = wpos w"

definition new_reader :: "byte option list \<Rightarrow> nat \<Rightarrow> buffer_reader" where
  "new_reader data n = \<lparr>rdata = data, rsize = n, rpos = 0\<rparr>"

definition reader_read :: "buffer_reader \<Rightarrow> nat \<Rightarrow> (byte option list \<times> buffer_reader) result" where
  "reader_read r n =
     (if rpos r + n \<le> rsize r
      then rbind (get_bytes (rdata r) (rpos r) n) (\<lambda>data. Inr (data, r\<lparr>rpos := rpos r + n\<rparr>))
      else Inl Assert_Failed)"

definition reader_remaining :: "buffer_reader \<Rightarrow> nat" where
  "reader_remaining r = rsize r - rpos r"

text \<open>The loop of \<open>operator>>\<close> for strings looks at the array up to a NUL and at nothing else.\<close>

fun until_nul :: "byte option list \<Rightarrow> byte list result" where
  "until_nul [] = Inl Out_Of_Bounds"
| "until_nul (None # m) = Inl Uninitialised"
| "until_nul (Some x # m) = (if x = 0 then Inr [] else rbind (until_nul m) (\<lambda>left. Inr (x # left)))"

definition reader_get_string :: "buffer_reader \<Rightarrow> (byte list \<times> buffer_reader) result" where
  "reader_get_string r =
     rbind (until_nul (drop (rpos r) (rdata r))) (\<lambda>left. Inr (left, r\<lparr>rpos := rpos r + length left + 1\<rparr>))"

section \<open>Sequences of values\<close>

datatype item = Raw "byte list" | Text "byte list"

fun item_bytes :: "item \<Rightarrow> byte list" where
  "item_bytes (Raw bs) = bs"
| "item_bytes (Text bs) = bs @ [0]"

fun item_ok :: "item \<Rightarrow> bool" where
  "item_ok (Raw bs) = True"
| "item_ok (Text bs) = (0 \<notin> set bs)"

fun put_item :: "item \<Rightarrow> buffer_writer \<Rightarrow> buffer_writer result" where
  "put_item (Raw bs) w = writer_put w bs"
| "put_item (Text bs) w = writer_put_string w bs"

text \<open>Reading what an item of the same kind, and length, was written as.\<close>

fun get_item :: "item \<Rightarrow> buffer_reader \<Rightarrow> ((byte option list) \<times> buffer_reader) result" where
  "get_item (Raw bs) r = reader_read r (length bs)"
| "get_item (Text bs) r = rbind (reader_get_string r) (\<lambda>(s, r). Inr (map Some s, r))"

fun get_items :: "item list \<Rightarrow> buffer_reader \<Rightarrow> (byte option list list \<times> buffer_reader) result" where
  "get_items [] r = Inr ([], r)"
| "get_items (i # is) r = rbind (get_item i r) (\<lambda>(x, r). rbind (get_items is r) (\<lambda>(xs, r). Inr (x # xs, r)))"

fun item_value :: "item \<Rightarrow> byte option list" where
  "item_value (Raw bs) = map Some bs"
| "item_value (Text bs) = map Some bs"

definition items_size :: "item list \<Rightarrow> nat" where
  "items_size is = length (concat (map item_bytes is))"

lemma put_item_write: "put_item i w = writer_write w (map Some (item_bytes i))"
  by (cases i) (simp_all add: writer_put_def writer_put_string_def)

lemma put_items:
  assumes "wpos w \<le> length (wdata w)" and "length (wdata w) = wsize w"
  shows "fold_result put_item is w =
    (if wpos w + items_size is \<le> wsize w
     then Inr (w\<lparr>wdata := take (wpos w) (wdata w) @ map Some (concat (map item_bytes is)) @ drop (wpos w + items_size is) (wdata w),
       wpos := wpos w + items_size is\<rparr>)
     else Inl Assert_Failed)"
  using assms
proof (induction "is" arbitrary: w)
  case Nil
  then show ?case by (simp add: items_size_def)
next
  case (Cons i "is")
  let ?b = "map Some (item_bytes i)"
  have t: "items_size (i # is) = length (item_bytes i) + items_size is" by (simp add: items_size_def)
  show ?case
  proof (cases "wpos w + length ?b \<le> wsize w")
    case True
    let ?w = "w\<lparr>wdata := take (wpos w) (wdata w) @ ?b @ drop (wpos w + length ?b) (wdata w), wpos := wpos w + length ?b\<rparr>"
    have "put_item i w = Inr ?w" using True Cons.prems by (simp add: put_item_write writer_write_def put_bytes_def)
    moreover have "wpos ?w \<le> length (wdata ?w)" "length (wdata ?w) = wsize ?w" using True Cons.prems by simp_all
    note Cons.IH [OF this]
    ultimately show ?thesis using True Cons.prems by (simp add: t add_ac)
  next
    case False
    then show ?thesis by (simp add: put_item_write writer_write_def t)
  qed
qed

lemma until_nul_string: "0 \<notin> set bs \<Longrightarrow> until_nul (map Some bs @ Some 0 # m) = Inr bs"
  by (induction bs) auto

lemma get_items_value:
  assumes "drop (rpos r) (rdata r) = map Some (concat (map item_bytes is)) @ m" and "rpos r \<le> length (rdata r)"
    and "rpos r + items_size is \<le> rsize r" and "\<forall>i \<in> set is. item_ok i" and "rsize r \<le> length (rdata r)"
  shows "get_items is r = Inr (map item_value is, r\<lparr>rpos := rpos r + items_size is\<rparr>)"
  using assms
proof (induction "is" arbitrary: r)
  case Nil
  then show ?case by (simp add: items_size_def)
next
  case (Cons i "is")
  let ?r = "r\<lparr>rpos := rpos r + length (item_bytes i)\<rparr>"
  have t: "items_size (i # is) = length (item_bytes i) + items_size is" by (simp add: items_size_def)
  have d: "drop (rpos r) (rdata r) = map Some (item_bytes i) @ map Some (concat (map item_bytes is)) @ m"
    using Cons.prems(1) by simp
  have l: "rpos r + length (item_bytes i) \<le> length (rdata r)" using Cons.prems(3,5) t by simp
  have "get_item i r = Inr (item_value i, ?r)"
  proof (cases i)
    case (Raw bs)
    with Cons.prems(3) t l d show ?thesis by (simp add: reader_read_def get_bytes_def)
  next
    case (Text bs)
    with d until_nul_string Cons.prems(4) show ?thesis by (simp add: reader_get_string_def)
  qed
  moreover have "drop (rpos ?r) (rdata ?r) = map Some (concat (map item_bytes is)) @ m"
    using arg_cong [OF d, of "drop (length (item_bytes i))"] by (simp add: add.commute)
  then have "get_items is ?r = Inr (map item_value is, ?r\<lparr>rpos := rpos ?r + items_size is\<rparr>)"
    using Cons.prems(3-5) t l by (intro Cons.IH) simp_all
  ultimately show ?case by (simp add: t add.assoc)
qed

section \<open>Property\<close>

text \<open>C39: Values written one after the other into an array, strings without a NUL and representations of any length, are
  read back in the same order, and the reader stands where the writer stood, if they fit; if they do not, an assertion
  of the writer fails.\<close>
theorem buffer_roundtrip:
  assumes "\<forall>i \<in> set is. item_ok i"
  shows "if items_size is \<le> n
    then \<exists>w. fold_result put_item is (new_writer (replicate n None) n) = Inr w \<and> writer_offset w = items_size is \<and>
      (\<exists>r. get_items is (new_reader (wdata w) n) = Inr (map item_value is, r) \<and> reader_remaining r = n - items_size is)
    else fold_result put_item is (new_writer (replicate n None) n) = Inl Assert_Failed"
proof (cases "items_size is \<le> n")
  case True
  let ?data = "map Some (concat (map item_bytes is)) @ replicate (n - items_size is) None"
  have w: "fold_result put_item is (new_writer (replicate n None) n) = Inr \<lparr>wdata = ?data, wsize = n, wpos = items_size is\<rparr>"
    using True put_items [of "new_writer (replicate n None) n" "is"] by (simp add: new_writer_def)
  have "get_items is (new_reader ?data n) = Inr (map item_value is, (new_reader ?data n)\<lparr>rpos := 0 + items_size is\<rparr>)"
    using True assms get_items_value [of "new_reader ?data n" "is" "replicate (n - items_size is) None"]
    by (simp add: new_reader_def items_size_def)
  with w True show ?thesis by (simp add: writer_offset_def reader_remaining_def new_reader_def)
next
  case False
  then show ?thesis using put_items [of "new_writer (replicate n None) n" "is"] by (simp add: new_writer_def)
qed

lemma buffer_roundtrip_witness:
  "\<exists>w r. fold_result put_item [Raw [0, 1], Text [0x61], Raw [7]] (new_writer (replicate 6 None) 6) = Inr w \<and>
     get_items [Raw [0, 1], Text [0x61], Raw [7]] (new_reader (wdata w) 6) =
       Inr ([[Some 0, Some 1], [Some 0x61], [Some 7]], r) \<and> reader_remaining r = 1"
  using buffer_roundtrip [of "[Raw [0, 1], Text [0x61], Raw [7]]" 6] by (auto simp: items_size_def)

end
