(* ===== verification/Stack.thy ===== *)
theory Stack
  imports Prelude
begin

text \<open>
  \<open>cutil/stack.c\<close>: a bounded stack in an array that is allocated once. \<open>head\<close> is the \<open>int\<close>
  index of the top element, -1 for none. The component's contract is the locale
  \<open>bounded_stack\<close>: a list that ignores what is pushed beyond its capacity.
\<close>

section \<open>Operations\<close>

text \<open>
  \<open>buf\<close> has as many elements as \<open>stack_create\<close> allocated, \<open>None\<close> where none was stored yet.
\<close>

record 'a stack =
  head :: "32 word"
  buffer_size :: "32 word"
  buf :: "'a option list"

definition stack_size :: "'a stack \<Rightarrow> 64 word" where
  "stack_size s = scast (head s + 1)"

definition stack_create :: "nat \<Rightarrow> 'a stack" where
  "stack_create n = \<lparr>head = -1, buffer_size = of_nat n, buf = replicate n None\<rparr>"

definition stack_is_empty :: "'a stack \<Rightarrow> bool" where
  "stack_is_empty s \<longleftrightarrow> head s = -1"

definition stack_is_full :: "'a stack \<Rightarrow> bool" where
  "stack_is_full s \<longleftrightarrow> head s = buffer_size s - 1"

text \<open>\<open>buf[i]\<close> for an \<open>int\<close> index.\<close>

definition buf_get :: "'a stack \<Rightarrow> 32 word \<Rightarrow> 'a result" where
  "buf_get s i =
     (if sint i < 0 \<or> length (buf s) \<le> nat (sint i) then Inl Out_Of_Bounds
      else case buf s ! nat (sint i) of None \<Rightarrow> Inl Uninitialised | Some x \<Rightarrow> Inr x)"

definition buf_set :: "'a stack \<Rightarrow> 32 word \<Rightarrow> 'a \<Rightarrow> 'a stack result" where
  "buf_set s i x =
     (if sint i < 0 \<or> length (buf s) \<le> nat (sint i) then Inl Out_Of_Bounds
      else Inr (s\<lparr>buf := (buf s)[nat (sint i) := Some x]\<rparr>))"

definition stack_push :: "'a stack \<Rightarrow> 'a \<Rightarrow> 'a stack result" where
  "stack_push s element =
     (if stack_is_full s then Inr s
      else let s' = s\<lparr>head := head s + 1\<rparr> in buf_set s' (head s') element)"

definition stack_peek :: "'a stack \<Rightarrow> 'a result" where
  "stack_peek s = buf_get s (head s)"

text \<open>The result is \<open>None\<close> for \<open>STACK_TYPE_INITIALIZER\<close>, the null pointer.\<close>

definition stack_pop :: "'a stack \<Rightarrow> ('a option \<times> 'a stack) result" where
  "stack_pop s =
     (if stack_is_empty s then Inr (None, s)
      else rbind (buf_get s (head s)) (\<lambda>tmp. Inr (Some tmp, s\<lparr>head := head s - 1\<rparr>)))"

section \<open>The contract\<close>

locale bounded_stack =
  fixes create :: "nat \<Rightarrow> 's"
    and push :: "'s \<Rightarrow> 'a \<Rightarrow> 's result"
    and pop :: "'s \<Rightarrow> ('a option \<times> 's) result"
    and peek :: "'s \<Rightarrow> 'a result"
    and rel :: "'s \<Rightarrow> nat \<Rightarrow> 'a list \<Rightarrow> bool"
  assumes create_rel: "n < 2 ^ 31 \<Longrightarrow> rel (create n) n []"
    and push_rel: "rel s n xs \<Longrightarrow> \<exists>s'. push s x = Inr s' \<and> rel s' n (if length xs = n then xs else x # xs)"
    and pop_rel: "rel s n xs \<Longrightarrow>
      \<exists>s'. pop s = Inr (case xs of [] \<Rightarrow> None | x # _ \<Rightarrow> Some x, s') \<and> rel s' n (tl xs)"
    and peek_rel: "rel s n (x # xs) \<Longrightarrow> peek s = Inr x"
begin

text \<open>Popping after pushing gives the element back, and the stack before, if there was room.\<close>

lemma pop_push:
  assumes "rel s n xs" and "length xs < n"
  shows "\<exists>s' s''. push s x = Inr s' \<and> pop s' = Inr (Some x, s'') \<and> rel s'' n xs"
proof -
  obtain s' where s': "push s x = Inr s'" "rel s' n (x # xs)"
    using push_rel [OF assms(1), of x] assms(2) by auto
  from pop_rel [OF this(2)] s'(1) show ?thesis by auto
qed

lemma push_all:
  assumes "rel s n xs" and "length xs + length ys \<le> n"
  shows "\<exists>s'. foldl (\<lambda>r y. rbind r (\<lambda>s. push s y)) (Inr s) ys = Inr s' \<and> rel s' n (rev ys @ xs)"
  using assms
proof (induction ys arbitrary: s xs)
  case Nil
  then show ?case by simp
next
  case (Cons y ys)
  obtain s1 where s1: "push s y = Inr s1" "rel s1 n (y # xs)"
    using push_rel [OF Cons.prems(1), of y] Cons.prems(2) by auto
  from Cons.IH [OF this(2)] Cons.prems(2) s1(1) show ?case by simp
qed

end

definition stack_rel :: "'a stack \<Rightarrow> nat \<Rightarrow> 'a list \<Rightarrow> bool" where
  "stack_rel s n xs \<longleftrightarrow> n < 2 ^ 31 \<and> length xs \<le> n \<and> head s = of_nat (length xs) - 1 \<and>
     buffer_size s = of_nat n \<and> length (buf s) = n \<and> (\<forall>i < length xs. buf s ! i = Some (rev xs ! i))"

lemma of_nat_32_eq: "m < 2 ^ 31 \<Longrightarrow> n < 2 ^ 31 \<Longrightarrow> (of_nat m :: 32 word) = of_nat n \<longleftrightarrow> m = n"
  by (simp add: word_of_nat_eq_iff take_bit_nat_eq_self)

lemma sint_of_nat_32: "n < 2 ^ 31 \<Longrightarrow> sint (of_nat n :: 32 word) = int n"
  by (simp add: signed_of_nat signed_take_bit_int_eq_self)

lemma stack_rel_full: "stack_rel s n xs \<Longrightarrow> stack_is_full s \<longleftrightarrow> length xs = n"
  by (auto simp: stack_rel_def stack_is_full_def of_nat_32_eq)

lemma stack_rel_empty: "stack_rel s n xs \<Longrightarrow> stack_is_empty s \<longleftrightarrow> xs = []"
  using of_nat_32_eq [of "length xs" 0] by (auto simp: stack_rel_def stack_is_empty_def)

lemma stack_rel_size:
  assumes "stack_rel s n xs"
  shows "stack_size s = of_nat (length xs)"
proof -
  have "head s + 1 = of_nat (length xs)" "length xs < 2 ^ 31" using assms by (auto simp: stack_rel_def)
  then show ?thesis by (simp add: stack_size_def scast_eq sint_of_nat_32)
qed

lemma stack_rel_top:
  assumes "stack_rel s n (x # xs)"
  shows "buf_get s (head s) = Inr x"
  using assms by (auto simp: stack_rel_def buf_get_def sint_of_nat_32 nth_append)

lemma stack_create_rel: "n < 2 ^ 31 \<Longrightarrow> stack_rel (stack_create n) n []"
  by (simp add: stack_rel_def stack_create_def)

lemma stack_push_rel:
  assumes "stack_rel s n xs"
  shows "\<exists>s'. stack_push s x = Inr s' \<and> stack_rel s' n (if length xs = n then xs else x # xs)"
proof (cases "length xs = n")
  case True
  with assms show ?thesis by (simp add: stack_push_def stack_rel_full)
next
  case False
  then have len: "length xs < n" "n < 2 ^ 31" using assms by (auto simp: stack_rel_def)
  have h: "head s + 1 = of_nat (length xs)" using assms by (simp add: stack_rel_def)
  have si: "sint (of_nat (length xs) :: 32 word) = int (length xs)" using len by (simp add: sint_of_nat_32)
  have "\<not> stack_is_full s" using stack_rel_full [OF assms] False by simp
  then show ?thesis
    using assms len False si
    by (auto simp: stack_push_def h buf_set_def Let_def stack_rel_def nth_list_update nth_append less_Suc_eq)
qed

lemma stack_pop_rel:
  assumes "stack_rel s n xs"
  shows "\<exists>s'. stack_pop s = Inr (case xs of [] \<Rightarrow> None | x # _ \<Rightarrow> Some x, s') \<and> stack_rel s' n (tl xs)"
proof (cases xs)
  case Nil
  with assms show ?thesis by (simp add: stack_pop_def stack_rel_empty)
next
  case (Cons x ys)
  then have top: "buf_get s (head s) = Inr x" using stack_rel_top [of s n x ys] assms by simp
  have "stack_rel (s\<lparr>head := head s - 1\<rparr>) n ys"
    using assms Cons by (auto simp: stack_rel_def nth_append)
  with assms Cons top show ?thesis by (simp add: stack_pop_def stack_rel_empty)
qed

interpretation st: bounded_stack stack_create stack_push stack_pop stack_peek stack_rel
  by unfold_locales
    (simp_all add: stack_create_rel stack_push_rel stack_pop_rel stack_peek_def stack_rel_top)

section \<open>Properties\<close>

datatype 'a stack_op = Op_Push 'a | Op_Pop | Op_Size

fun run_stack_ops :: "'a stack_op list \<Rightarrow> 'a stack \<Rightarrow> ('a option list \<times> 64 word list) result" where
  "run_stack_ops [] s = Inr ([], [])"
| "run_stack_ops (Op_Push x # ps) s = rbind (stack_push s x) (run_stack_ops ps)"
| "run_stack_ops (Op_Pop # ps) s =
     rbind (stack_pop s) (\<lambda>(x, s'). rbind (run_stack_ops ps s') (\<lambda>(xs, ns). Inr (x # xs, ns)))"
| "run_stack_ops (Op_Size # ps) s = rbind (run_stack_ops ps s) (\<lambda>(xs, ns). Inr (xs, stack_size s # ns))"

fun spec_stack_ops :: "nat \<Rightarrow> 'a stack_op list \<Rightarrow> 'a list \<Rightarrow> 'a option list \<times> nat list" where
  "spec_stack_ops n [] xs = ([], [])"
| "spec_stack_ops n (Op_Push x # ps) xs = spec_stack_ops n ps (if length xs = n then xs else x # xs)"
| "spec_stack_ops n (Op_Pop # ps) xs =
     (let (ys, ns) = spec_stack_ops n ps (tl xs) in ((case xs of [] \<Rightarrow> None | x # _ \<Rightarrow> Some x) # ys, ns))"
| "spec_stack_ops n (Op_Size # ps) xs = (let (ys, ns) = spec_stack_ops n ps xs in (ys, length xs # ns))"

lemma stack_ops_simulate:
  "stack_rel s n xs \<Longrightarrow> run_stack_ops ps s =
     Inr (fst (spec_stack_ops n ps xs), map of_nat (snd (spec_stack_ops n ps xs)))"
proof (induction n ps xs arbitrary: s rule: spec_stack_ops.induct)
  case (2 n x ps xs)
  obtain s' where "stack_push s x = Inr s'" "stack_rel s' n (if length xs = n then xs else x # xs)"
    using stack_push_rel [OF 2(2)] by blast
  with 2(1) show ?case by simp
next
  case (3 n ps xs)
  obtain s' where "stack_pop s = Inr (case xs of [] \<Rightarrow> None | x # _ \<Rightarrow> Some x, s')" "stack_rel s' n (tl xs)"
    using stack_pop_rel [OF 3(2)] by blast
  with 3(1) show ?case by (simp add: case_prod_beta Let_def)
next
  case (4 n ps xs)
  with stack_rel_size [OF 4(2)] show ?case by (simp add: case_prod_beta Let_def)
qed simp

text \<open>
  C34: Any sequence of pushes, pops and size queries on a stack created for up to \<open>2 ^ 31 - 1\<close>
  elements gives the results of a list that drops what is pushed when it is full; popping an
  empty stack gives the null pointer, but peeking into it reads before the array.
\<close>

theorem stack_refines_bounded_list:
  assumes "n < 2 ^ 31"
  shows "run_stack_ops ps (stack_create n) =
      Inr (fst (spec_stack_ops n ps []), map of_nat (snd (spec_stack_ops n ps []))) \<and>
    stack_peek (stack_create n) = Inl Out_Of_Bounds"
  using stack_ops_simulate [OF stack_create_rel [OF assms]]
  by (simp add: stack_peek_def stack_create_def buf_get_def)

lemma stack_refines_bounded_list_witness:
  "run_stack_ops [Op_Push 1, Op_Push 2, Op_Push (3 :: nat), Op_Size, Op_Pop, Op_Pop, Op_Pop] (stack_create 2) =
     Inr ([Some 2, Some 1, None], [2]) \<and> stack_peek (stack_create 2 :: nat stack) = Inl Out_Of_Bounds"
  using stack_refines_bounded_list [of 2 "[Op_Push 1, Op_Push 2, Op_Push (3 :: nat), Op_Size, Op_Pop, Op_Pop, Op_Pop]"]
  by simp

end
