(* ===== verification/Yaml.thy ===== *)
theory Yaml
  imports HashTable Stack
begin

text \<open>
  \<open>cutil/yaml2.c\<close>: building a tree of \<open>struct yaml_wrap\<close> from the events of libyaml, printing it
  and freeing it. libyaml is not part of the program: a document is the list of events
  \<open>yaml_parser_parse\<close> delivers, and when the list is used up the next call fails. A node of the
  tree is shared between the parser's stack and its parent, so nodes live in a store.
\<close>

section \<open>Data\<close>

datatype yaml_wrap =
    YAML_MAPPING "nat hash_table"
  | YAML_SEQUENCE "nat clist"
  | YAML_SCALAR string

datatype yaml_event =
    Document_End | Sequence_Start | Sequence_End | Mapping_Start | Mapping_End
  | Scalar string | Stream_End | Other_Event

text \<open>
  The local variables of \<open>yaml2_parse_file\<close>. \<open>yamlw\<close> is what its first argument points to:
  \<open>None\<close> as long as it is not assigned, and \<open>Some None\<close> for a null pointer.
\<close>

record yaml_parser =
  ystore :: "nat \<Rightarrow> yaml_wrap option"
  ynext :: nat
  parser_stack :: "nat stack"
  keyname :: "string option"
  ykey :: bool
  yamlw :: "nat option option"

definition yaml_init :: yaml_parser where
  "yaml_init = \<lparr>ystore = Map.empty, ynext = 0, parser_stack = stack_create 100, keyname = None,
     ykey = False, yamlw = None\<rparr>"

definition load_wrap :: "(nat \<Rightarrow> yaml_wrap option) \<Rightarrow> nat \<Rightarrow> yaml_wrap result" where
  "load_wrap st a = (case st a of None \<Rightarrow> Inl Use_After_Free | Some w \<Rightarrow> Inr w)"

section \<open>Parsing\<close>

definition add_to_head :: "yaml_parser \<Rightarrow> string option \<Rightarrow> nat \<Rightarrow> yaml_parser result" where
  "add_to_head y key newhead =
     rbind (stack_peek (parser_stack y)) (\<lambda>a. rbind (load_wrap (ystore y) a) (\<lambda>head.
       case head of
         YAML_MAPPING m \<Rightarrow>
           rbind (deref key) (\<lambda>k. Inr (y\<lparr>ystore := (ystore y)(a \<mapsto> YAML_MAPPING (ht_add_entry m k newhead))\<rparr>))
       | YAML_SEQUENCE l \<Rightarrow>
           rbind (list_append l newhead) (\<lambda>l'. Inr (y\<lparr>ystore := (ystore y)(a \<mapsto> YAML_SEQUENCE l')\<rparr>))
       | YAML_SCALAR _ \<Rightarrow> Inr y))"

definition parser_stack_push :: "yaml_parser \<Rightarrow> yaml_wrap \<Rightarrow> string option \<Rightarrow> yaml_parser result" where
  "parser_stack_push y w key =
     (let newhead = ynext y;
          y1 = y\<lparr>ystore := (ystore y)(newhead \<mapsto> w), ynext := Suc newhead\<rparr>
      in rbind (if 0 < stack_size (parser_stack y1) then add_to_head y1 key newhead else Inr y1) (\<lambda>y2.
         rbind (stack_push (parser_stack y2) newhead) (\<lambda>s. Inr (y2\<lparr>parser_stack := s\<rparr>))))"

definition parser_stack_pop :: "yaml_parser \<Rightarrow> (nat option \<times> yaml_parser) result" where
  "parser_stack_pop y = rbind (stack_pop (parser_stack y)) (\<lambda>(a, s). Inr (a, y\<lparr>parser_stack := s\<rparr>))"

definition yaml_scalar :: "yaml_parser \<Rightarrow> string \<Rightarrow> yaml_parser result" where
  "yaml_scalar y v =
     (if 0 < stack_size (parser_stack y)
      then rbind (stack_peek (parser_stack y)) (\<lambda>a. rbind (load_wrap (ystore y) a) (\<lambda>head.
        case head of
          YAML_MAPPING _ \<Rightarrow>
            if \<not> ykey y then Inr (y\<lparr>keyname := Some v, ykey := True\<rparr>)
            else rbind (parser_stack_push y (YAML_SCALAR v) (keyname y)) (\<lambda>y1.
                 rbind (parser_stack_pop (y1\<lparr>keyname := None\<rparr>)) (\<lambda>(_, y2). Inr (y2\<lparr>ykey := False\<rparr>)))
        | YAML_SEQUENCE _ \<Rightarrow>
            rbind (parser_stack_push y (YAML_SCALAR v) (keyname y)) (\<lambda>y1.
            rbind (parser_stack_pop y1) (\<lambda>(_, y2). Inr y2))
        | YAML_SCALAR _ \<Rightarrow> Inl Assert_Failed))
      else parser_stack_push y (YAML_SCALAR v) None)"

text \<open>An event that does not end the loop.\<close>

fun yaml_event_step :: "yaml_event \<Rightarrow> yaml_parser \<Rightarrow> yaml_parser result" where
  "yaml_event_step Sequence_Start y =
     rbind (parser_stack_push y (YAML_SEQUENCE (list_new True)) (keyname y)) (\<lambda>y1. Inr (y1\<lparr>keyname := None\<rparr>))"
| "yaml_event_step Mapping_Start y =
     rbind (parser_stack_push (y\<lparr>ykey := False\<rparr>) (YAML_MAPPING ht_create) (keyname y)) (\<lambda>y1. Inr (y1\<lparr>keyname := None\<rparr>))"
| "yaml_event_step Mapping_End y = rbind (parser_stack_pop y) (\<lambda>(a, y1). Inr (y1\<lparr>yamlw := Some a\<rparr>))"
| "yaml_event_step Sequence_End y = rbind (parser_stack_pop y) (\<lambda>(a, y1). Inr (y1\<lparr>yamlw := Some a\<rparr>))"
| "yaml_event_step (Scalar v) y = yaml_scalar y v"
| "yaml_event_step _ y = Inr y"

fun yaml_loop :: "yaml_event list \<Rightarrow> yaml_parser \<Rightarrow> (int \<times> yaml_parser) result" where
  "yaml_loop [] y = Inr (-1, y)"
| "yaml_loop (e # es) y =
     (if e = Document_End
      then (if 0 < stack_size (parser_stack y)
            then rbind (parser_stack_pop y) (\<lambda>(a, y1). Inr (0, y1\<lparr>yamlw := Some a\<rparr>))
            else Inr (0, y))
      else if e = Stream_End then Inr (0, y)
      else rbind (yaml_event_step e y) (yaml_loop es))"

text \<open>
  \<open>initialized\<close> is what \<open>yaml_parser_initialize\<close> returns, \<open>fh\<close> the events of the opened file, \<open>None\<close> where
  \<open>fopen\<close> fails.
\<close>

definition yaml2_parse_file :: "bool \<Rightarrow> yaml_event list option \<Rightarrow> (int \<times> yaml_parser) result" where
  "yaml2_parse_file initialized fh =
     (if \<not> initialized then Inr (-1, yaml_init)
      else case fh of
             None \<Rightarrow> Inr (-1, yaml_init)
           | Some events \<Rightarrow> yaml_loop events yaml_init)"

section \<open>Printing and freeing\<close>

text \<open>The recursion follows the tree; the first argument bounds its depth.\<close>

primrec yaml2_dump :: "nat \<Rightarrow> (nat \<Rightarrow> yaml_wrap option) \<Rightarrow> nat \<Rightarrow> string result" where
  "yaml2_dump 0 st yw = Inl Diverges"
| "yaml2_dump (Suc n) st yw =
     rbind (load_wrap st yw) (\<lambda>w.
       case w of
         YAML_SEQUENCE l \<Rightarrow>
           rbind (list_iter list_get
             (\<lambda>a out. rbind (deref a) (\<lambda>a. rbind (yaml2_dump n st a) (\<lambda>s. Inr (out @ ''- '' @ s))))
             1 (list_size l) l [])
           (\<lambda>(_, out). Inr (''yaml sequence start:'' @ [CHR 0x0A] @ out @ ''yaml sequence end'' @ [CHR 0x0A]))
       | YAML_MAPPING m \<Rightarrow>
           rbind (ht_for_each m
             (\<lambda>name data acc. rbind acc (\<lambda>out. rbind (yaml2_dump n st data) (\<lambda>s. Inr (out @ name @ '': '' @ s))))
             (Inr []))
           (\<lambda>out. Inr (''yaml mapping start:'' @ [CHR 0x0A] @ out @ ''yaml mapping end'' @ [CHR 0x0A]))
       | YAML_SCALAR s \<Rightarrow> Inr (s @ [CHR 0x0A]))"

primrec yaml2_free :: "nat \<Rightarrow> (nat \<Rightarrow> yaml_wrap option) \<Rightarrow> nat option \<Rightarrow> (nat \<Rightarrow> yaml_wrap option) result" where
  "yaml2_free 0 st yw = Inl Diverges"
| "yaml2_free (Suc n) st yw =
     (case yw of
        None \<Rightarrow> Inr st
      | Some a \<Rightarrow>
          rbind (load_wrap st a) (\<lambda>w.
          rbind (case w of
                   YAML_MAPPING m \<Rightarrow> ht_for_each m (\<lambda>_ b acc. rbind acc (\<lambda>st. yaml2_free n st (Some b))) (Inr st)
                 | YAML_SEQUENCE l \<Rightarrow>
                     (case list_free (Some l) of
                        None \<Rightarrow> Inl Diverges
                      | Some r \<Rightarrow> rbind r (\<lambda>(_, freed). fold_result (\<lambda>b st. yaml2_free n st b) freed st))
                 | YAML_SCALAR _ \<Rightarrow> Inr st)
            (\<lambda>st'. Inr (st'(a := None)))))"

section \<open>A mapping of scalars\<close>

text \<open>The events of a document that maps keys to scalars, the shape of a configuration file.\<close>

definition pair_events :: "(string \<times> string) list \<Rightarrow> yaml_event list" where
  "pair_events kvs = concat (map (\<lambda>(k, v). [Scalar k, Scalar v]) kvs)"

definition mapping_document :: "(string \<times> string) list \<Rightarrow> yaml_event list" where
  "mapping_document kvs = [Other_Event, Other_Event, Mapping_Start] @ pair_events kvs @ [Mapping_End, Document_End]"

text \<open>The mapping node \<open>a\<close> has the entries \<open>kvs\<close>, in this order and all of them scalars.\<close>

definition scalar_entries :: "(nat \<Rightarrow> yaml_wrap option) \<Rightarrow> nat hash_table \<Rightarrow> (string \<times> string) list \<Rightarrow> bool" where
  "scalar_entries st m kvs \<longleftrightarrow> ht_inv m \<and>
     list_all2 (\<lambda>(k, b) (k', v). k = k' \<and> st b = Some (YAML_SCALAR v)) (ht_alist m) kvs"

definition in_mapping :: "yaml_parser \<Rightarrow> (string \<times> string) list \<Rightarrow> bool" where
  "in_mapping y kvs \<longleftrightarrow> stack_rel (parser_stack y) 100 [0] \<and> 0 < ynext y \<and> (\<forall>b \<ge> ynext y. ystore y b = None) \<and>
     (\<exists>m. ystore y 0 = Some (YAML_MAPPING m) \<and> scalar_entries (ystore y) m kvs)"

lemma stack_top_props:
  assumes "stack_rel s n (x # xs)"
  shows "0 < stack_size s" "stack_peek s = Inr x"
proof -
  have "length (x # xs) < 2 ^ 31" using assms by (auto simp: stack_rel_def)
  then have "(of_nat (length (x # xs)) :: 64 word) \<noteq> 0"
    by (simp only: word_of_nat_eq_0_iff) (auto dest: dvd_imp_le)
  then show "0 < stack_size s" unfolding stack_rel_size [OF assms] by (simp only: word_gt_0 not_False_eq_True)
  show "stack_peek s = Inr x" by (rule st.peek_rel [OF assms])
qed

lemma stack_empty_props: "stack_rel s n [] \<Longrightarrow> \<not> 0 < stack_size s"
  using stack_rel_size by fastforce

lemma pair_step:
  assumes "in_mapping y kvs" and "\<not> ykey y"
  shows "\<exists>y'. rbind (yaml_event_step (Scalar k) y) (yaml_event_step (Scalar v)) = Inr y' \<and>
    in_mapping y' (kvs @ [(k, v)]) \<and> \<not> ykey y' \<and> keyname y' = None"
proof -
  obtain m where s: "stack_rel (parser_stack y) 100 [0]" "0 < ynext y" "\<forall>b \<ge> ynext y. ystore y b = None"
      "ystore y 0 = Some (YAML_MAPPING m)" "scalar_entries (ystore y) m kvs"
    using assms(1) by (auto simp: in_mapping_def)
  note top = stack_top_props [OF s(1)]
  define a where "a = ynext y"
  have a: "a \<noteq> 0" "ystore y a = None" using s(2,3) by (auto simp: a_def)
  define st' where "st' = (ystore y)(a \<mapsto> YAML_SCALAR v, 0 \<mapsto> YAML_MAPPING (ht_add_entry m k a))"
  obtain s1 s2 where p: "stack_push (parser_stack y) a = Inr s1" "stack_pop s1 = Inr (Some a, s2)" "stack_rel s2 100 [0]"
    using st.pop_push [OF s(1), of a] by auto
  have e: "rbind (yaml_event_step (Scalar k) y) (yaml_event_step (Scalar v)) =
      Inr (y\<lparr>ystore := st', ynext := Suc a, parser_stack := s2, keyname := None, ykey := False\<rparr>)"
    using top s(4) assms(2) a p
    by (simp add: yaml_scalar_def load_wrap_def parser_stack_push_def add_to_head_def parser_stack_pop_def
        a_def [symmetric] st'_def)
  have "ht_alist (ht_add_entry m k a) = ht_alist m @ [(k, a)]" "ht_inv (ht_add_entry m k a)"
    using ht_add_entry_inv [of m k a] s(5) by (simp_all add: scalar_entries_def)
  moreover have "list_all2 (\<lambda>(k, b) (k', v). k = k' \<and> st' b = Some (YAML_SCALAR v)) (ht_alist m) kvs"
    using s(5) unfolding scalar_entries_def
    by (auto elim!: list_all2_mono simp: st'_def a(2) s(4) split: if_splits)
      (use s(4) in \<open>auto intro!: gr0I\<close>)
  ultimately have "scalar_entries st' (ht_add_entry m k a) (kvs @ [(k, v)])"
    using a by (auto simp: scalar_entries_def st'_def intro!: list_all2_appendI)
  then show ?thesis
    unfolding e using p(3) s(3) a by (auto simp: in_mapping_def st'_def a_def)
qed

lemma yaml_loop_scalar:
  "yaml_loop (Scalar v # r) = (\<lambda>y. rbind (yaml_event_step (Scalar v) y) (yaml_loop r))"
  by (rule ext) simp

lemma pairs_loop:
  assumes "in_mapping y kvs" and "\<not> ykey y" and "keyname y = None"
  shows "\<exists>y'. yaml_loop (pair_events ps @ rest) y = yaml_loop rest y' \<and>
    in_mapping y' (kvs @ ps) \<and> \<not> ykey y' \<and> keyname y' = None"
  using assms
proof (induction ps arbitrary: y kvs)
  case Nil
  then show ?case by (auto simp: pair_events_def)
next
  case (Cons p ps)
  obtain k v where p: "p = (k, v)" by (cases p)
  obtain y1 where y1: "rbind (yaml_event_step (Scalar k) y) (yaml_event_step (Scalar v)) = Inr y1"
      "in_mapping y1 (kvs @ [(k, v)])" "\<not> ykey y1" "keyname y1 = None"
    using pair_step [OF Cons.prems(1,2)] by blast
  have "yaml_loop (pair_events (p # ps) @ rest) y =
      rbind (rbind (yaml_event_step (Scalar k) y) (yaml_event_step (Scalar v))) (yaml_loop (pair_events ps @ rest))"
    by (simp only: p pair_events_def rbind_assoc list.map concat.simps prod.case append.simps yaml_loop_scalar append_assoc)
  with y1(1) Cons.IH [OF y1(2-4)] show ?case by (simp add: p)
qed

lemma mapping_start:
  "\<exists>y. yaml_loop (Other_Event # Other_Event # Mapping_Start # rest) yaml_init = yaml_loop rest y \<and>
    in_mapping y [] \<and> \<not> ykey y \<and> keyname y = None"
proof -
  have e: "stack_rel (parser_stack yaml_init) 100 []" by (simp add: yaml_init_def stack_create_rel)
  from stack_empty_props [OF this] have "\<not> 0 < stack_size (parser_stack yaml_init)" .
  moreover obtain s where "stack_push (parser_stack yaml_init) 0 = Inr s" "stack_rel s 100 [0]"
    using st.push_rel [OF e, of 0] by auto
  ultimately have e1: "yaml_loop (Other_Event # Other_Event # Mapping_Start # rest) yaml_init =
      yaml_loop rest (yaml_init\<lparr>ystore := [0 \<mapsto> YAML_MAPPING ht_create], ynext := 1, parser_stack := s\<rparr>)"
    and "stack_rel s 100 [0]"
    by (simp_all add: parser_stack_push_def yaml_init_def)
  then have "in_mapping (yaml_init\<lparr>ystore := [0 \<mapsto> YAML_MAPPING ht_create], ynext := 1, parser_stack := s\<rparr>) []"
    by (simp add: in_mapping_def scalar_entries_def)
  with e1 show ?thesis by (intro exI conjI) (assumption | simp add: yaml_init_def)+
qed

lemma parse_mapping:
  "\<exists>y m. yaml2_parse_file True (Some (mapping_document kvs)) = Inr (0, y) \<and> yamlw y = Some (Some 0) \<and>
     ystore y 0 = Some (YAML_MAPPING m) \<and> scalar_entries (ystore y) m kvs"
proof -
  let ?closing = "[Mapping_End, Document_End]"
  obtain y0 where y0: "yaml_loop (Other_Event # Other_Event # Mapping_Start # pair_events kvs @ ?closing) yaml_init =
      yaml_loop (pair_events kvs @ ?closing) y0" "in_mapping y0 []" "\<not> ykey y0" "keyname y0 = None"
    using mapping_start by blast
  obtain y1 where y1: "yaml_loop (pair_events kvs @ ?closing) y0 = yaml_loop ?closing y1" "in_mapping y1 kvs"
    using pairs_loop [OF y0(2-4), of kvs ?closing] unfolding append_Nil by blast
  then obtain m where m: "stack_rel (parser_stack y1) 100 [0]" "ystore y1 0 = Some (YAML_MAPPING m)"
      "scalar_entries (ystore y1) m kvs"
    by (auto simp: in_mapping_def)
  obtain s where s: "stack_pop (parser_stack y1) = Inr (Some 0, s)" "stack_rel s 100 []"
    using st.pop_rel [OF m(1)] by auto
  have "yaml_loop ?closing y1 = Inr (0, y1\<lparr>parser_stack := s, yamlw := Some (Some 0)\<rparr>)"
    using s stack_empty_props [OF s(2)] by (simp add: parser_stack_pop_def)
  then have "yaml2_parse_file True (Some (mapping_document kvs)) = Inr (0, y1\<lparr>parser_stack := s, yamlw := Some (Some 0)\<rparr>)"
    using y0(1) y1(1) by (simp only: yaml2_parse_file_def mapping_document_def append.simps option.case simp_thms if_False)
  with m(2,3) show ?thesis by (intro exI conjI) (assumption | simp)+
qed

section \<open>A sequence among the values\<close>

text \<open>
  Inside a sequence that is the value of a key, the flag \<open>key\<close> stays set and \<open>keyname\<close> is null.
\<close>

definition in_sequence :: "yaml_parser \<Rightarrow> bool" where
  "in_sequence y \<longleftrightarrow> ykey y \<and> keyname y = None \<and> (\<forall>b \<ge> ynext y. ystore y b = None) \<and>
     (\<exists>a m l xs. stack_rel (parser_stack y) 100 [a, 0] \<and> a \<noteq> 0 \<and> ystore y 0 = Some (YAML_MAPPING m) \<and>
        ystore y a = Some (YAML_SEQUENCE l) \<and> list_rel l xs)"

lemma sequence_start:
  assumes "in_mapping y kvs" and "\<not> ykey y"
  shows "\<exists>y'. yaml_loop (Scalar k # Sequence_Start # rest) y = yaml_loop rest y' \<and> in_sequence y'"
proof -
  obtain m where s: "stack_rel (parser_stack y) 100 [0]" "0 < ynext y" "\<forall>b \<ge> ynext y. ystore y b = None"
      "ystore y 0 = Some (YAML_MAPPING m)"
    using assms(1) by (auto simp: in_mapping_def)
  note top = stack_top_props [OF s(1)]
  define a where "a = ynext y"
  have a: "a \<noteq> 0" "ystore y a = None" using s(2,3) by (auto simp: a_def)
  define st' where "st' = (ystore y)(a \<mapsto> YAML_SEQUENCE (list_new True), 0 \<mapsto> YAML_MAPPING (ht_add_entry m k a))"
  obtain s1 where p: "stack_push (parser_stack y) a = Inr s1" "stack_rel s1 100 [a, 0]"
    using st.push_rel [OF s(1), of a] by auto
  define y' where "y' = y\<lparr>ykey := True, ynext := Suc a, ystore := st', parser_stack := s1, keyname := None\<rparr>"
  have "yaml_loop (Scalar k # Sequence_Start # rest) y = yaml_loop rest y'"
    using top s(4) assms(2) a p
    by (simp add: yaml_scalar_def load_wrap_def parser_stack_push_def add_to_head_def a_def [symmetric] st'_def y'_def)
  moreover have "in_sequence y'"
    unfolding in_sequence_def y'_def using p(2) a s(3) list_new_rel
    by (intro conjI exI [of _ a] exI [of _ "ht_add_entry m k a"] exI [of _ "list_new True"] exI [of _ "[]"])
      (auto simp: st'_def a_def)
  ultimately show ?thesis by blast
qed

lemma sequence_scalar:
  assumes "in_sequence y"
  shows "\<exists>y'. yaml_event_step (Scalar v) y = Inr y' \<and> in_sequence y'"
proof -
  obtain b m l xs where s: "ykey y" "keyname y = None" "\<forall>b \<ge> ynext y. ystore y b = None"
      "stack_rel (parser_stack y) 100 [b, 0]" "b \<noteq> 0" "ystore y 0 = Some (YAML_MAPPING m)"
      "ystore y b = Some (YAML_SEQUENCE l)" "list_rel l xs"
    using assms by (auto simp: in_sequence_def)
  note top = stack_top_props [OF s(4)]
  define a where "a = ynext y"
  have a: "ystore y a = None" "a \<noteq> 0" "a \<noteq> b" using s(3,6,7) by (auto simp: a_def)
  obtain l' where l': "list_append l a = Inr l'" "list_rel l' (xs @ [a])" using list_append_rel [OF s(8)] by blast
  obtain s1 s2 where p: "stack_push (parser_stack y) a = Inr s1" "stack_pop s1 = Inr (Some a, s2)" "stack_rel s2 100 [b, 0]"
    using st.pop_push [OF s(4), of a] by auto
  define y' where "y' = y\<lparr>ystore := (ystore y)(a \<mapsto> YAML_SCALAR v, b \<mapsto> YAML_SEQUENCE l'), ynext := Suc a, parser_stack := s2\<rparr>"
  have "yaml_event_step (Scalar v) y = Inr y'"
    using top s(2,7) a p l'
    by (simp add: yaml_scalar_def load_wrap_def parser_stack_push_def add_to_head_def parser_stack_pop_def
        a_def [symmetric] y'_def)
  moreover have "in_sequence y'"
    unfolding in_sequence_def y'_def using p(3) a s l'(2)
    by (intro conjI exI [of _ b] exI [of _ m] exI [of _ l'] exI [of _ "xs @ [a]"]) (auto simp: a_def)
  ultimately show ?thesis by blast
qed

lemma sequence_scalars:
  "in_sequence y \<Longrightarrow> \<exists>y'. yaml_loop (map Scalar vs @ rest) y = yaml_loop rest y' \<and> in_sequence y'"
proof (induction vs arbitrary: y)
  case Nil
  then show ?case by auto
next
  case (Cons v vs)
  obtain y1 where "yaml_event_step (Scalar v) y = Inr y1" "in_sequence y1"
    using sequence_scalar [OF Cons.prems] by blast
  with Cons.IH [OF this(2)] show ?case by (simp del: yaml_event_step.simps)
qed

lemma key_after_sequence:
  assumes "in_sequence y"
  shows "yaml_loop (Sequence_End # Scalar k # rest) y = Inl Null_Deref"
proof -
  obtain b m where s: "ykey y" "keyname y = None" "stack_rel (parser_stack y) 100 [b, 0]"
      "ystore y 0 = Some (YAML_MAPPING m)" "\<forall>b \<ge> ynext y. ystore y b = None"
    using assms by (auto simp: in_sequence_def)
  obtain s1 where p: "stack_pop (parser_stack y) = Inr (Some b, s1)" "stack_rel s1 100 [0]"
    using st.pop_rel [OF s(3)] by auto
  note top = stack_top_props [OF p(2)]
  have "ynext y \<noteq> 0" using s(4,5) by auto
  then show ?thesis
    using top s(1,2,4) p(1)
    by (simp add: parser_stack_pop_def yaml_scalar_def load_wrap_def parser_stack_push_def add_to_head_def)
qed

section \<open>Properties\<close>


text \<open>
  A document with a sequence of scalars as a value and another key after it is not parsed: the
  flag that tells keys from values survives the sequence, the next key is taken for a value, and
  it is entered under a null key.
\<close>

theorem yaml_sequence_value_faults:
  "yaml2_parse_file True (Some ([Other_Event, Other_Event, Mapping_Start] @ pair_events kvs @
      [Scalar k, Sequence_Start] @ map Scalar vs @ [Sequence_End, Scalar k'] @ rest)) = Inl Null_Deref"
proof -
  let ?r = "map Scalar vs @ [Sequence_End, Scalar k'] @ rest"
  obtain y0 where y0: "yaml_loop (Other_Event # Other_Event # Mapping_Start # pair_events kvs @ Scalar k # Sequence_Start # ?r) yaml_init =
      yaml_loop (pair_events kvs @ Scalar k # Sequence_Start # ?r) y0" "in_mapping y0 []" "\<not> ykey y0" "keyname y0 = None"
    using mapping_start by blast
  obtain y1 where y1: "yaml_loop (pair_events kvs @ Scalar k # Sequence_Start # ?r) y0 = yaml_loop (Scalar k # Sequence_Start # ?r) y1"
      "in_mapping y1 kvs" "\<not> ykey y1"
    using pairs_loop [OF y0(2-4), of kvs "Scalar k # Sequence_Start # ?r"] unfolding append_Nil by blast
  obtain y2 where y2: "yaml_loop (Scalar k # Sequence_Start # ?r) y1 = yaml_loop ?r y2" "in_sequence y2"
    using sequence_start [OF y1(2,3)] by blast
  obtain y3 where y3: "yaml_loop ?r y2 = yaml_loop ([Sequence_End, Scalar k'] @ rest) y3" "in_sequence y3"
    using sequence_scalars [OF y2(2)] by blast
  show ?thesis
    using y0(1) y1(1) y2(1) y3(1) key_after_sequence [OF y3(2)]
    by (simp only: yaml2_parse_file_def append.simps option.case simp_thms if_False)
qed

end
