(* ===== verification/Config.thy ===== *)
theory Config
  imports Yaml Libc
begin

text \<open>
  \<open>tracker/config.c\<close> and \<open>tracker/main.c\<close>: the options of the tracker, from the command line and
  from the configuration file, and the start of the program. The events of \<open>getopt_long\<close>, the
  answers of \<open>access\<close> and \<open>fopen\<close> and of the system calls of \<open>deamonize\<close> are arguments.
\<close>

section \<open>Reading the options\<close>

text \<open>The values of the table \<open>options\<close> are strings; \<open>config_init\<close> creates it empty.\<close>

definition config_init :: "string hash_table" where
  "config_init = ht_create"

definition option_get_config_file_path :: "string hash_table \<Rightarrow> string" where
  "option_get_config_file_path options =
     (let (err, path) = ht_get_entry options ''conf'' in if err < 0 then ''./config.yaml'' else the path)"

definition option_daemonize :: "string hash_table \<Rightarrow> bool" where
  "option_daemonize options =
     (let (err, daemonize) = ht_get_entry options ''daemonize'' in if err < 0 then False else atoi (the daemonize) \<noteq> 0)"

definition option_get_port :: "string hash_table \<Rightarrow> 16 word" where
  "option_get_port options =
     (let (err, port) = ht_get_entry options ''port'' in if err < 0 then 8000 else word_of_int (atoi (the port)))"

section \<open>The command line\<close>

definition print_version :: string where
  "print_version = ''Rz is v0.1.1'' @ [CHR 0x0A]"

definition print_help :: string where
  "print_help =
     ''Rz help:'' @ [CHR 0x0A] @ ''All options are optional! ;)'' @ [CHR 0x0A, CHR 0x0A] @
     [CHR 0x09] @ ''-p N, --port=N'' @ [CHR 0x0A] @
     [CHR 0x09, CHR 0x09] @ ''set tracker listening port to N'' @ [CHR 0x0A] @
     [CHR 0x09, CHR 0x09] @ ''default is 8000'' @ [CHR 0x0A, CHR 0x0A] @
     [CHR 0x09] @ ''-c N, --conf=N'' @ [CHR 0x0A] @
     [CHR 0x09, CHR 0x09] @ ''set the configuration file path to N'' @ [CHR 0x0A] @
     [CHR 0x09, CHR 0x09] @ ''default is `./config.yaml'' @ [CHR 0x27] @ '' (in working directory)'' @ [CHR 0x0A, CHR 0x0A] @
     [CHR 0x09] @ ''-d, --daemon, --daemonize'' @ [CHR 0x0A] @
     [CHR 0x09, CHR 0x09] @ ''detach the server from the console and run in background'' @ [CHR 0x0A, CHR 0x0A] @
     [CHR 0x09] @ ''-v, --version'' @ [CHR 0x0A] @
     [CHR 0x09, CHR 0x09] @ ''show rz'' @ [CHR 0x27] @ '' version'' @ [CHR 0x0A, CHR 0x0A] @
     [CHR 0x09] @ ''-h, --help'' @ [CHR 0x0A] @
     [CHR 0x09, CHR 0x09] @ ''show this help'' @ [CHR 0x0A] @ [CHR 0x0A]"

text \<open>
  The loop of \<open>parse_options\<close> over what \<open>getopt_long\<close> returns, each with \<open>optarg\<close>. The result is
  what is printed and either the exit status of the process or the options.
\<close>

definition set_opt :: "string \<Rightarrow> string \<Rightarrow> string hash_table \<Rightarrow> string hash_table" where
  "set_opt field value options = ht_add_entry options field value"

fun option_loop :: "(string \<Rightarrow> bool) \<Rightarrow> (char \<times> string) list \<Rightarrow> string hash_table \<Rightarrow> string \<times> (int + string hash_table)" where
  "option_loop access [] options = ([], Inr options)"
| "option_loop access ((c, optarg) # evs) options =
     (if c = CHR ''h'' then (print_help, Inl 0)
      else if c = CHR ''v'' then (print_version, Inl 0)
      else if c = CHR ''c''
      then (if \<not> access optarg then ([], Inl 1) else option_loop access evs (set_opt ''conf'' optarg options))
      else if c = CHR ''p'' then option_loop access evs (set_opt ''port'' optarg options)
      else if c = CHR ''d'' then option_loop access evs (set_opt ''daemonize'' ''1'' options)
      else if c = CHR ''?'' then ([], Inl 1)
      else option_loop access evs options)"

text \<open>On return \<open>argc\<close> and \<open>argv\<close> have lost the options; \<open>optind\<close> is the index of the first argument left.\<close>

definition parse_options ::
  "(string \<Rightarrow> bool) \<Rightarrow> (char \<times> string) list \<Rightarrow> int \<Rightarrow> int \<times> string list \<Rightarrow> string hash_table \<Rightarrow>
   string \<times> (int + (int \<times> string list) \<times> string hash_table)" where
  "parse_options access evs optind args options =
     (case option_loop access evs options of
        (out, Inl code) \<Rightarrow> (out, Inl code)
      | (out, Inr options') \<Rightarrow>
          (out, Inr ((fst args - (optind - 1), drop (nat (optind - 1)) (snd args)), options')))"

section \<open>The configuration file\<close>

definition load_option_from_config ::
  "(nat \<Rightarrow> yaml_wrap option) \<Rightarrow> string \<Rightarrow> nat \<Rightarrow> string hash_table \<Rightarrow> string hash_table result" where
  "load_option_from_config st key val options =
     (if \<not> ht_has_entry options key
      then rbind (load_wrap st val) (\<lambda>value.
             case value of YAML_SCALAR s \<Rightarrow> Inr (ht_add_entry options key s) | _ \<Rightarrow> Inr options)
      else Inr options)"

text \<open>The pointer \<open>yw\<close> is what \<open>yaml2_parse_file\<close> left in it, if anything.\<close>

definition deref_yw :: "yaml_parser \<Rightarrow> yaml_wrap result" where
  "deref_yw y =
     (case yamlw y of
        None \<Rightarrow> Inl Uninitialised
      | Some None \<Rightarrow> Inl Null_Deref
      | Some (Some a) \<Rightarrow> load_wrap (ystore y) a)"

definition load_config_file ::
  "(string \<Rightarrow> bool) \<Rightarrow> bool \<Rightarrow> (string \<Rightarrow> yaml_event list option) \<Rightarrow> string hash_table \<Rightarrow> string hash_table result" where
  "load_config_file access initialized fopen options =
     (let path = option_get_config_file_path options
      in if \<not> access path then Inr options
         else rbind (yaml2_parse_file initialized (fopen path)) (\<lambda>(ret, y).
           if ret < 0 then Inr options
           else rbind (deref_yw y) (\<lambda>w.
             case w of
               YAML_MAPPING m \<Rightarrow>
                 ht_for_each m (\<lambda>k v acc. rbind acc (load_option_from_config (ystore y) k v)) (Inr options)
             | _ \<Rightarrow> Inr options)))"

section \<open>The main program\<close>

text \<open>
  \<open>deamonize\<close> with the results of \<open>fork\<close> and \<open>setsid\<close>: the exit status, or the run goes on in
  the background.
\<close>

definition deamonize :: "int \<Rightarrow> int \<Rightarrow> int + unit" where
  "deamonize p sid = (if p = 0 then (if sid < 0 then Inl 1 else Inr ()) else Inl 0)"

datatype start = Exit int | Serve "16 word" bool

text \<open>\<open>Serve port prompt\<close>: the server runs on the port, with or without the prompt thread.\<close>

definition main_program ::
  "(string \<Rightarrow> bool) \<Rightarrow> (char \<times> string) list \<Rightarrow> int \<Rightarrow> int \<times> string list \<Rightarrow> bool \<Rightarrow> (string \<Rightarrow> yaml_event list option) \<Rightarrow>
   int \<Rightarrow> int \<Rightarrow> start result" where
  "main_program access evs optind args initialized fopen p sid =
     (case snd (parse_options access evs optind args config_init) of
        Inl code \<Rightarrow> Inr (Exit code)
      | Inr (_, options) \<Rightarrow>
          rbind (load_config_file access initialized fopen options) (\<lambda>options.
            if option_daemonize options
            then (case deamonize p sid of Inl code \<Rightarrow> Inr (Exit code) | Inr _ \<Rightarrow> Inr (Serve (option_get_port options) False))
            else Inr (Serve (option_get_port options) True)))"

section \<open>Which value wins\<close>

text \<open>The entries \<open>parse_options\<close> makes, for events that do not end the program.\<close>

fun option_entry :: "char \<times> string \<Rightarrow> (string \<times> string) list" where
  "option_entry (c, optarg) =
     (if c = CHR ''c'' then [(''conf'', optarg)] else if c = CHR ''p'' then [(''port'', optarg)]
      else if c = CHR ''d'' then [(''daemonize'', ''1'')] else [])"

definition option_entries :: "(char \<times> string) list \<Rightarrow> (string \<times> string) list" where
  "option_entries evs = concat (map option_entry evs)"

definition harmless :: "(string \<Rightarrow> bool) \<Rightarrow> char \<times> string \<Rightarrow> bool" where
  "harmless access ev \<longleftrightarrow> fst ev \<notin> {CHR ''h'', CHR ''v'', CHR ''?''} \<and> (fst ev = CHR ''c'' \<longrightarrow> access (snd ev))"

lemma length_option_entries: "length (option_entries evs) \<le> length evs"
proof (induction evs)
  case (Cons ev evs)
  have "length (option_entry ev) \<le> 1" by (cases ev) simp
  with Cons show ?case by (simp add: option_entries_def)
qed (simp add: option_entries_def)

lemma option_loop_newest:
  assumes "\<forall>ev \<in> set evs. harmless access ev" and "ht_newest options"
    and "ht_entry_count options + length evs \<le> 9"
  shows "\<exists>options'. option_loop access evs options = ([], Inr options') \<and> ht_newest options' \<and>
    ht_alist options' = ht_alist options @ option_entries evs"
  using assms
proof (induction evs arbitrary: options)
  case Nil
  then show ?case by (simp add: option_entries_def)
next
  case (Cons ev evs)
  obtain c optarg where ev: "ev = (c, optarg)" by (cases ev)
  have inv: "ht_inv options" using Cons.prems(2) by (rule ht_newest_inv)
  have add: "ht_newest (ht_add_entry options k v)"
    "ht_alist (ht_add_entry options k v) = ht_alist options @ [(k, v)]"
    "ht_entry_count (ht_add_entry options k v) = ht_entry_count options + 1" for k v
  proof -
    have few: "ht_entry_count options < 9" using Cons.prems(3) by simp
    show "ht_newest (ht_add_entry options k v)" by (rule ht_newest_add [OF Cons.prems(2) few])
    show a: "ht_alist (ht_add_entry options k v) = ht_alist options @ [(k, v)]"
      using ht_add_entry_inv [OF inv] by simp
    show "ht_entry_count (ht_add_entry options k v) = ht_entry_count options + 1"
      using ht_add_entry_inv [OF inv, of k v] by (simp add: ht_entry_count_alist inv)
  qed
  have h: "\<forall>ev \<in> set evs. harmless access ev" "harmless access (c, optarg)" using Cons.prems(1) ev by simp_all
  define e where "e = option_entry ev"
  obtain o1 where o1: "option_loop access (ev # evs) options = option_loop access evs o1" "ht_newest o1"
      "ht_alist o1 = ht_alist options @ e" "ht_entry_count o1 \<le> ht_entry_count options + 1"
  proof -
    have loop: "option_loop access ((c, optarg) # evs) options =
        option_loop access evs (case e of [] \<Rightarrow> options | (k, v) # _ \<Rightarrow> ht_add_entry options k v)"
      using h(2) by (simp add: e_def ev harmless_def set_opt_def)
    show ?thesis
    proof (cases e)
      case Nil
      with loop show ?thesis using that [of options] Cons.prems(2) ev by simp
    next
      case (Cons kv r)
      obtain k v where kv: "kv = (k, v)" by (cases kv)
      have "length e \<le> 1" by (simp add: e_def ev)
      then have "r = []" by (simp add: Cons)
      then have "ht_alist (ht_add_entry options k v) = ht_alist options @ e" by (simp add: add(2) Cons kv)
      with loop add(1,3) that [of "ht_add_entry options k v"] show ?thesis by (simp add: Cons kv ev)
    qed
  qed
  have "ht_entry_count o1 + length evs \<le> 9" using o1(4) Cons.prems(3) by simp
  from Cons.IH [OF h(1) o1(2) this] o1 show ?case by (simp add: option_entries_def e_def)
qed

text \<open>The file adds what the command line did not set; of a repeated key it takes the first value.\<close>

definition merge_config :: "(string \<times> string) list \<Rightarrow> (string \<times> string) list \<Rightarrow> (string \<times> string) list" where
  "merge_config kvs al = fold (\<lambda>(k, v) al. if k \<in> fst ` set al then al else al @ [(k, v)]) kvs al"

lemma map_of_rev_merge:
  "map_of (rev (merge_config kvs al)) k = (case map_of (rev al) k of Some v \<Rightarrow> Some v | None \<Rightarrow> map_of kvs k)"
proof (induction kvs arbitrary: al)
  case Nil
  then show ?case by (simp add: merge_config_def split: option.splits)
next
  case (Cons kv kvs)
  obtain j v where kv: "kv = (j, v)" by (cases kv)
  have m: "merge_config ((j, v) # kvs) al = merge_config kvs (if j \<in> fst ` set al then al else al @ [(j, v)])"
    by (simp add: merge_config_def)
  have "map_of (rev al) j = None \<longleftrightarrow> j \<notin> fst ` set al" by (simp add: map_of_eq_None_iff)
  then show ?case unfolding kv m Cons.IH by (auto split: option.splits)
qed

lemma load_options_newest:
  assumes "list_all2 (\<lambda>(k, b) (k', v). k = k' \<and> st b = Some (YAML_SCALAR v)) bs kvs"
    and "ht_newest options" and "ht_entry_count options + length kvs \<le> 9"
  shows "\<exists>options'. fold (\<lambda>(k, b) acc. rbind acc (load_option_from_config st k b)) bs (Inr options) = Inr options' \<and>
    ht_newest options' \<and> ht_alist options' = merge_config kvs (ht_alist options)"
  using assms
proof (induction bs kvs arbitrary: options rule: list_all2_induct)
  case Nil
  then show ?case by (simp add: merge_config_def)
next
  case (Cons b bs kv kvs)
  obtain k v a where kv: "kv = (k, v)" "b = (k, a)" "st a = Some (YAML_SCALAR v)"
    using Cons.hyps(1) by (cases b, cases kv) auto
  have inv: "ht_inv options" using Cons.prems(1) by (rule ht_newest_inv)
  show ?case
  proof (cases "k \<in> fst ` set (ht_alist options)")
    case True
    then have "load_option_from_config st k a options = Inr options"
      by (simp add: load_option_from_config_def ht_has_entry_iff [OF inv])
    moreover have "ht_entry_count options + length kvs \<le> 9" using Cons.prems(2) by simp
    ultimately show ?thesis
      using Cons.IH [OF Cons.prems(1)] True by (simp add: kv merge_config_def)
  next
    case False
    let ?o = "ht_add_entry options k v"
    have e: "load_option_from_config st k a options = Inr ?o"
      using False kv(3) by (simp add: load_option_from_config_def ht_has_entry_iff [OF inv] load_wrap_def)
    have few: "ht_entry_count options < 9" using Cons.prems(2) by simp
    have al: "ht_inv ?o" "ht_alist ?o = ht_alist options @ [(k, v)]"
      using ht_add_entry_inv [OF inv, of k v] by simp_all
    have "ht_entry_count ?o + length kvs \<le> 9"
      using Cons.prems(2) by (simp add: ht_entry_count_alist al inv)
    with Cons.IH [OF ht_newest_add [OF Cons.prems(1) few], of k v] False show ?thesis
      by (simp add: kv e al merge_config_def)
  qed
qed

lemma config_file_options:
  assumes "ht_newest options" and "ht_entry_count options + length kvs \<le> 9"
    and "access (option_get_config_file_path options)"
    and "fopen (option_get_config_file_path options) = Some (mapping_document kvs)"
  shows "\<exists>options'. load_config_file access True fopen options = Inr options' \<and> ht_newest options' \<and>
    ht_alist options' = merge_config kvs (ht_alist options)"
proof -
  obtain y m where y: "yaml2_parse_file True (Some (mapping_document kvs)) = Inr (0, y)" "yamlw y = Some (Some 0)"
      "ystore y 0 = Some (YAML_MAPPING m)" "scalar_entries (ystore y) m kvs"
    using parse_mapping by blast
  then have "list_all2 (\<lambda>(k, b) (k', v). k = k' \<and> ystore y b = Some (YAML_SCALAR v)) (ht_alist m) kvs"
    by (simp add: scalar_entries_def)
  from load_options_newest [OF this assms(1,2)] show ?thesis
    using assms(3,4) y
    by (simp add: load_config_file_def Let_def deref_yw_def load_wrap_def ht_for_each_alist)
qed

definition effective_option :: "(char \<times> string) list \<Rightarrow> (string \<times> string) list \<Rightarrow> string \<Rightarrow> string option" where
  "effective_option evs kvs k =
     (case map_of (rev (option_entries evs)) k of Some v \<Rightarrow> Some v | None \<Rightarrow> map_of kvs k)"

definition config_path :: "(char \<times> string) list \<Rightarrow> string" where
  "config_path evs = (case map_of (rev (option_entries evs)) ''conf'' of None \<Rightarrow> ''./config.yaml'' | Some p \<Rightarrow> p)"

lemma options_read:
  assumes "ht_newest h" and "\<And>k. map_of (rev (ht_alist h)) k = f k"
  shows "option_get_port h = (case f ''port'' of None \<Rightarrow> 8000 | Some v \<Rightarrow> word_of_int (atoi v))"
    and "option_daemonize h = (case f ''daemonize'' of None \<Rightarrow> False | Some v \<Rightarrow> atoi v \<noteq> 0)"
    and "option_get_config_file_path h = (case f ''conf'' of None \<Rightarrow> ''./config.yaml'' | Some v \<Rightarrow> v)"
  using ht_newest_get [OF assms(1)]
  by (simp_all add: assms(2) option_get_port_def option_daemonize_def option_get_config_file_path_def
      split: option.splits)

section \<open>Properties\<close>

text \<open>
  The tracker runs with the last value given for an option on the command line, else with the
  first one in the configuration file, else with the default: the port is that value cut to 16
  bits, or 8000. The bound on the number of options keeps every bucket below its expansion
  threshold, beyond which the order of repeated keys is not defined.
\<close>

lemma main_options_precedence:
  assumes "\<forall>ev \<in> set evs. harmless access ev" and "length evs + length kvs \<le> 9"
    and "access (config_path evs)" and "fopen (config_path evs) = Some (mapping_document kvs)"
  shows "main_program access evs optind args True fopen p sid =
    (let port = (case effective_option evs kvs ''port'' of None \<Rightarrow> 8000 | Some v \<Rightarrow> word_of_int (atoi v))
     in Inr (if (case effective_option evs kvs ''daemonize'' of None \<Rightarrow> False | Some v \<Rightarrow> atoi v \<noteq> 0)
             then (if p \<noteq> 0 then Exit 0 else if sid < 0 then Exit 1 else Serve port False)
             else Serve port True))"
proof -
  have c0: "ht_entry_count config_init = 0" "ht_alist config_init = []"
    by (simp_all add: config_init_def ht_entry_count_alist)
  obtain o1 where o1: "option_loop access evs config_init = ([], Inr o1)" "ht_newest o1" "ht_alist o1 = option_entries evs"
    using option_loop_newest [OF assms(1), of config_init] assms(2) c0 ht_newest_create by (auto simp: config_init_def)
  have n: "ht_entry_count o1 + length kvs \<le> 9"
    using length_option_entries [of evs] assms(2) by (simp add: ht_entry_count_alist [OF ht_newest_inv [OF o1(2)]] o1(3))
  have path: "option_get_config_file_path o1 = config_path evs"
    using options_read(3) [OF o1(2), of "map_of (rev (option_entries evs))"] by (simp add: o1(3) config_path_def)
  obtain o2 where o2: "load_config_file access True fopen o1 = Inr o2" "ht_newest o2"
      "ht_alist o2 = merge_config kvs (option_entries evs)"
    using config_file_options [OF o1(2) n, of access fopen] assms(3,4) by (auto simp: path o1(3))
  have "map_of (rev (ht_alist o2)) k = effective_option evs kvs k" for k
    by (simp add: o2(3) map_of_rev_merge effective_option_def)
  note r = options_read [OF o2(2) this]
  show ?thesis
    using o1(1) o2(1) by (simp add: main_program_def parse_options_def r(1,2) deamonize_def Let_def)
qed

lemma main_options_precedence_example:
  "main_program (\<lambda>_. True) [(CHR ''p'', ''9000''), (CHR ''p'', ''9001'')] 5 (5, [])
     True (\<lambda>_. Some (mapping_document [(''port'', ''8080''), (''daemonize'', ''0'')])) 1 1 = Inr (Serve 9001 True)"
proof -
  have e: "effective_option [(CHR ''p'', ''9000''), (CHR ''p'', ''9001'')] [(''port'', ''8080''), (''daemonize'', ''0'')] ''port'' = Some ''9001''"
    "effective_option [(CHR ''p'', ''9000''), (CHR ''p'', ''9001'')] [(''port'', ''8080''), (''daemonize'', ''0'')] ''daemonize'' = Some ''0''"
    by (simp_all add: effective_option_def option_entries_def)
  have a: "atoi ''9001'' = 9001" "atoi ''0'' = 0" by code_simp+
  show ?thesis
    by (subst main_options_precedence [of "[(CHR ''p'', ''9000''), (CHR ''p'', ''9001'')]" "\<lambda>_. True"
          "[(''port'', ''8080''), (''daemonize'', ''0'')]"]) (simp_all add: harmless_def e a)
qed

end
