(* ===== verification/Files.thy ===== *)
theory Files
  imports Tracker_State
begin

text \<open>
  \<open>tracker/file.c\<close>: the files the tracker knows, by key and by name, and the clients that
  share each of them.
\<close>

section \<open>Operations\<close>

definition file_register :: "tracker \<Rightarrow> fid \<Rightarrow> tracker result" where
  "file_register st f =
     rbind (load_file st f) (\<lambda>x.
       let st1 = st\<lparr>file_by_hash := ht_add_entry (file_by_hash st) (md5_str x) f\<rparr>;
           (err, found) = ht_get_entry (file_by_name st1) (filename x);
           (l, st2) =
             (if err < 0
              then (Some (next_list st1),
                    (store_list st1 (next_list st1) (list_new False))
                      \<lparr>next_list := Suc (next_list st1),
                       file_by_name := ht_add_entry (file_by_name st1) (filename x) (next_list st1)\<rparr>)
              else (found, st1))
       in rbind (deref l) (\<lambda>l'. rbind (load_list st2 l') (\<lambda>xs.
            rbind (list_add xs f) (\<lambda>xs'. Inr (store_list st2 l' xs')))))"

text \<open>\<open>(length / piece_size) + ((length%piece_size) ? 1 : 0)\<close>, in \<open>uint32_t\<close>.\<close>

definition piece_count_of :: "32 word \<Rightarrow> 32 word \<Rightarrow> 32 word result" where
  "piece_count_of len psize =
     (if psize = 0 then Inl Div_By_Zero
      else Inr (len div psize + (if len mod psize \<noteq> 0 then 1 else 0)))"

definition file_new :: "tracker \<Rightarrow> string \<Rightarrow> 32 word \<Rightarrow> 32 word \<Rightarrow> string \<Rightarrow> (fid \<times> tracker) result" where
  "file_new st name len psize md5 =
     rbind (piece_count_of len psize) (\<lambda>count.
       let f = next_file st;
           x = \<lparr>filename = name, md5_str = md5, flength = ucast len, piece_count = count,
                piece_size = psize, fclients = ht_create\<rparr>;
           st1 = (store_file st f x)\<lparr>next_file := Suc f\<rparr>
       in rbind (file_register st1 f) (\<lambda>st2. Inr (f, st2)))"

definition file_add_client :: "tracker \<Rightarrow> fid \<Rightarrow> cid \<Rightarrow> tracker result" where
  "file_add_client st f c =
     rbind (load_file st f) (\<lambda>x. rbind (load_client st c) (\<lambda>y.
     rbind (deref (listen_addr_key y)) (\<lambda>key.
       Inr (store_file st f (x\<lparr>fclients := snd (ht_add_unique_entry (fclients x) key c)\<rparr>)))))"

text \<open>\<open>HASH_FIND\<close> does not read the key when the table is empty.\<close>

definition file_remove_client :: "tracker \<Rightarrow> fid \<Rightarrow> cid \<Rightarrow> tracker result" where
  "file_remove_client st f c =
     rbind (load_file st f) (\<lambda>x. rbind (load_client st c) (\<lambda>y.
       if ht_head (fclients x) = None then Inr st
       else rbind (deref (listen_addr_key y)) (\<lambda>key.
         Inr (store_file st f (x\<lparr>fclients := snd (ht_remove_entry (fclients x) key)\<rparr>)))))"

definition file_get_by :: "fid hash_table \<Rightarrow> string \<Rightarrow> fid option" where
  "file_get_by ht what = (let (err, f) = ht_get_entry ht what in if err < 0 then None else f)"

definition file_get_by_key :: "tracker \<Rightarrow> string \<Rightarrow> fid option" where
  "file_get_by_key st md5_key = file_get_by (file_by_hash st) md5_key"

definition file_get_by_name :: "tracker \<Rightarrow> string \<Rightarrow> lid option" where
  "file_get_by_name st name =
     (let (err, l) = ht_get_entry (file_by_name st) name in if err < 0 then None else l)"

definition file_get_or_create ::
  "tracker \<Rightarrow> string \<Rightarrow> 32 word \<Rightarrow> 32 word \<Rightarrow> string \<Rightarrow> (fid \<times> tracker) result" where
  "file_get_or_create st name len psize md5 =
     (case file_get_by_key st md5 of
        None \<Rightarrow> file_new st name len psize md5
      | Some f \<Rightarrow> Inr (f, st))"

definition file_list :: "tracker \<Rightarrow> fid clist result" where
  "file_list st = ht_to_list (file_by_hash st)"

text \<open>\<open>file_print_peer_list\<close>: what it prints.\<close>

definition append_peer :: "tracker \<Rightarrow> cid \<Rightarrow> (bool \<times> string) result \<Rightarrow> (bool \<times> string) result" where
  "append_peer st c acc =
     rbind acc (\<lambda>(first, str). rbind (load_client st c) (\<lambda>y.
       Inr (False, str @ (if first then '''' else '' | '') @ fmt_s (listen_addr_key y))))"

definition file_print_peer_list :: "tracker \<Rightarrow> fid \<Rightarrow> string result" where
  "file_print_peer_list st f =
     rbind (load_file st f) (\<lambda>x.
       if ht_entry_count (fclients x) = 0
       then Inr (filename x @ ''|'' @ md5_str x @ '': No peers'' @ [CHR 0x0A])
       else rbind (ht_for_each (fclients x) (\<lambda>_ c. append_peer st c) (Inr (True, [])))
              (\<lambda>(_, str). Inr (filename x @ ''|'' @ md5_str x @ '': ['' @ str @ '']'' @ [CHR 0x0A])))"

section \<open>The number of pieces\<close>

definition ceil_div :: "nat \<Rightarrow> nat \<Rightarrow> nat" where
  "ceil_div a b = a div b + (if a mod b \<noteq> 0 then 1 else 0)"

lemma ceil_div_props:
  assumes "0 < b"
  shows "ceil_div a b \<le> a" and "a \<le> ceil_div a b * b" and "0 < a \<Longrightarrow> (ceil_div a b - 1) * b < a"
proof -
  define q r where "q = a div b" and "r = a mod b"
  have ab: "a = q * b + r" and r: "r < b" using assms by (simp_all add: q_def r_def)
  have n: "ceil_div a b = q + (if r \<noteq> 0 then 1 else 0)" by (simp add: ceil_div_def q_def r_def)
  have q: "q \<le> q * b" using assms by simp
  show "ceil_div a b \<le> a"
  proof -
    have "q + r \<le> a" using q ab by (simp only: add_le_cancel_right)
    then show ?thesis unfolding n by (cases r) auto
  qed
  have "a \<le> (q + (if r \<noteq> 0 then 1 else 0)) * b"
    using r ab by (cases "r = 0") (simp_all add: add_mult_distrib)
  then show "a \<le> ceil_div a b * b" by (simp only: n)
  show "0 < a \<Longrightarrow> (ceil_div a b - 1) * b < a"
    unfolding n using assms ab by (cases "r = 0"; cases q) simp_all
qed

lemma unat_piece_count:
  "unat (len div psize + (if len mod psize \<noteq> 0 then 1 else 0)) =
     ceil_div (unat len) (unat psize) mod 2 ^ 32" for len psize :: "32 word"
proof -
  have "(len mod psize \<noteq> 0) = (unat len mod unat psize \<noteq> 0)"
    by (simp only: word_unat_eq_iff unat_mod_distrib unsigned_0 not_False_eq_True)
  then show ?thesis
    by (simp add: unat_word_ariths unat_div_distrib ceil_div_def mod_Suc_eq)
qed

lemma piece_count_of_ceil:
  assumes "psize \<noteq> 0"
  shows "\<exists>n. piece_count_of len psize = Inr n \<and> unat n = ceil_div (unat len) (unat psize)"
proof -
  have b: "0 < unat psize" using assms by (simp add: unat_gt_0)
  have "unat len < 2 ^ 32" using unsigned_less [of len] by simp
  then have "ceil_div (unat len) (unat psize) < 2 ^ 32"
    using ceil_div_props(1) [OF b, of "unat len"] by simp
  with unat_piece_count [of len psize] assms show ?thesis
    by (simp add: piece_count_of_def)
qed

section \<open>The index invariant\<close>

definition ht_map :: "'a hash_table \<Rightarrow> bool" where
  "ht_map h \<longleftrightarrow> ht_inv h \<and> distinct (map fst (ht_alist h))"

lemma ht_map_is_map: "dictionary.is_map ht_alist ht_inv h \<longleftrightarrow> ht_map h"
  by (simp add: ht.is_map_def ht_map_def)

lemmas ht_get_map = ht.get_map [unfolded ht_map_is_map]
lemmas ht_add_map = ht.add_map [unfolded ht_map_is_map]
lemmas ht_add_unique_map = ht.add_unique_map [unfolded ht_map_is_map]
lemmas ht_remove_map = ht.remove_map [unfolded ht_map_is_map]
lemmas ht_map_create = ht.is_map_create [unfolded ht_map_is_map]

lemma ht_map_inv: "ht_map h \<Longrightarrow> ht_inv h"
  by (simp add: ht_map_def)

lemma ht_map_mem: "ht_map h \<Longrightarrow> (k, v) \<in> set (ht_alist h) \<longleftrightarrow> map_of (ht_alist h) k = Some v"
  by (simp add: ht_map_def)

text \<open>
  \<open>file_by_hash\<close> has exactly one entry per file, under its key; \<open>file_by_name\<close> has one list
  per name, and the lists partition the files by name; the client tables are maps.
\<close>

definition hash_index_ok :: "(fid \<Rightarrow> shared_file option) \<Rightarrow> fid hash_table \<Rightarrow> bool" where
  "hash_index_ok fl h \<longleftrightarrow> ht_map h \<and>
     (\<forall>k f. (k, f) \<in> set (ht_alist h) \<longleftrightarrow> (\<exists>x. fl f = Some x \<and> md5_str x = k))"

definition named :: "(fid \<Rightarrow> shared_file option) \<Rightarrow> string \<Rightarrow> fid set" where
  "named fl n = {f. \<exists>x. fl f = Some x \<and> filename x = n}"

definition name_index_ok ::
  "(fid \<Rightarrow> shared_file option) \<Rightarrow> lid hash_table \<Rightarrow> (lid \<Rightarrow> fid clist option) \<Rightarrow> lid \<Rightarrow> bool" where
  "name_index_ok fl h nl nxt \<longleftrightarrow> ht_map h \<and> distinct (map snd (ht_alist h)) \<and>
     (\<forall>n l. (n, l) \<in> set (ht_alist h) \<longrightarrow> l < nxt \<and>
        (\<exists>xs fs. nl l = Some xs \<and> list_rel xs fs \<and> distinct fs \<and> set fs = named fl n)) \<and>
     (\<forall>f x. fl f = Some x \<longrightarrow> filename x \<in> fst ` set (ht_alist h))"

definition files_ok :: "(fid \<Rightarrow> shared_file option) \<Rightarrow> fid \<Rightarrow> bool" where
  "files_ok fl nxt \<longleftrightarrow> (\<forall>f x. fl f = Some x \<longrightarrow> f < nxt \<and> ht_map (fclients x))"

definition files_inv :: "tracker \<Rightarrow> bool" where
  "files_inv st \<longleftrightarrow>
     hash_index_ok (files st) (file_by_hash st) \<and>
     name_index_ok (files st) (file_by_name st) (name_lists st) (next_list st) \<and>
     files_ok (files st) (next_file st)"

lemma files_inv_init: "files_inv tracker_init"
  by (simp add: files_inv_def tracker_init_def hash_index_ok_def name_index_ok_def files_ok_def ht_map_create)

lemma file_get_by_key_index:
  "files_inv st \<Longrightarrow> file_get_by_key st k = map_of (ht_alist (file_by_hash st)) k"
  by (simp add: file_get_by_key_def file_get_by_def files_inv_def hash_index_ok_def ht_get_map split: option.splits)

lemma file_get_by_key_Some:
  "files_inv st \<Longrightarrow> file_get_by_key st k = Some f \<longleftrightarrow> (\<exists>x. files st f = Some x \<and> md5_str x = k)"
  by (subst file_get_by_key_index, assumption)
    (auto simp: files_inv_def hash_index_ok_def ht_map_mem [symmetric])

lemma file_get_by_key_None:
  "files_inv st \<Longrightarrow> file_get_by_key st k = None \<longleftrightarrow> (\<forall>f x. files st f = Some x \<longrightarrow> md5_str x \<noteq> k)"
  using file_get_by_key_Some [of st k] by (metis not_None_eq)

lemma file_get_by_name_spec:
  assumes "files_inv st"
  shows "case file_get_by_name st n of
      None \<Rightarrow> named (files st) n = {}
    | Some l \<Rightarrow> \<exists>xs fs. name_lists st l = Some xs \<and> list_rel xs fs \<and> distinct fs \<and> set fs = named (files st) n"
proof -
  have ni: "name_index_ok (files st) (file_by_name st) (name_lists st) (next_list st)"
    using assms by (simp add: files_inv_def)
  then have m: "ht_map (file_by_name st)" by (simp add: name_index_ok_def)
  have "file_get_by_name st n = map_of (ht_alist (file_by_name st)) n"
    by (simp add: file_get_by_name_def ht_get_map [OF m] split: option.splits)
  moreover have "map_of (ht_alist (file_by_name st)) n = None \<Longrightarrow> named (files st) n = {}"
    using ni by (force simp: name_index_ok_def named_def map_of_eq_None_iff)
  moreover have "map_of (ht_alist (file_by_name st)) n = Some l \<Longrightarrow>
      \<exists>xs fs. name_lists st l = Some xs \<and> list_rel xs fs \<and> distinct fs \<and> set fs = named (files st) n" for l
    using ni map_of_SomeD [of "ht_alist (file_by_name st)" n l] unfolding name_index_ok_def by blast
  ultimately show ?thesis by (auto split: option.splits)
qed

lemma file_list_rel:
  assumes "files_inv st"
  shows "\<exists>l. file_list st = Inr l \<and> list_rel l (rev (map snd (ht_alist (file_by_hash st))))"
    and "distinct (map snd (ht_alist (file_by_hash st)))"
    and "set (map snd (ht_alist (file_by_hash st))) = dom (files st)"
proof -
  have hi: "hash_index_ok (files st) (file_by_hash st)" using assms by (simp add: files_inv_def)
  show "\<exists>l. file_list st = Inr l \<and> list_rel l (rev (map snd (ht_alist (file_by_hash st))))"
    using ht_to_list_rel by (simp add: file_list_def)
  let ?al = "ht_alist (file_by_hash st)"
  have "inj_on snd (set ?al)"
    using hi by (fastforce simp: inj_on_def hash_index_ok_def)
  moreover have "distinct ?al"
    using hi by (simp add: hash_index_ok_def ht_map_def distinct_map)
  ultimately show "distinct (map snd ?al)" by (simp add: distinct_map)
  show "set (map snd ?al) = dom (files st)"
    using hi by (force simp: hash_index_ok_def)
qed

section \<open>Registering a file\<close>

lemma hash_index_add:
  assumes "hash_index_ok fl h" and "fl f = None" and "\<forall>g y. fl g = Some y \<longrightarrow> md5_str y \<noteq> md5_str x"
  shows "hash_index_ok (fl(f \<mapsto> x)) (ht_add_entry h (md5_str x) f)"
proof -
  have m: "ht_map h" and mem: "\<And>k g. (k, g) \<in> set (ht_alist h) \<longleftrightarrow> (\<exists>y. fl g = Some y \<and> md5_str y = k)"
    using assms(1) by (auto simp: hash_index_ok_def)
  have "md5_str x \<notin> fst ` set (ht_alist h)" using mem assms(3) by fastforce
  with ht_add_map(1) [OF m, of "md5_str x" f] ht_add_entry_inv [OF ht_map_inv [OF m], of "md5_str x" f] assms(2)
  show ?thesis by (auto simp: hash_index_ok_def mem)
qed

lemma named_upd: "fl f = None \<Longrightarrow> named (fl(f \<mapsto> x)) n = (if filename x = n then insert f (named fl n) else named fl n)"
  by (auto simp: named_def)

lemma name_index_add_known:
  assumes "name_index_ok fl h nl nxt" and "fl f = None"
    and l: "(filename x, l) \<in> set (ht_alist h)" and nl: "nl l = Some xs"
    and r: "list_rel xs fs" "list_rel xs' (f # fs)" and fs: "set fs = named fl (filename x)" "distinct fs"
  shows "name_index_ok (fl(f \<mapsto> x)) h (nl(l \<mapsto> xs')) nxt"
proof -
  let ?ok = "\<lambda>fl nl n l. l < nxt \<and> (\<exists>xs fs. nl l = Some xs \<and> list_rel xs fs \<and> distinct fs \<and> set fs = named fl n)"
  have m: "ht_map h" "distinct (map snd (ht_alist h))" and ok: "\<And>n l. (n, l) \<in> set (ht_alist h) \<Longrightarrow> ?ok fl nl n l"
    and dom: "\<And>g y. fl g = Some y \<Longrightarrow> filename y \<in> fst ` set (ht_alist h)"
    using assms(1) by (auto simp: name_index_ok_def)
  have nu: "named (fl(f \<mapsto> x)) n = (if filename x = n then insert f (named fl n) else named fl n)" for n
    using assms(2) by (rule named_upd)
  have inj: "n = filename x" if "(n, l) \<in> set (ht_alist h)" for n
    using m(2) inj_onD [of snd "set (ht_alist h)", OF _ _ that l] by (simp add: distinct_map)
  have fn: "f \<notin> named fl n" for n using assms(2) by (simp add: named_def)
  have "?ok (fl(f \<mapsto> x)) (nl(l \<mapsto> xs')) n k" if k: "(n, k) \<in> set (ht_alist h)" for n k
  proof (cases "k = l")
    case True
    then have "n = filename x" using inj k by simp
    moreover have "distinct (f # fs)" using fs fn by auto
    ultimately show ?thesis
      using True ok [OF k] r(2) fs(1) by (auto simp: nu intro!: exI [of _ "f # fs"])
  next
    case False
    then have "n \<noteq> filename x"
      using k l m(1) by (auto simp: ht_map_mem)
    then show ?thesis using ok [OF k] False by (simp add: nu)
  qed
  moreover have "filename x \<in> fst ` set (ht_alist h)" using l by force
  ultimately show ?thesis
    using m dom by (auto simp: name_index_ok_def split: if_splits)
qed

lemma name_index_add_new:
  assumes "name_index_ok fl h nl nxt" and "fl f = None" and "filename x \<notin> fst ` set (ht_alist h)"
    and "list_rel xs [f]"
  shows "name_index_ok (fl(f \<mapsto> x)) (ht_add_entry h (filename x) nxt) (nl(nxt \<mapsto> xs)) (Suc nxt)"
proof -
  let ?ok = "\<lambda>fl nl nxt n l. l < nxt \<and> (\<exists>xs fs. nl l = Some xs \<and> list_rel xs fs \<and> distinct fs \<and> set fs = named fl n)"
  have m: "ht_map h" "distinct (map snd (ht_alist h))" and ok: "\<And>n l. (n, l) \<in> set (ht_alist h) \<Longrightarrow> ?ok fl nl nxt n l"
    and dom: "\<And>g y. fl g = Some y \<Longrightarrow> filename y \<in> fst ` set (ht_alist h)"
    using assms(1) by (auto simp: name_index_ok_def)
  have al: "ht_alist (ht_add_entry h (filename x) nxt) = ht_alist h @ [(filename x, nxt)]"
    and m': "ht_map (ht_add_entry h (filename x) nxt)"
    using ht_add_entry_inv [OF ht_map_inv [OF m(1)]] ht_add_map(1) [OF m(1) assms(3)] by auto
  have nu: "named (fl(f \<mapsto> x)) n = (if filename x = n then insert f (named fl n) else named fl n)" for n
    using assms(2) by (rule named_upd)
  have "named fl (filename x) = {}"
  proof (rule ccontr)
    assume "named fl (filename x) \<noteq> {}"
    then obtain g y where "fl g = Some y" "filename y = filename x" by (auto simp: named_def)
    with dom [of g y] assms(3) show False by simp
  qed
  then have new: "named (fl(f \<mapsto> x)) (filename x) = {f}"
    by (simp add: nu)
  have "?ok (fl(f \<mapsto> x)) (nl(nxt \<mapsto> xs)) (Suc nxt) n l" if l: "(n, l) \<in> set (ht_alist h)" for n l
  proof -
    have "n \<noteq> filename x" using l assms(3) by force
    then have "named (fl(f \<mapsto> x)) n = named fl n" by (simp add: nu)
    moreover have "(nl(nxt \<mapsto> xs)) l = nl l" using ok [OF l] by simp
    ultimately show ?thesis using ok [OF l] by (simp only: less_SucI)
  qed
  moreover have "?ok (fl(f \<mapsto> x)) (nl(nxt \<mapsto> xs)) (Suc nxt) (filename x) nxt"
    using assms(4) by (intro conjI lessI exI [of _ xs] exI [of _ "[f]"]) (simp_all add: new)
  ultimately have "?ok (fl(f \<mapsto> x)) (nl(nxt \<mapsto> xs)) (Suc nxt) n l"
    if "(n, l) \<in> set (ht_alist (ht_add_entry h (filename x) nxt))" for n l
    using that unfolding al set_append list.set Un_iff insert_iff empty_iff prod.inject by blast
  moreover have "filename y \<in> fst ` set (ht_alist (ht_add_entry h (filename x) nxt))"
    if "(fl(f \<mapsto> x)) g = Some y" for g y
    using dom that by (auto simp: al split: if_splits)
  moreover have "distinct (map snd (ht_alist (ht_add_entry h (filename x) nxt)))"
    using ok m(2) by (force simp: al)
  ultimately show ?thesis
    unfolding name_index_ok_def using m' by blast
qed

text \<open>What an operation on the files leaves alone.\<close>

definition same_clients :: "tracker \<Rightarrow> tracker \<Rightarrow> bool" where
  "same_clients st st' \<longleftrightarrow> client_mem st' = client_mem st \<and> next_client st' = next_client st \<and>
     clients st' = clients st \<and> sent st' = sent st"

lemma same_clients_refl [simp]: "same_clients st st"
  by (simp add: same_clients_def)

lemma same_clients_trans: "same_clients st st' \<Longrightarrow> same_clients st' st'' \<Longrightarrow> same_clients st st''"
  by (simp add: same_clients_def)

lemma file_register_new:
  assumes inv: "files_inv st" and f: "f = next_file st"
    and fresh: "\<forall>g y. files st g = Some y \<longrightarrow> md5_str y \<noteq> md5_str x" and x: "ht_map (fclients x)"
  shows "\<exists>st'. file_register ((store_file st f x)\<lparr>next_file := Suc f\<rparr>) f = Inr st' \<and> files_inv st' \<and>
    files st' = (files st)(f \<mapsto> x) \<and> next_file st' = Suc f \<and>
    file_by_hash st' = ht_add_entry (file_by_hash st) (md5_str x) f \<and> same_clients st st'"
proof -
  have hi: "hash_index_ok (files st) (file_by_hash st)"
    and ni: "name_index_ok (files st) (file_by_name st) (name_lists st) (next_list st)"
    and fo: "files_ok (files st) (next_file st)"
    using inv by (auto simp: files_inv_def)
  have fn: "files st f = None"
    using fo f by (cases "files st f") (auto simp: files_ok_def)
  have fo': "files_ok ((files st)(f \<mapsto> x)) (Suc f)"
    using fo x by (auto simp: files_ok_def f less_SucI)
  note hi' = hash_index_add [OF hi fn fresh]
  have m: "ht_map (file_by_name st)" using ni by (simp add: name_index_ok_def)
  show ?thesis
  proof (cases "map_of (ht_alist (file_by_name st)) (filename x)")
    case None
    then have new: "filename x \<notin> fst ` set (ht_alist (file_by_name st))"
      by (simp add: map_of_eq_None_iff)
    obtain xs where xs: "list_add (list_new False) f = Inr xs" "list_rel xs [f]"
      using list_add_rel [OF list_new_rel, of False f] by auto
    show ?thesis
      using name_index_add_new [OF ni fn new xs(2)] hi' fo' xs(1)
      by (auto simp: file_register_def store_file_def store_list_def load_file_def load_list_def
          ht_get_map [OF m] None Let_def files_inv_def same_clients_def)
  next
    case (Some l)
    then have l: "(filename x, l) \<in> set (ht_alist (file_by_name st))" by (simp add: ht_map_mem [OF m])
    then obtain xs fs where nl: "name_lists st l = Some xs" and r: "list_rel xs fs"
      and fs: "distinct fs" "set fs = named (files st) (filename x)"
      using ni unfolding name_index_ok_def by blast
    obtain xs' where xs': "list_add xs f = Inr xs'" "list_rel xs' (f # fs)"
      using list_add_rel [OF r, of f] by auto
    show ?thesis
      using name_index_add_known [OF ni fn l nl r xs'(2) fs(2) fs(1)] hi' fo' xs'(1) nl
      by (auto simp: file_register_def store_file_def store_list_def load_file_def load_list_def
          ht_get_map [OF m] Some Let_def files_inv_def same_clients_def)
  qed
qed

lemma file_new_inv:
  assumes inv: "files_inv st" and "psize \<noteq> 0" and fresh: "\<forall>g y. files st g = Some y \<longrightarrow> md5_str y \<noteq> md5"
  shows "\<exists>st' x. file_new st name len psize md5 = Inr (next_file st, st') \<and> files_inv st' \<and>
    files st' = (files st)(next_file st \<mapsto> x) \<and> next_file st' = Suc (next_file st) \<and>
    filename x = name \<and> md5_str x = md5 \<and> flength x = ucast len \<and> piece_size x = psize \<and>
    unat (piece_count x) = ceil_div (unat len) (unat psize) \<and> ht_alist (fclients x) = [] \<and>
    file_by_hash st' = ht_add_entry (file_by_hash st) md5 (next_file st) \<and> same_clients st st'"
proof -
  obtain n where n: "piece_count_of len psize = Inr n" "unat n = ceil_div (unat len) (unat psize)"
    using piece_count_of_ceil [OF assms(2)] by blast
  define x where "x = \<lparr>filename = name, md5_str = md5, flength = ucast len, piece_count = n,
                piece_size = psize, fclients = ht_create\<rparr>"
  obtain st' where "file_register ((store_file st (next_file st) x)\<lparr>next_file := Suc (next_file st)\<rparr>) (next_file st) = Inr st'"
    and st': "files_inv st' \<and> files st' = (files st)(next_file st \<mapsto> x) \<and> next_file st' = Suc (next_file st) \<and>
      file_by_hash st' = ht_add_entry (file_by_hash st) (md5_str x) (next_file st) \<and> same_clients st st'"
    using file_register_new [OF inv refl, of x] fresh by (auto simp: x_def ht_map_create)
  then have "file_new st name len psize md5 = Inr (next_file st, st')"
    by (simp add: file_new_def n(1) x_def Let_def)
  with st' n(2) show ?thesis by (auto simp: x_def)
qed

lemma file_new_zero: "file_new st name len 0 md5 = Inl Div_By_Zero"
  by (simp add: file_new_def piece_count_of_def)

section \<open>The clients of a file\<close>

lemma store_fclients_inv:
  assumes "files_inv st" and x: "files st f = Some x" and "ht_map h"
  shows "files_inv (store_file st f (x\<lparr>fclients := h\<rparr>))"
proof -
  let ?fl = "(files st)(f \<mapsto> x\<lparr>fclients := h\<rparr>)"
  have md5: "(\<exists>y. ?fl g = Some y \<and> md5_str y = k) \<longleftrightarrow> (\<exists>y. files st g = Some y \<and> md5_str y = k)" for g k
    using x by auto
  have nm: "named ?fl n = named (files st) n" for n
    using x by (auto simp: named_def)
  have "\<exists>y'. files st g = Some y' \<and> filename y' = filename y" if "?fl g = Some y" for g y
    using that x by (auto split: if_splits)
  then have "name_index_ok ?fl (file_by_name st) (name_lists st) (next_list st)"
    using assms(1) unfolding files_inv_def name_index_ok_def nm by metis
  moreover have "hash_index_ok ?fl (file_by_hash st)"
    using assms(1) unfolding files_inv_def hash_index_ok_def md5 by blast
  moreover have "files_ok ?fl (next_file st)"
    using assms by (auto simp: files_inv_def files_ok_def)
  ultimately show ?thesis by (simp add: files_inv_def store_file_def)
qed

lemma files_inv_map: "files_inv st \<Longrightarrow> files st f = Some x \<Longrightarrow> ht_map (fclients x)"
  by (auto simp: files_inv_def files_ok_def)

text \<open>The clients of a file as a map from listening addresses.\<close>

definition peers :: "tracker \<Rightarrow> fid \<Rightarrow> string \<rightharpoonup> cid" where
  "peers st f = (case files st f of None \<Rightarrow> Map.empty | Some x \<Rightarrow> map_of (ht_alist (fclients x)))"

text \<open>The files as the protocol shows them: everything but their clients.\<close>

definition same_files :: "tracker \<Rightarrow> tracker \<Rightarrow> bool" where
  "same_files st st' \<longleftrightarrow> file_by_hash st' = file_by_hash st \<and> file_by_name st' = file_by_name st \<and>
     name_lists st' = name_lists st \<and> next_list st' = next_list st \<and> next_file st' = next_file st \<and>
     (\<forall>f. map_option (\<lambda>x. x\<lparr>fclients := ht_create\<rparr>) (files st' f) =
          map_option (\<lambda>x. x\<lparr>fclients := ht_create\<rparr>) (files st f))"

lemma same_files_refl [simp]: "same_files st st"
  by (simp add: same_files_def)

lemma same_files_trans: "same_files st st' \<Longrightarrow> same_files st' st'' \<Longrightarrow> same_files st st''"
  by (simp add: same_files_def)

lemma same_files_Some:
  assumes "same_files st st'" and "files st f = Some x"
  shows "\<exists>x'. files st' f = Some x' \<and> filename x' = filename x \<and> md5_str x' = md5_str x \<and>
    flength x' = flength x \<and> piece_size x' = piece_size x \<and> piece_count x' = piece_count x"
proof -
  have "map_option (\<lambda>x. x\<lparr>fclients := ht_create\<rparr>) (files st' f) = Some (x\<lparr>fclients := ht_create\<rparr>)"
    using assms by (simp add: same_files_def)
  then obtain x' where "files st' f = Some x'" and "x'\<lparr>fclients := ht_create\<rparr> = x\<lparr>fclients := ht_create\<rparr>"
    by auto
  then show ?thesis by (cases x; cases x') auto
qed

lemma same_files_dom: "same_files st st' \<Longrightarrow> dom (files st') = dom (files st)"
proof -
  assume "same_files st st'"
  then have "files st' f = None \<longleftrightarrow> files st f = None" for f
    by (metis (no_types, lifting) map_option_is_None same_files_def)
  then show ?thesis by (auto simp: dom_def)
qed

lemma store_fclients_same:
  "files st f = Some x \<Longrightarrow> same_files st (store_file st f (x\<lparr>fclients := h\<rparr>)) \<and>
   same_clients st (store_file st f (x\<lparr>fclients := h\<rparr>))"
  by (auto simp: same_files_def same_clients_def store_file_def)

lemma file_add_client_spec:
  assumes inv: "files_inv st" and x: "files st f = Some x"
    and y: "client_mem st c = Some y" "listen_addr_key y = Some k"
  shows "\<exists>st'. file_add_client st f c = Inr st' \<and> files_inv st' \<and> same_files st st' \<and> same_clients st st' \<and>
    peers st' = (peers st)(f := if k \<in> dom (peers st f) then peers st f else (peers st f)(k \<mapsto> c))"
proof -
  have m: "ht_map (fclients x)" using files_inv_map [OF inv x] .
  define h where "h = snd (ht_add_unique_entry (fclients x) k c)"
  have h: "ht_map h" "map_of (ht_alist h) = (if k \<in> dom (map_of (ht_alist (fclients x)))
      then map_of (ht_alist (fclients x)) else (map_of (ht_alist (fclients x)))(k \<mapsto> c))"
    unfolding h_def by (rule ht_add_unique_map [OF m])+
  have "file_add_client st f c = Inr (store_file st f (x\<lparr>fclients := h\<rparr>))"
    by (simp add: file_add_client_def x y h_def)
  moreover have "peers (store_file st f (x\<lparr>fclients := h\<rparr>)) =
      (peers st)(f := if k \<in> dom (peers st f) then peers st f else (peers st f)(k \<mapsto> c))"
    by (rule ext) (simp add: peers_def store_file_def x h(2))
  ultimately show ?thesis
    using store_fclients_inv [OF inv x h(1)] store_fclients_same [OF x, of h] by blast
qed

lemma file_add_client_no_key:
  "files st f = Some x \<Longrightarrow> client_mem st c = Some y \<Longrightarrow> listen_addr_key y = None \<Longrightarrow>
   file_add_client st f c = Inl Null_Deref"
  by (simp add: file_add_client_def)

lemma ht_head_None_alist: "ht_inv h \<Longrightarrow> ht_head h = None \<longleftrightarrow> ht_alist h = []"
  by (auto simp: ht_alist_def hash_entries_def ht_inv_def hash_inv_def table_inv_def split: option.splits)

lemma file_remove_client_spec:
  assumes inv: "files_inv st" and x: "files st f = Some x"
    and y: "client_mem st c = Some y" "listen_addr_key y = Some k"
  shows "\<exists>st'. file_remove_client st f c = Inr st' \<and> files_inv st' \<and> same_files st st' \<and> same_clients st st' \<and>
    peers st' = (peers st)(f := (peers st f)(k := None))"
proof (cases "ht_head (fclients x) = None")
  case True
  then have "ht_alist (fclients x) = []"
    using ht_head_None_alist [OF ht_map_inv [OF files_inv_map [OF inv x]]] by simp
  then have "peers st = (peers st)(f := (peers st f)(k := None))"
    by (auto simp: peers_def x)
  moreover have "file_remove_client st f c = Inr st"
    by (simp add: file_remove_client_def x y True)
  ultimately show ?thesis using inv by auto
next
  case False
  have m: "ht_map (fclients x)" using files_inv_map [OF inv x] .
  define h where "h = snd (ht_remove_entry (fclients x) k)"
  have h: "ht_map h" "map_of (ht_alist h) = (map_of (ht_alist (fclients x)))(k := None)"
    unfolding h_def by (rule ht_remove_map [OF m])+
  have "file_remove_client st f c = Inr (store_file st f (x\<lparr>fclients := h\<rparr>))"
    by (simp add: file_remove_client_def x y h_def False)
  moreover have "peers (store_file st f (x\<lparr>fclients := h\<rparr>)) = (peers st)(f := (peers st f)(k := None))"
    by (rule ext) (simp add: peers_def store_file_def x h(2))
  ultimately show ?thesis
    using store_fclients_inv [OF inv x h(1)] store_fclients_same [OF x, of h] by blast
qed

lemma file_get_or_create_spec:
  assumes inv: "files_inv st" and "psize \<noteq> 0"
  shows "\<exists>f st' x. file_get_or_create st name len psize md5 = Inr (f, st') \<and> files_inv st' \<and>
    same_clients st st' \<and> files st' f = Some x \<and> md5_str x = md5 \<and> peers st' = peers st \<and>
    (\<forall>g y. files st g = Some y \<longrightarrow> files st' g = Some y) \<and>
    dom (files st') = insert f (dom (files st))"
proof (cases "file_get_by_key st md5")
  case (Some f)
  then obtain x where "files st f = Some x" "md5_str x = md5"
    using file_get_by_key_Some [OF inv] by auto
  then show ?thesis
    using inv Some by (auto simp: file_get_or_create_def intro!: exI [of _ f] exI [of _ st])
next
  case None
  then have fresh: "\<forall>g y. files st g = Some y \<longrightarrow> md5_str y \<noteq> md5"
    using file_get_by_key_None [OF inv] by blast
  obtain st' x where s: "file_new st name len psize md5 = Inr (next_file st, st')" "files_inv st'"
      "files st' = (files st)(next_file st \<mapsto> x)" "md5_str x = md5" "ht_alist (fclients x) = []"
      "same_clients st st'"
    using file_new_inv [OF inv assms(2) fresh, of name len] by blast
  have fn: "files st (next_file st) = None"
    using inv by (cases "files st (next_file st)") (auto simp: files_inv_def files_ok_def)
  have "peers st' = peers st"
    using fn s(3,5) by (auto simp: peers_def fun_eq_iff)
  moreover have "\<forall>g y. files st g = Some y \<longrightarrow> files st' g = Some y"
    using fn s(3) by auto
  ultimately show ?thesis
    using s None by (auto simp: file_get_or_create_def)
qed

section \<open>Properties\<close>

text \<open>
  For a piece size that is not zero, \<open>file_new\<close> registers a file under its key whose piece
  count is the number of pieces that covers it: with that many pieces the file fits, with one
  less it does not. The indexes by key and by name stay consistent.
\<close>

theorem file_new_pieces:
  assumes "files_inv st" and "psize \<noteq> 0" and "file_get_by_key st key = None"
  shows "\<exists>f st' x. file_new st name len psize key = Inr (f, st') \<and> files_inv st' \<and>
    file_get_by_key st' key = Some f \<and> files st' f = Some x \<and> filename x = name \<and>
    unat (flength x) = unat len \<and> unat len \<le> unat (piece_count x) * unat psize \<and>
    (0 < unat len \<longrightarrow> (unat (piece_count x) - 1) * unat psize < unat len)"
proof -
  have fresh: "\<forall>g y. files st g = Some y \<longrightarrow> md5_str y \<noteq> key"
    using assms by (simp add: file_get_by_key_None)
  obtain st' x where s: "file_new st name len psize key = Inr (next_file st, st')" "files_inv st'"
      "files st' = (files st)(next_file st \<mapsto> x)" "filename x = name" "md5_str x = key" "flength x = ucast len"
      "unat (piece_count x) = ceil_div (unat len) (unat psize)"
    using file_new_inv [OF assms(1,2) fresh, of name len] by blast
  have "0 < unat psize" using assms(2) by (simp add: unat_gt_0)
  note c = ceil_div_props [OF this, of "unat len"]
  have "unat len < 2 ^ 64" using unsigned_less [of len, where ?'a = nat] by simp
  then have len: "unat (flength x) = unat len" using s(6) by (simp add: unsigned_ucast_eq take_bit_nat_eq_self)
  have k: "file_get_by_key st' key = Some (next_file st)"
    using file_get_by_key_Some [OF s(2), of key] s(3,5) by auto
  have "files st' (next_file st) = Some x" using s(3) by simp
  with s(1,2,4) len k c(2,3) [folded s(7)] show ?thesis
    by (intro exI [of _ "next_file st"] exI [of _ st'] exI [of _ x] conjI impI)
qed

text \<open>
  \<open>file_get_or_create\<close> never makes a second file for a key: asked again, whatever the other
  arguments, it returns the same file and changes nothing.
\<close>

theorem file_get_or_create_once:
  assumes "files_inv st" and "psize \<noteq> 0"
  shows "\<exists>f st'. file_get_or_create st name len psize key = Inr (f, st') \<and> files_inv st' \<and>
    file_get_or_create st' name' len' psize' key = Inr (f, st') \<and>
    (\<forall>g x y. files st' g = Some x \<and> files st' f = Some y \<and> md5_str x = md5_str y \<longrightarrow> g = f)"
proof -
  obtain f st' x where s: "file_get_or_create st name len psize key = Inr (f, st')" "files_inv st'"
      "files st' f = Some x" "md5_str x = key"
    using file_get_or_create_spec [OF assms, of name len key] by blast
  then have k: "file_get_by_key st' key = Some f" by (simp add: file_get_by_key_Some)
  have "g = f" if "files st' g = Some z" "files st' f = Some y" "md5_str z = md5_str y" for g z y
  proof -
    have "md5_str z = key" using that s(3,4) by simp
    with that(1) have "file_get_by_key st' key = Some g" using file_get_by_key_Some [OF s(2)] by blast
    with k show ?thesis by simp
  qed
  moreover have "file_get_or_create st' name' len' psize' key = Inr (f, st')"
    unfolding file_get_or_create_def k option.case ..
  ultimately show ?thesis using s(1,2) by blast
qed

lemma file_new_pieces_witness:
  "\<exists>f st' x. file_new tracker_init ''a.dat'' 1025 1024 ''k'' = Inr (f, st') \<and> files_inv st' \<and>
    file_get_by_key st' ''k'' = Some f \<and> files st' f = Some x \<and> filename x = ''a.dat'' \<and>
    unat (flength x) = unat (1025 :: 32 word) \<and> unat (1025 :: 32 word) \<le> unat (piece_count x) * unat (1024 :: 32 word) \<and>
    (0 < unat (1025 :: 32 word) \<longrightarrow> (unat (piece_count x) - 1) * unat (1024 :: 32 word) < unat (1025 :: 32 word))"
  by (rule file_new_pieces) (simp_all add: files_inv_init file_get_by_key_None, simp add: tracker_init_def)

lemma file_get_or_create_once_witness:
  "\<exists>f st'. file_get_or_create tracker_init ''a.dat'' 10 5 ''k'' = Inr (f, st') \<and> files_inv st' \<and>
    file_get_or_create st' ''b.dat'' 7 0 ''k'' = Inr (f, st') \<and>
    (\<forall>g x y. files st' g = Some x \<and> files st' f = Some y \<and> md5_str x = md5_str y \<longrightarrow> g = f)"
  by (rule file_get_or_create_once) (simp_all add: files_inv_init)

end
