(* ===== verification/Clients.thy ===== *)
theory Clients
  imports Files
begin

text \<open>
  \<open>tracker/client.c\<close>: the clients by connection address, their listening address, the files
  they share and their reference counts; a client whose count drops to zero is deleted.
\<close>

section \<open>Operations\<close>

definition client_create :: "tracker \<Rightarrow> int \<Rightarrow> sockaddr_in \<Rightarrow> string \<Rightarrow> cid \<times> tracker" where
  "client_create st sock ad conn_key =
     (let c = next_client st;
          y = \<lparr>socket = sock, addr = ad, conn_addr_key = conn_key, listening_port = 0,
               listen_addr_key = None, files_seed = list_new False, files_leech = list_new False,
               ref_count = 0, can_rehear = False\<rparr>
      in (c, (store_client st c y)\<lparr>next_client := Suc c\<rparr>))"

definition listen_key :: "sockaddr_in \<Rightarrow> 16 word \<Rightarrow> string" where
  "listen_key ad port = ip_stringify (s_addr ad) @ '':'' @ dec (unat port)"

definition client_set_listening_port :: "tracker \<Rightarrow> cid \<Rightarrow> 16 word \<Rightarrow> tracker result" where
  "client_set_listening_port st c port =
     rbind (load_client st c) (\<lambda>y.
       Inr (store_client st c
         (y\<lparr>listening_port := port, listen_addr_key := Some (listen_key (addr y) port)\<rparr>)))"

definition remove_client_from_file_list :: "tracker \<Rightarrow> cid \<Rightarrow> fid clist \<Rightarrow> (fid clist \<times> tracker) result" where
  "remove_client_from_file_list st c fs =
     list_iter list_get (\<lambda>f st. rbind (deref f) (\<lambda>f. file_remove_client st f c)) 1 (list_size fs) fs st"

definition client_free :: "tracker \<Rightarrow> cid \<Rightarrow> tracker result" where
  "client_free st c =
     rbind (load_client st c) (\<lambda>y.
     rbind (remove_client_from_file_list st c (files_seed y)) (\<lambda>(l1, st1).
     rbind (list_free_call l1) (\<lambda>_.
     rbind (remove_client_from_file_list st1 c (files_leech y)) (\<lambda>(l2, st2).
     rbind (list_free_call l2) (\<lambda>_.
       Inr (st2\<lparr>client_mem := (client_mem st2)(c := None)\<rparr>))))))"

text \<open>
  \<open>peername\<close> is what \<open>getpeername\<close> stores for the socket, \<open>None\<close> when it fails; the result
  is \<open>None\<close> for \<open>NULL\<close>.
\<close>

definition client_get_or_create ::
  "tracker \<Rightarrow> sockaddr_in option \<Rightarrow> int \<Rightarrow> (cid option \<times> tracker) result" where
  "client_get_or_create st peername sock =
     (case peername of
        None \<Rightarrow> Inr (None, st)
      | Some ad \<Rightarrow>
          (let conn_key = sockaddr_stringify ad; (err, found) = ht_get_entry (clients st) conn_key
           in if err < 0
              then (let (c, st1) = client_create st sock ad conn_key
                    in Inr (Some c, st1\<lparr>clients := ht_add_entry (clients st1) conn_key c\<rparr>))
              else Inr (found, st)))"

definition client_get :: "tracker \<Rightarrow> string \<Rightarrow> cid option" where
  "client_get st conn_key = (let (err, c) = ht_get_entry (clients st) conn_key in if err < 0 then None else c)"

definition client_list :: "tracker \<Rightarrow> cid clist result" where
  "client_list st = ht_to_list (clients st)"

definition delete_client :: "tracker \<Rightarrow> cid \<Rightarrow> tracker result" where
  "delete_client st c =
     rbind (load_client st c) (\<lambda>y.
       client_free (st\<lparr>clients := snd (ht_remove_entry (clients st) (conn_addr_key y))\<rparr>) c)"

text \<open>The argument of the reference counting functions may be a null pointer.\<close>

definition client_inc_ref :: "tracker \<Rightarrow> cid option \<Rightarrow> tracker result" where
  "client_inc_ref st c =
     rbind (deref c) (\<lambda>c. rbind (load_client st c) (\<lambda>y.
       Inr (store_client st c (y\<lparr>ref_count := ref_count y + 1\<rparr>))))"

definition client_dec_ref :: "tracker \<Rightarrow> cid option \<Rightarrow> tracker result" where
  "client_dec_ref st c =
     rbind (deref c) (\<lambda>c. rbind (load_client st c) (\<lambda>y.
       let st1 = store_client st c (y\<lparr>ref_count := ref_count y - 1\<rparr>)
       in if ref_count y - 1 \<le> 0 then delete_client st1 c else Inr st1))"

section \<open>The client invariant\<close>

text \<open>The elements of a list, for specifications.\<close>

definition held :: "'a clist \<Rightarrow> 'a set" where
  "held l = {x. \<exists>xs. list_rel l xs \<and> x \<in> set xs}"

lemma list_rel_unique:
  assumes "list_rel l xs" and "list_rel l ys"
  shows "xs = ys"
proof (rule nth_equalityI)
  show len: "length xs = length ys"
    using list_size_rel [OF assms(1)] list_size_rel [OF assms(2)] by simp
  fix i
  assume i: "i < length xs"
  have nth: "\<exists>l'. list_get l (Suc i) = Inr (Some (zs ! i), l')" if "list_rel l zs" "i < length zs" for zs
  proof -
    have "1 \<le> Suc i" "Suc i \<le> length zs" using that(2) by simp_all
    from list_get_rel [OF that(1) this] show ?thesis unfolding diff_Suc_1 by blast
  qed
  obtain l1 where l1: "list_get l (Suc i) = Inr (Some (xs ! i), l1)"
    using nth [OF assms(1) i] by blast
  have "i < length ys" using i len by (simp only:)
  then obtain l2 where "list_get l (Suc i) = Inr (Some (ys ! i), l2)"
    using nth [OF assms(2)] by blast
  with l1 show "xs ! i = ys ! i" by simp
qed

lemma held_rel: "list_rel l xs \<Longrightarrow> held l = set xs"
  unfolding held_def using list_rel_unique by blast

definition shared :: "client \<Rightarrow> fid set" where
  "shared y = held (files_seed y) \<union> held (files_leech y)"

text \<open>
  A client's lists are well-formed lists of existing files, empty before its first announce;
  its keys are the printed addresses.
\<close>

definition client_ok :: "tracker \<Rightarrow> client \<Rightarrow> bool" where
  "client_ok st y \<longleftrightarrow>
     (\<exists>xs. list_rel (files_seed y) xs) \<and> (\<exists>ys. list_rel (files_leech y) ys) \<and>
     shared y \<subseteq> dom (files st) \<and> (listen_addr_key y = None \<longrightarrow> shared y = {}) \<and>
     conn_addr_key y = sockaddr_stringify (addr y) \<and>
     (listen_addr_key y = None \<or> listen_addr_key y = Some (listen_key (addr y) (listening_port y)))"

definition clients_inv :: "tracker \<Rightarrow> bool" where
  "clients_inv st \<longleftrightarrow>
     ht_map (clients st) \<and>
     (\<forall>k c. (k, c) \<in> set (ht_alist (clients st)) \<longleftrightarrow> (\<exists>y. client_mem st c = Some y \<and> conn_addr_key y = k)) \<and>
     (\<forall>c y. client_mem st c = Some y \<longrightarrow> c < next_client st \<and> client_ok st y)"

definition tracker_inv :: "tracker \<Rightarrow> bool" where
  "tracker_inv st \<longleftrightarrow> files_inv st \<and> clients_inv st"

text \<open>
  Every address listed for a file is the listening address of a client that exists and has the
  file in one of its lists.
\<close>

definition peers_ok :: "tracker \<Rightarrow> bool" where
  "peers_ok st \<longleftrightarrow> (\<forall>f k c. peers st f k = Some c \<longrightarrow>
     (\<exists>y. client_mem st c = Some y \<and> listen_addr_key y = Some k \<and> f \<in> shared y))"

lemma tracker_inv_init: "tracker_inv tracker_init" "peers_ok tracker_init"
  by (simp_all add: tracker_inv_def files_inv_init clients_inv_def ht_map_create peers_ok_def peers_def)
    (simp_all add: tracker_init_def ht_map_create)

lemma client_ok_files:
  "client_ok st y \<Longrightarrow> dom (files st) \<subseteq> dom (files st') \<Longrightarrow> client_ok st' y"
proof -
  assume c: "client_ok st y" and "dom (files st) \<subseteq> dom (files st')"
  then have "shared y \<subseteq> dom (files st')" unfolding client_ok_def by (elim conjE) (rule subset_trans)
  with c show ?thesis unfolding client_ok_def by simp
qed

lemma clients_inv_frame:
  "clients_inv st \<Longrightarrow> same_clients st st' \<Longrightarrow> dom (files st) \<subseteq> dom (files st') \<Longrightarrow> clients_inv st'"
  using client_ok_files [of st _ st'] by (auto simp: clients_inv_def same_clients_def)

lemma files_inv_frame:
  "files_inv st \<Longrightarrow> files st' = files st \<Longrightarrow> file_by_hash st' = file_by_hash st \<Longrightarrow>
   file_by_name st' = file_by_name st \<Longrightarrow> name_lists st' = name_lists st \<Longrightarrow>
   next_list st' = next_list st \<Longrightarrow> next_file st' = next_file st \<Longrightarrow> files_inv st'"
  by (simp add: files_inv_def)

lemma peers_frame: "files st' = files st \<Longrightarrow> peers st' = peers st"
  by (simp add: peers_def fun_eq_iff)

section \<open>Finding and creating clients\<close>

lemma client_get_Some:
  assumes "clients_inv st"
  shows "client_get st k = Some c \<longleftrightarrow> (\<exists>y. client_mem st c = Some y \<and> conn_addr_key y = k)"
proof -
  have m: "ht_map (clients st)" using assms by (simp add: clients_inv_def)
  have "client_get st k = map_of (ht_alist (clients st)) k"
    by (simp add: client_get_def ht_get_map [OF m] split: option.splits)
  then show ?thesis
    using assms by (auto simp: ht_map_mem [OF m, symmetric] clients_inv_def)
qed

lemma client_get_or_create_spec:
  assumes inv: "tracker_inv st"
  shows "\<exists>c st' y. client_get_or_create st (Some ad) sock = Inr (Some c, st') \<and> tracker_inv st' \<and>
    client_mem st' = (client_mem st)(c \<mapsto> y) \<and> addr y = ad \<and> files st' = files st \<and> sent st' = sent st \<and>
    (client_mem st c = None \<and> listen_addr_key y = None \<and> socket y = sock \<and> ref_count y = 0 \<or>
     client_mem st c = Some y)"
proof -
  have fi: "files_inv st" and ci: "clients_inv st" using inv by (auto simp: tracker_inv_def)
  have m: "ht_map (clients st)" using ci by (simp add: clients_inv_def)
  let ?k = "sockaddr_stringify ad"
  show ?thesis
  proof (cases "map_of (ht_alist (clients st)) ?k")
    case (Some c)
    then have "(?k, c) \<in> set (ht_alist (clients st))" by (simp add: ht_map_mem [OF m])
    then obtain y where y: "client_mem st c = Some y" "conn_addr_key y = ?k"
      using ci by (auto simp: clients_inv_def)
    then have "addr y = ad"
      using ci by (auto simp: clients_inv_def client_ok_def sockaddr_stringify_eq)
    moreover have "client_mem st = (client_mem st)(c \<mapsto> y)" using y(1) by auto
    moreover have "client_get_or_create st (Some ad) sock = Inr (Some c, st)"
      by (simp add: client_get_or_create_def ht_get_map [OF m] Some Let_def)
    ultimately show ?thesis using inv y(1) by metis
  next
    case None
    define c where "c = next_client st"
    define y where "y = \<lparr>socket = sock, addr = ad, conn_addr_key = ?k, listening_port = 0,
               listen_addr_key = None, files_seed = list_new False, files_leech = list_new False,
               ref_count = 0, can_rehear = False\<rparr>"
    define st' where "st' = st\<lparr>client_mem := (client_mem st)(c \<mapsto> y), next_client := Suc c,
               clients := ht_add_entry (clients st) ?k c\<rparr>"
    have e: "client_get_or_create st (Some ad) sock = Inr (Some c, st')"
      by (simp add: client_get_or_create_def ht_get_map [OF m] None Let_def client_create_def
          store_client_def c_def y_def st'_def)
    have cn: "client_mem st c = None"
      using ci by (cases "client_mem st c") (auto simp: clients_inv_def c_def)
    have new: "?k \<notin> fst ` set (ht_alist (clients st))"
      using None by (simp add: map_of_eq_None_iff)
    have "client_ok st' y"
      using list_new_rel [of False] held_rel [OF list_new_rel, of False]
      by (auto simp: client_ok_def shared_def y_def)
    moreover have "client_ok st' z" if "client_mem st d = Some z" for d z
      using ci that client_ok_files [of st z st'] by (auto simp: clients_inv_def st'_def)
    ultimately have "clients_inv st'"
      using ci cn ht_add_map(1) [OF m new, of c] ht_add_entry_inv [OF ht_map_inv [OF m], of ?k c]
      unfolding clients_inv_def by (auto simp: st'_def y_def c_def less_SucI)
    moreover have "files_inv st'" by (rule files_inv_frame [OF fi]) (simp_all add: st'_def)
    ultimately show ?thesis
      using e cn by (auto simp: tracker_inv_def st'_def y_def intro!: exI [of _ c])
  qed
qed

section \<open>Working through a list of files\<close>

text \<open>A loop whose body changes one entry of each file's client table.\<close>

lemma fold_files:
  assumes step: "\<And>st f. files_inv st \<Longrightarrow> client_mem st c = Some y \<Longrightarrow> f \<in> dom (files st) \<Longrightarrow>
      \<exists>st'. g f st = Inr st' \<and> files_inv st' \<and> same_files st st' \<and> same_clients st st' \<and>
        peers st' = (peers st)(f := u (peers st f))"
    and idem: "\<And>p. u (u p) = u p"
  shows "files_inv st \<Longrightarrow> client_mem st c = Some y \<Longrightarrow> set xs \<subseteq> dom (files st) \<Longrightarrow>
    \<exists>st'. fold_result g xs st = Inr st' \<and> files_inv st' \<and> same_files st st' \<and> same_clients st st' \<and>
      peers st' = (\<lambda>f. if f \<in> set xs then u (peers st f) else peers st f)"
proof (induction xs arbitrary: st)
  case Nil
  then show ?case by simp
next
  case (Cons f xs)
  have "f \<in> dom (files st)" using Cons.prems(3) by simp
  from step [OF Cons.prems(1,2) this] obtain st1 where s1: "g f st = Inr st1" "files_inv st1" "same_files st st1"
      "same_clients st st1" "peers st1 = (peers st)(f := u (peers st f))"
    by blast
  have "client_mem st1 c = Some y" "set xs \<subseteq> dom (files st1)"
    using s1(4) Cons.prems(2,3) same_files_dom [OF s1(3)] by (simp_all add: same_clients_def)
  from Cons.IH [OF s1(2) this] obtain st2 where s2: "fold_result g xs st1 = Inr st2" "files_inv st2"
      "same_files st1 st2" "same_clients st1 st2"
      "peers st2 = (\<lambda>f. if f \<in> set xs then u (peers st1 f) else peers st1 f)"
    by blast
  have "peers st2 = (\<lambda>h. if h \<in> set (f # xs) then u (peers st h) else peers st h)"
    unfolding s2(5) s1(5) by (rule ext) (simp add: idem)
  then show ?case
    using s1 s2 same_files_trans same_clients_trans by auto
qed

lemma fold_files_Some:
  "fold_result (\<lambda>f st. rbind (deref f) (\<lambda>f. g f st)) (map Some xs) st = fold_result g xs st"
  by (simp add: fold_result_map)

lemma fold_remove:
  assumes "listen_addr_key y = Some k" and "files_inv st" and "client_mem st c = Some y" and "set xs \<subseteq> dom (files st)"
  shows "\<exists>st'. fold_result (\<lambda>f st. file_remove_client st f c) xs st = Inr st' \<and> files_inv st' \<and>
    same_files st st' \<and> same_clients st st' \<and>
    peers st' = (\<lambda>f. if f \<in> set xs then (peers st f)(k := None) else peers st f)"
proof (rule fold_files [OF _ _ assms(2,3,4), where u = "\<lambda>p. p(k := None)"])
  fix st f
  assume "files_inv st" "client_mem st c = Some y" "f \<in> dom (files st)"
  with file_remove_client_spec [OF this(1) _ this(2) assms(1)]
  show "\<exists>st'. file_remove_client st f c = Inr st' \<and> files_inv st' \<and> same_files st st' \<and> same_clients st st' \<and>
    peers st' = (peers st)(f := (peers st f)(k := None))"
    by blast
qed simp

lemma fold_add:
  assumes "listen_addr_key y = Some k" and "files_inv st" and "client_mem st c = Some y" and "set xs \<subseteq> dom (files st)"
  shows "\<exists>st'. fold_result (\<lambda>f st. file_add_client st f c) xs st = Inr st' \<and> files_inv st' \<and>
    same_files st st' \<and> same_clients st st' \<and>
    peers st' = (\<lambda>f. if f \<in> set xs then (if k \<in> dom (peers st f) then peers st f else (peers st f)(k \<mapsto> c)) else peers st f)"
proof (rule fold_files [OF _ _ assms(2,3,4), where u = "\<lambda>p. if k \<in> dom p then p else p(k \<mapsto> c)"])
  fix st f
  assume "files_inv st" "client_mem st c = Some y" "f \<in> dom (files st)"
  with file_add_client_spec [OF this(1) _ this(2) assms(1)]
  show "\<exists>st'. file_add_client st f c = Inr st' \<and> files_inv st' \<and> same_files st st' \<and> same_clients st st' \<and>
    peers st' = (peers st)(f := if k \<in> dom (peers st f) then peers st f else (peers st f)(k \<mapsto> c))"
    by blast
qed simp

section \<open>Deleting a client\<close>

definition forget :: "string option \<Rightarrow> fid set \<Rightarrow> (fid \<Rightarrow> string \<rightharpoonup> cid) \<Rightarrow> (fid \<Rightarrow> string \<rightharpoonup> cid)" where
  "forget ko fs p = (\<lambda>f k. if f \<in> fs \<and> ko = Some k then None else p f k)"

lemma remove_client_from_file_list_spec:
  assumes inv: "files_inv st" and y: "client_mem st c = Some y" and r: "list_rel fs xs"
    and d: "set xs \<subseteq> dom (files st)" and k: "listen_addr_key y = None \<Longrightarrow> xs = []"
  shows "\<exists>l' st'. remove_client_from_file_list st c fs = Inr (l', st') \<and> list_rel l' xs \<and>
    files_inv st' \<and> same_files st st' \<and> same_clients st st' \<and>
    peers st' = forget (listen_addr_key y) (set xs) (peers st)"
proof -
  let ?g = "\<lambda>f st. rbind (deref f) (\<lambda>f. file_remove_client st f c)"
  obtain l' where l': "list_rel l' xs"
    and e: "list_iter list_get ?g 1 (list_size fs) fs st = rbind (fold_result ?g (map Some xs) st) (\<lambda>s'. Inr (l', s'))"
    using li.iter_all [OF r, of ?g st] by blast
  show ?thesis
  proof (cases "listen_addr_key y")
    case None
    then show ?thesis
      using e l' k inv by (auto simp: remove_client_from_file_list_def forget_def)
  next
    case (Some key)
    obtain st' where st': "fold_result (\<lambda>f st. file_remove_client st f c) xs st = Inr st'" "files_inv st'"
      "same_files st st'" "same_clients st st'"
      "peers st' = (\<lambda>f. if f \<in> set xs then (peers st f)(key := None) else peers st f)"
      using fold_remove [OF Some inv y d] by blast
    have "peers st' = forget (Some key) (set xs) (peers st)"
      unfolding st'(5) by (intro ext) (simp add: forget_def)
    then show ?thesis
      using e l' st'(1-4) by (auto simp: remove_client_from_file_list_def fold_files_Some Some)
  qed
qed

lemma client_ok_lists:
  assumes "client_ok st y"
  obtains xs ys where "list_rel (files_seed y) xs" and "list_rel (files_leech y) ys" and "shared y = set xs \<union> set ys"
    and "set xs \<subseteq> dom (files st)" and "set ys \<subseteq> dom (files st)" and "listen_addr_key y = None \<Longrightarrow> xs = [] \<and> ys = []"
proof -
  obtain xs ys where r: "list_rel (files_seed y) xs" "list_rel (files_leech y) ys"
    using assms by (auto simp: client_ok_def)
  then have "shared y = set xs \<union> set ys" by (simp add: shared_def held_rel)
  with r assms show ?thesis by (intro that [of xs ys]) (auto simp: client_ok_def)
qed

lemma client_free_spec:
  assumes inv: "files_inv st" and y: "client_mem st c = Some y" and ok: "client_ok st y"
  shows "\<exists>st' st''. client_free st c = Inr st'' \<and> files_inv st' \<and> same_files st st' \<and> same_clients st st' \<and>
    peers st' = forget (listen_addr_key y) (shared y) (peers st) \<and>
    st'' = st'\<lparr>client_mem := (client_mem st)(c := None)\<rparr>"
proof -
  obtain xs ys where r: "list_rel (files_seed y) xs" "list_rel (files_leech y) ys" and sh: "shared y = set xs \<union> set ys"
    and d: "set xs \<subseteq> dom (files st)" "set ys \<subseteq> dom (files st)" and k: "listen_addr_key y = None \<Longrightarrow> xs = [] \<and> ys = []"
    using client_ok_lists [OF ok] by blast
  obtain l1 st1 where s1: "remove_client_from_file_list st c (files_seed y) = Inr (l1, st1)" "list_rel l1 xs"
      "files_inv st1" "same_files st st1" "same_clients st st1"
      "peers st1 = forget (listen_addr_key y) (set xs) (peers st)"
    using remove_client_from_file_list_spec [OF inv y r(1) d(1)] k by blast
  have y1: "client_mem st1 c = Some y" using s1(5) y by (simp add: same_clients_def)
  have d1: "set ys \<subseteq> dom (files st1)" using d(2) same_files_dom [OF s1(4)] by simp
  obtain l2 st2 where s2: "remove_client_from_file_list st1 c (files_leech y) = Inr (l2, st2)" "list_rel l2 ys"
      "files_inv st2" "same_files st1 st2" "same_clients st1 st2"
      "peers st2 = forget (listen_addr_key y) (set ys) (peers st1)"
    using remove_client_from_file_list_spec [OF s1(3) y1 r(2) d1] k by blast
  have p: "peers st2 = forget (listen_addr_key y) (shared y) (peers st)"
    unfolding s2(6) s1(6) sh by (intro ext) (simp add: forget_def)
  have e: "client_free st c = Inr (st2\<lparr>client_mem := (client_mem st2)(c := None)\<rparr>)"
    using y s1(1,2) s2(1,2) by (simp add: client_free_def list_free_call_rel)
  have sc: "same_clients st st2" using s1(5) s2(5) same_clients_trans by blast
  then have "client_mem st2 = client_mem st" by (simp add: same_clients_def)
  with p e sc s2(3) same_files_trans [OF s1(4) s2(4)] show ?thesis by auto
qed

lemma delete_client_spec:
  assumes inv: "tracker_inv st" and y: "client_mem st c = Some y"
  shows "\<exists>st'. delete_client st c = Inr st' \<and> tracker_inv st' \<and> client_mem st' = (client_mem st)(c := None) \<and>
    same_files st st' \<and> sent st' = sent st \<and> peers st' = forget (listen_addr_key y) (shared y) (peers st)"
proof -
  have fi: "files_inv st" and ci: "clients_inv st" using inv by (auto simp: tracker_inv_def)
  have m: "ht_map (clients st)" and ok: "client_ok st y" using ci y by (auto simp: clients_inv_def)
  let ?k = "conn_addr_key y"
  define t where "t = snd (ht_remove_entry (clients st) ?k)"
  have t: "ht_map t" "map_of (ht_alist t) = (map_of (ht_alist (clients st)))(?k := None)"
    unfolding t_def by (rule ht_remove_map [OF m])+
  define st0 where "st0 = st\<lparr>clients := t\<rparr>"
  have "files_inv st0" by (rule files_inv_frame [OF fi]) (simp_all add: st0_def)
  moreover have "client_mem st0 c = Some y" by (simp add: st0_def y)
  moreover have "client_ok st0 y" by (rule client_ok_files [OF ok]) (simp add: st0_def)
  ultimately obtain st1 st2 where s: "client_free st0 c = Inr st2" "files_inv st1" "same_files st0 st1"
      "same_clients st0 st1" "peers st1 = forget (listen_addr_key y) (shared y) (peers st0)"
      "st2 = st1\<lparr>client_mem := (client_mem st0)(c := None)\<rparr>"
    using client_free_spec by blast
  have sf: "same_files st st2" using s(3,6) by (simp add: same_files_def st0_def)
  have p: "peers st2 = forget (listen_addr_key y) (shared y) (peers st)"
    using s(5,6) peers_frame [of st2 st1] peers_frame [of st0 st] by (simp add: st0_def)
  have cm: "client_mem st2 = (client_mem st)(c := None)" and cl: "clients st2 = t"
    and nc: "next_client st2 = next_client st" and se: "sent st2 = sent st"
    using s(4,6) by (simp_all add: st0_def same_clients_def)
  have "files_inv st2" by (rule files_inv_frame [OF s(2)]) (simp_all add: s(6))
  moreover have "clients_inv st2"
  proof -
    have mem: "(k, d) \<in> set (ht_alist t) \<longleftrightarrow> k \<noteq> ?k \<and> (k, d) \<in> set (ht_alist (clients st))" for k d
      by (simp add: ht_map_mem [OF t(1)] ht_map_mem [OF m] t(2))
    have tab: "\<And>k d. (k, d) \<in> set (ht_alist (clients st)) \<longleftrightarrow> (\<exists>y. client_mem st d = Some y \<and> conn_addr_key y = k)"
      using ci by (simp add: clients_inv_def)
    then have "(?k, c) \<in> set (ht_alist (clients st))" using y by blast
    then have uniq: "(?k, d) \<in> set (ht_alist (clients st)) \<Longrightarrow> d = c" for d
      by (simp add: ht_map_mem [OF m])
    have "(k, d) \<in> set (ht_alist t) \<longleftrightarrow> (\<exists>z. client_mem st2 d = Some z \<and> conn_addr_key z = k)" for k d
      unfolding mem cm using tab uniq y by (cases "d = c") auto
    moreover have "client_ok st2 z" if "client_mem st d = Some z" for d z
      using ci that client_ok_files [of st z st2] same_files_dom [OF sf] by (auto simp: clients_inv_def)
    ultimately show ?thesis
      using t(1) ci by (auto simp: clients_inv_def cl cm nc)
  qed
  moreover have "delete_client st c = Inr st2"
    using s(1) y by (simp add: delete_client_def st0_def t_def)
  ultimately show ?thesis using cm sf se p by (auto simp: tracker_inv_def)
qed

lemma delete_client_peers_ok:
  assumes "peers_ok st" and y: "client_mem st c = Some y"
    and cm: "client_mem st' = (client_mem st)(c := None)"
    and p: "peers st' = forget (listen_addr_key y) (shared y) (peers st)"
  shows "peers_ok st'"
  unfolding peers_ok_def
proof (intro allI impI)
  fix f k d
  assume "peers st' f k = Some d"
  then have pk: "peers st f k = Some d" and nf: "\<not> (f \<in> shared y \<and> listen_addr_key y = Some k)"
    unfolding p by (auto simp: forget_def split: if_splits)
  obtain z where z: "client_mem st d = Some z" "listen_addr_key z = Some k" "f \<in> shared z"
    using assms(1) pk unfolding peers_ok_def by blast
  then have "d \<noteq> c" using nf y by auto
  then show "\<exists>y. client_mem st' d = Some y \<and> listen_addr_key y = Some k \<and> f \<in> shared y"
    using z by (simp add: cm)
qed

section \<open>Reference counts and the listening port\<close>

lemma clients_inv_upd:
  assumes ci: "clients_inv st" and y: "client_mem st c = Some y" and "conn_addr_key y' = conn_addr_key y"
    and "client_ok st y'"
  shows "clients_inv (store_client st c y')"
proof -
  have "client_ok (store_client st c y') z" if "client_ok st z" for z
    by (rule client_ok_files [OF that]) (simp add: store_client_def)
  moreover have "(\<exists>z. client_mem (store_client st c y') d = Some z \<and> conn_addr_key z = k) \<longleftrightarrow>
      (\<exists>z. client_mem st d = Some z \<and> conn_addr_key z = k)" for d k
    using y assms(3) by (auto simp: store_client_def)
  ultimately show ?thesis
    using ci y assms(4) unfolding clients_inv_def by (auto simp: store_client_def split: if_splits)
qed

lemma tracker_inv_upd:
  assumes "tracker_inv st" and "client_mem st c = Some y" and "conn_addr_key y' = conn_addr_key y"
    and "client_ok st y'"
  shows "tracker_inv (store_client st c y')"
proof -
  have "files_inv st" using assms(1) by (simp add: tracker_inv_def)
  then have "files_inv (store_client st c y')" by (rule files_inv_frame) (simp_all add: store_client_def)
  then show ?thesis
    using clients_inv_upd [OF _ assms(2-4)] assms(1) by (simp add: tracker_inv_def)
qed

lemma peers_ok_upd:
  assumes "peers_ok st" and "client_mem st c = Some y"
    and "listen_addr_key y' = listen_addr_key y" and "shared y' = shared y"
  shows "peers_ok (store_client st c y')"
proof -
  have "peers (store_client st c y') = peers st" by (rule peers_frame) (simp add: store_client_def)
  then show ?thesis
    using assms by (fastforce simp: peers_ok_def store_client_def)
qed

lemma tracker_inv_client: "tracker_inv st \<Longrightarrow> client_mem st c = Some y \<Longrightarrow> client_ok st y"
  by (auto simp: tracker_inv_def clients_inv_def)

lemma client_ok_ref [simp]:
  "client_ok st (y\<lparr>ref_count := n\<rparr>) = client_ok st y" "client_ok st (y\<lparr>can_rehear := b\<rparr>) = client_ok st y"
  "shared (y\<lparr>ref_count := n\<rparr>) = shared y" "shared (y\<lparr>can_rehear := b\<rparr>) = shared y"
  by (simp_all add: client_ok_def shared_def)

lemma client_inc_ref_spec:
  assumes "tracker_inv st" and "client_mem st c = Some y"
  shows "\<exists>st'. client_inc_ref st (Some c) = Inr st' \<and> tracker_inv st' \<and> same_files st st' \<and> sent st' = sent st \<and>
    client_mem st' = (client_mem st)(c \<mapsto> y\<lparr>ref_count := ref_count y + 1\<rparr>) \<and> peers st' = peers st"
proof -
  let ?st = "store_client st c (y\<lparr>ref_count := ref_count y + 1\<rparr>)"
  have "peers ?st = peers st" by (rule peers_frame) (simp add: store_client_def)
  then show ?thesis
    using tracker_inv_upd [OF assms, of "y\<lparr>ref_count := ref_count y + 1\<rparr>"] tracker_inv_client [OF assms] assms(2)
    by (auto simp: client_inc_ref_def same_files_def store_client_def)
qed

lemma client_dec_ref_spec:
  assumes inv: "tracker_inv st" and y: "client_mem st c = Some y"
  shows "\<exists>st'. client_dec_ref st (Some c) = Inr st' \<and> tracker_inv st' \<and> same_files st st' \<and> sent st' = sent st \<and>
    client_mem st' = (client_mem st)(c := if 1 < ref_count y then Some (y\<lparr>ref_count := ref_count y - 1\<rparr>) else None) \<and>
    peers st' = (if 1 < ref_count y then peers st else forget (listen_addr_key y) (shared y) (peers st))"
proof -
  let ?y = "y\<lparr>ref_count := ref_count y - 1\<rparr>"
  let ?st = "store_client st c ?y"
  have p: "peers ?st = peers st" by (rule peers_frame) (simp add: store_client_def)
  have inv1: "tracker_inv ?st" and y1: "client_mem ?st c = Some ?y"
    using tracker_inv_upd [OF assms, of ?y] tracker_inv_client [OF assms] by (auto simp: store_client_def)
  show ?thesis
  proof (cases "1 < ref_count y")
    case True
    then show ?thesis
      using inv1 y p by (auto simp: client_dec_ref_def Let_def same_files_def) (simp_all add: store_client_def)
  next
    case False
    obtain st' where "delete_client ?st c = Inr st'" "tracker_inv st'" "client_mem st' = (client_mem ?st)(c := None)"
      "same_files ?st st'" "sent st' = sent ?st" "peers st' = forget (listen_addr_key ?y) (shared ?y) (peers ?st)"
      using delete_client_spec [OF inv1 y1] by blast
    then show ?thesis
      using False y p by (simp add: client_dec_ref_def Let_def) (simp add: store_client_def same_files_def)
  qed
qed

lemma client_dec_ref_peers_ok:
  assumes "tracker_inv st" and "client_mem st c = Some y" and "peers_ok st" and "client_dec_ref st (Some c) = Inr st'"
  shows "peers_ok st'"
proof (cases "1 < ref_count y")
  case True
  have "peers_ok (store_client st c (y\<lparr>ref_count := ref_count y - 1\<rparr>))"
    by (rule peers_ok_upd [OF assms(3,2)]) simp_all
  moreover have "st' = store_client st c (y\<lparr>ref_count := ref_count y - 1\<rparr>)"
    using assms(2,4) True by (simp add: client_dec_ref_def Let_def)
  ultimately show ?thesis by simp
next
  case False
  with client_dec_ref_spec [OF assms(1,2)] assms(4)
  have "client_mem st' = (client_mem st)(c := None)" "peers st' = forget (listen_addr_key y) (shared y) (peers st)"
    by auto
  then show ?thesis by (rule delete_client_peers_ok [OF assms(3,2)])
qed

lemma client_set_listening_port_spec:
  assumes "tracker_inv st" and y: "client_mem st c = Some y"
  shows "\<exists>st' y'. client_set_listening_port st c port = Inr st' \<and> tracker_inv st' \<and> same_files st st' \<and>
    st' = store_client st c y' \<and> peers st' = peers st \<and>
    y' = y\<lparr>listening_port := port, listen_addr_key := Some (listen_key (addr y) port)\<rparr>"
proof -
  let ?y = "y\<lparr>listening_port := port, listen_addr_key := Some (listen_key (addr y) port)\<rparr>"
  have "client_ok st ?y"
    using tracker_inv_client [OF assms] by (simp add: client_ok_def shared_def)
  then have "tracker_inv (store_client st c ?y)" by (intro tracker_inv_upd [OF assms]) simp_all
  moreover have "peers (store_client st c ?y) = peers st" by (rule peers_frame) (simp add: store_client_def)
  ultimately show ?thesis
    using y by (auto simp: client_set_listening_port_def same_files_def store_client_def)
qed

text \<open>The state after the first connection.\<close>

lemma first_client:
  "\<exists>c st y. client_get_or_create tracker_init (Some ad) sock = Inr (Some c, st) \<and> tracker_inv st \<and> peers_ok st \<and>
    client_mem st c = Some y \<and> addr y = ad \<and> socket y = sock \<and> listen_addr_key y = None \<and> ref_count y = 0 \<and>
    files st = Map.empty \<and> sent st = []"
proof -
  have init: "client_mem tracker_init = Map.empty" "files tracker_init = Map.empty" "sent tracker_init = []"
    by (simp_all add: tracker_init_def)
  from client_get_or_create_spec [OF tracker_inv_init(1), of ad sock] obtain c st y where
    s: "client_get_or_create tracker_init (Some ad) sock = Inr (Some c, st)" "tracker_inv st"
      "client_mem st = (client_mem tracker_init)(c \<mapsto> y)" "addr y = ad" "files st = files tracker_init"
      "sent st = sent tracker_init" "client_mem tracker_init c = None \<and> listen_addr_key y = None \<and> socket y = sock \<and> ref_count y = 0"
    using init by auto
  have "peers_ok st" using s(5) init by (simp add: peers_ok_def peers_def)
  with s init show ?thesis by auto
qed

section \<open>Properties\<close>

text \<open>
  A connection gets a client of its own: \<open>client_get_or_create\<close> enters it under the peer's
  printed address, a second call for the same peer returns the same client, and no other client
  changes.
\<close>

theorem client_get_or_create_unique:
  assumes "tracker_inv st"
  shows "\<exists>c st'. client_get_or_create st (Some ad) sock = Inr (Some c, st') \<and> tracker_inv st' \<and>
    client_get st' (sockaddr_stringify ad) = Some c \<and>
    client_get_or_create st' (Some ad) sock' = Inr (Some c, st') \<and>
    (\<forall>d. d \<noteq> c \<longrightarrow> client_mem st' d = client_mem st d)"
proof -
  obtain c st' y where s: "client_get_or_create st (Some ad) sock = Inr (Some c, st')" "tracker_inv st'"
      "client_mem st' = (client_mem st)(c \<mapsto> y)" "addr y = ad"
    using client_get_or_create_spec [OF assms, of ad sock] by blast
  have ok: "client_ok st' y" by (rule tracker_inv_client [OF s(2), of c]) (simp add: s(3))
  then have key: "conn_addr_key y = sockaddr_stringify ad" using s(4) by (simp add: client_ok_def)
  have ci: "clients_inv st'" using s(2) by (simp add: tracker_inv_def)
  have g: "client_get st' (sockaddr_stringify ad) = Some c"
    using client_get_Some [OF ci] s(3) key by auto
  then have "ht_get_entry (clients st') (sockaddr_stringify ad) = (0, Some c)"
    using ci by (auto simp: client_get_def clients_inv_def ht_get_map split: prod.splits option.splits if_splits)
  then have "client_get_or_create st' (Some ad) sock' = Inr (Some c, st')"
    by (simp add: client_get_or_create_def)
  with s g show ?thesis by auto
qed


lemma client_get_or_create_unique_witness:
  "\<exists>c st'. client_get_or_create tracker_init (Some \<lparr>s_addr = 0x0100007F, sin_port = 0x401F\<rparr>) 4 = Inr (Some c, st') \<and>
    tracker_inv st' \<and> client_get st' (sockaddr_stringify \<lparr>s_addr = 0x0100007F, sin_port = 0x401F\<rparr>) = Some c \<and>
    client_get_or_create st' (Some \<lparr>s_addr = 0x0100007F, sin_port = 0x401F\<rparr>) 5 = Inr (Some c, st') \<and>
    (\<forall>d. d \<noteq> c \<longrightarrow> client_mem st' d = client_mem tracker_init d)"
  by (rule client_get_or_create_unique) (rule tracker_inv_init)


end
