(* ===== verification/String2.thy ===== *)
theory String2
  imports CList Libc
begin

text \<open>
  \<open>cutil/string2.c\<close>: formatting into a fresh buffer, stripping and replacing characters,
  and the two splitters. The splitters collect the pieces in a list by prepending and copy it
  back to front into an array.
\<close>

section \<open>Operations\<close>

text \<open>\<open>vsnprintf\<close> into \<open>bufsize\<close> bytes keeps \<open>bufsize - 1\<close> of them and returns the full length.\<close>

definition vsnprintf :: "nat \<Rightarrow> string \<Rightarrow> nat \<times> string" where
  "vsnprintf bufsize out = (length out, take (bufsize - 1) out)"

text \<open>\<open>asprintf\<close>: \<open>out\<close> is the text the format and its arguments stand for.\<close>

definition asprintf :: "string \<Rightarrow> nat \<times> string" where
  "asprintf out =
     (let (n, buf) = vsnprintf 64 out
      in if 64 \<le> n then (let (_, buf') = vsnprintf (n + 1) out in (n, buf')) else (n, buf))"

definition strdup2 :: "string \<Rightarrow> string" where
  "strdup2 s = s"

fun character_is_in_string :: "char \<Rightarrow> string \<Rightarrow> bool" where
  "character_is_in_string c [] = False"
| "character_is_in_string c (d # ds) = (if c = d then True else character_is_in_string c ds)"

text \<open>\<open>strstripc\<close> reads \<open>str[l - 1]\<close> also when the string is empty.\<close>

definition strstripc :: "string \<Rightarrow> char \<Rightarrow> string result" where
  "strstripc str c =
     (if str = [] then Inl Out_Of_Bounds
      else Inr (if last str = c then butlast str else str))"

definition strstrip :: "string \<Rightarrow> string result" where
  "strstrip str = strstripc str (CHR 0x0A)"

text \<open>
  \<open>str_replace_char\<close> replaces in the whole buffer; read as a C string the result ends at the
  first NUL.
\<close>

definition c_string :: "string \<Rightarrow> string" where
  "c_string buf = takeWhile (\<lambda>c. c \<noteq> CHR 0x00) buf"

definition str_replace_char :: "string \<Rightarrow> char \<Rightarrow> char \<Rightarrow> string" where
  "str_replace_char str from to = c_string (map (\<lambda>c. if c = from then to else c) str)"

text \<open>The array both splitters return: \<open>buf[s - i] = list_get(li, i)\<close> for \<open>i\<close> from 1 to \<open>s\<close>.\<close>

definition split_array :: "string clist \<Rightarrow> string list result" where
  "split_array li =
     (let s = list_size li
      in rbind (list_iter list_get (\<lambda>x (i, buf). Inr (Suc i, buf[s - i := x])) 1 s li (1, replicate s None))
           (\<lambda>(li', _, buf). rbind (list_free_call li')
           (\<lambda>_. if None \<in> set buf then Inl Uninitialised else Inr (map the buf))))"

function split_loop :: "string \<Rightarrow> string \<Rightarrow> string clist \<Rightarrow> string clist result" where
  "split_loop delim s li =
     (case strtok_r delim s of
        None \<Rightarrow> Inr li
      | Some (p, saveptr) \<Rightarrow> rbind (list_add li p) (split_loop delim saveptr))"
  by pat_completeness auto
termination
  by (relation "measure (\<lambda>(delim, s, li). length s)") (auto dest: strtok_r_shorter)

declare split_loop.simps [simp del]

definition string_split :: "string option \<Rightarrow> string \<Rightarrow> string list result" where
  "string_split str delim =
     (case str of
        None \<Rightarrow> Inr []
      | Some s \<Rightarrow> rbind (split_loop delim s (list_new False)) split_array)"

partial_function (option) split2_loop ::
  "string \<Rightarrow> string \<Rightarrow> string clist \<Rightarrow> string clist result option" where
  "split2_loop delim s li =
     (case strstr s delim of
        None \<Rightarrow> Some (list_add li s)
      | Some n \<Rightarrow>
          (case list_add li (take n s) of
             Inl e \<Rightarrow> Some (Inl e)
           | Inr li' \<Rightarrow> split2_loop delim (drop (n + length delim) s) li'))"

definition string_split2 :: "string option \<Rightarrow> string \<Rightarrow> string list result" where
  "string_split2 str delim =
     (case str of
        None \<Rightarrow> Inr []
      | Some s \<Rightarrow>
          (case split2_loop delim s (list_new False) of
             None \<Rightarrow> Inl Diverges
           | Some r \<Rightarrow> rbind r split_array))"

definition string_have_extension :: "string \<Rightarrow> string \<Rightarrow> bool" where
  "string_have_extension filename extension =
     (let l = length filename; e = length extension
      in if l < e then False else extension = drop (l - e) filename)"

section \<open>What they compute\<close>

lemma asprintf_eq [simp]: "asprintf out = (length out, out)"
  by (simp add: asprintf_def vsnprintf_def)

lemma character_is_in_string_iff: "character_is_in_string c s \<longleftrightarrow> c \<in> set s"
  by (induction s) auto

lemma strstripc_append: "strstripc (s @ [c]) c = Inr s"
  by (simp add: strstripc_def)

lemma string_have_extension_suffix: "string_have_extension f e \<longleftrightarrow> suffix e f"
  by (auto simp: string_have_extension_def Let_def suffix_def) (metis append_take_drop_id)

lemma str_replace_char_nul: "str_replace_char s c (CHR 0x00) = takeWhile (\<lambda>d. d \<noteq> c) (c_string s)"
  unfolding str_replace_char_def c_string_def by (induction s) auto

subsection \<open>The array is the list, reversed\<close>

lemma fold_array:
  "fold (\<lambda>x (i, buf). (Suc i, buf[length xs + k - i := x])) xs (Suc k, replicate (length xs) d @ ys) =
     (Suc (length xs + k), rev xs @ ys)"
proof (induction xs arbitrary: k ys rule: list.induct)
  case Nil
  then show ?case by simp
next
  case (Cons x xs)
  have "(replicate (length (x # xs)) d @ ys)[length xs := x] = replicate (length xs) d @ x # ys"
    by (simp add: list_update_append replicate_append_same [symmetric] del: replicate_append_same)
  then show ?case using Cons [of "Suc k" "x # ys"] by simp
qed

lemma split_array_rel:
  assumes "list_rel li xs"
  shows "split_array li = Inr (rev xs)"
proof -
  let ?g = "\<lambda>x (i, buf). (Suc i, buf[list_size li - i := x])"
  obtain li' where li': "list_rel li' xs" and
    it: "list_iter list_get (\<lambda>x s. Inr (?g x s)) 1 (list_size li) li (1, replicate (list_size li) None) =
      Inr (li', fold ?g (map Some xs) (1, replicate (list_size li) None))"
    using li.iter_all_total [OF assms, of ?g "(1, replicate (list_size li) None)"] by blast
  have "fold ?g (map Some xs) (1, replicate (list_size li) None) = (Suc (length xs), rev (map Some xs))"
    using fold_array [of "map Some xs" 0 None "[]"] by (simp add: list_size_rel [OF assms])
  moreover have "None \<notin> set (rev (map Some xs))" by auto
  ultimately show ?thesis
    using it list_free_call_rel [OF li']
    by (simp add: split_array_def case_prod_beta' rev_map comp_def)
qed

subsection \<open>string_split\<close>

text \<open>The fields of a string between delimiter bytes; the tokens are the nonempty ones.\<close>

fun fields :: "(char \<Rightarrow> bool) \<Rightarrow> string \<Rightarrow> string list" where
  "fields P [] = [[]]"
| "fields P (c # cs) =
     (if P c then [] # fields P cs
      else (case fields P cs of [] \<Rightarrow> [[c]] | f # fs \<Rightarrow> (c # f) # fs))"

definition tokens :: "string \<Rightarrow> string \<Rightarrow> string list" where
  "tokens delim s = filter (\<lambda>t. t \<noteq> []) (fields (\<lambda>c. c \<in> set delim) s)"

lemma fields_nonempty [simp]: "fields P s \<noteq> []"
  by (induction s) (auto split: list.splits)

lemma fields_split:
  "fields P s = takeWhile (\<lambda>c. \<not> P c) s #
     (case dropWhile (\<lambda>c. \<not> P c) s of [] \<Rightarrow> [] | _ # r \<Rightarrow> fields P r)"
  by (induction s) (auto split: list.splits)

lemma tokens_dropWhile: "tokens delim s = tokens delim (dropWhile (\<lambda>c. c \<in> set delim) s)"
  by (induction s) (auto simp: tokens_def)

lemma tokens_strtok_r:
  "tokens delim s = (case strtok_r delim s of None \<Rightarrow> [] | Some (p, r) \<Rightarrow> p # tokens delim r)"
proof -
  define s1 where "s1 = dropWhile (\<lambda>c. c \<in> set delim) s"
  have t: "tokens delim s = tokens delim s1"
    unfolding s1_def by (rule tokens_dropWhile)
  show ?thesis
  proof (cases s1)
    case Nil
    then show ?thesis using t by (simp add: strtok_r_def s1_def [symmetric] tokens_def)
  next
    case (Cons c cs)
    then have c: "c \<notin> set delim"
      using hd_dropWhile [of "\<lambda>c. c \<in> set delim" s] by (simp add: s1_def [symmetric])
    then have ne: "takeWhile (\<lambda>c. c \<notin> set delim) s1 \<noteq> []" using Cons by simp
    have st: "strtok_r delim s =
        Some (takeWhile (\<lambda>c. c \<notin> set delim) s1, drop 1 (dropWhile (\<lambda>c. c \<notin> set delim) s1))"
      using Cons by (simp add: strtok_r_def s1_def [symmetric])
    have "tokens delim s1 = takeWhile (\<lambda>c. c \<notin> set delim) s1 #
        tokens delim (drop 1 (dropWhile (\<lambda>c. c \<notin> set delim) s1))"
    proof -
      define dw where "dw = dropWhile (\<lambda>c. c \<notin> set delim) s1"
      show ?thesis
        using ne unfolding tokens_def fields_split [of _ s1] dw_def [symmetric]
        by (cases dw) simp_all
    qed
    with t st show ?thesis by simp
  qed
qed

lemma split_loop_rel:
  "list_rel li xs \<Longrightarrow> \<exists>li'. split_loop delim s li = Inr li' \<and> list_rel li' (rev (tokens delim s) @ xs)"
proof (induction delim s li arbitrary: xs rule: split_loop.induct)
  case (1 delim s li)
  show ?case
  proof (cases "strtok_r delim s")
    case None
    with 1 show ?thesis
      by (subst split_loop.simps) (simp add: tokens_strtok_r [of delim s])
  next
    case (Some pr)
    obtain p r where pr: "pr = (p, r)" by fastforce
    obtain li1 where add: "list_add li p = Inr li1" and "list_rel li1 (p # xs)"
      using list_add_rel [OF "1.prems"] by blast
    then obtain li' where "split_loop delim r li1 = Inr li'" and "list_rel li' (rev (tokens delim r) @ p # xs)"
      using "1.IH" [OF Some pr [symmetric] add] by blast
    then show ?thesis
      using Some pr add by (subst split_loop.simps) (simp add: tokens_strtok_r [of delim s])
  qed
qed

lemma string_split_tokens: "string_split (Some s) delim = Inr (tokens delim s)"
proof -
  obtain li where "split_loop delim s (list_new False) = Inr li" and "list_rel li (rev (tokens delim s))"
    using split_loop_rel [OF list_new_rel, of delim s False] by auto
  then show ?thesis by (simp add: string_split_def split_array_rel)
qed

text \<open>Joining tokens with a delimiter byte and splitting again.\<close>

fun join :: "string \<Rightarrow> string list \<Rightarrow> string" where
  "join d [] = []"
| "join d [x] = x"
| "join d (x # y # ys) = x @ d @ join d (y # ys)"

definition is_token :: "string \<Rightarrow> string \<Rightarrow> bool" where
  "is_token delim t \<longleftrightarrow> t \<noteq> [] \<and> set t \<inter> set delim = {}"

lemma fields_append_delim:
  "\<forall>c \<in> set t. \<not> P c \<Longrightarrow> P d \<Longrightarrow> fields P (t @ d # s) = t # fields P s"
  by (induction t) auto

lemma fields_no_delim: "\<forall>c \<in> set t. \<not> P c \<Longrightarrow> fields P t = [t]"
  by (induction t) auto

lemma tokens_join:
  "list_all (is_token [d]) ts \<Longrightarrow> tokens [d] (join [d] ts) = ts"
proof (induction "[d]" ts rule: join.induct)
  case 1
  then show ?case by (simp add: tokens_def)
next
  case (2 x)
  then have "\<forall>c \<in> set x. \<not> (c \<in> set [d])" by (auto simp: is_token_def)
  with 2 show ?case by (simp only: tokens_def join.simps fields_no_delim) (simp add: is_token_def)
next
  case (3 x y ys)
  then have "\<forall>c \<in> set x. \<not> (c \<in> set [d])" by (auto simp: is_token_def)
  then have "fields (\<lambda>c. c \<in> set [d]) (x @ d # join [d] (y # ys)) = x # fields (\<lambda>c. c \<in> set [d]) (join [d] (y # ys))"
    by (intro fields_append_delim) auto
  with 3 show ?case by (simp add: tokens_def is_token_def)
qed

lemma tokens_are_tokens: "list_all (is_token delim) (tokens delim s)"
proof -
  have "\<forall>f \<in> set (fields P s). \<forall>c \<in> set f. \<not> P c" for P
    by (induction s) (auto split: list.splits)
  from this [of "\<lambda>c. c \<in> set delim"] show ?thesis
    by (auto simp: tokens_def is_token_def list_all_iff)
qed

subsection \<open>string_split2\<close>

text \<open>The pieces of a string between the successive leftmost occurrences of a word.\<close>

function pieces :: "string \<Rightarrow> string \<Rightarrow> string list" where
  "pieces d s =
     (if d = [] then [s]
      else (case strstr s d of
              None \<Rightarrow> [s]
            | Some n \<Rightarrow> take n s # pieces d (drop (n + length d) s)))"
  by pat_completeness auto
termination
proof (relation "measure (\<lambda>(d, s). length s)")
  fix d s :: string and n
  assume "d \<noteq> []" and "strstr s d = Some n"
  with strstr_Some [of s d n] show "((d, drop (n + length d) s), d, s) \<in> measure (\<lambda>(d, s). length s)"
    by (cases d) auto
qed simp

declare pieces.simps [simp del]

lemma pieces_nonempty: "pieces d s \<noteq> []"
  by (subst pieces.simps) (simp split: option.splits)

lemma split2_loop_rel:
  "d \<noteq> [] \<Longrightarrow> list_rel li xs \<Longrightarrow>
   \<exists>li'. split2_loop d s li = Some (Inr li') \<and> list_rel li' (rev (pieces d s) @ xs)"
proof (induction d s arbitrary: li xs rule: pieces.induct)
  case (1 d s)
  show ?case
  proof (cases "strstr s d")
    case None
    with 1(2) list_add_rel [OF 1(3), of s] show ?thesis
      by (subst split2_loop.simps) (auto simp: pieces.simps [of d s])
  next
    case (Some n)
    obtain li1 where add: "list_add li (take n s) = Inr li1" and r: "list_rel li1 (take n s # xs)"
      using list_add_rel [OF 1(3)] by blast
    obtain li' where "split2_loop d (drop (n + length d) s) li1 = Some (Inr li')"
      and "list_rel li' (rev (pieces d (drop (n + length d) s)) @ take n s # xs)"
      using "1.IH" [OF 1(2) Some 1(2) r] by blast
    then show ?thesis
      using Some add 1(2) by (subst split2_loop.simps) (simp add: pieces.simps [of d s])
  qed
qed

lemma string_split2_pieces: "d \<noteq> [] \<Longrightarrow> string_split2 (Some s) d = Inr (pieces d s)"
proof -
  assume "d \<noteq> []"
  then obtain li where "split2_loop d s (list_new False) = Some (Inr li)" and "list_rel li (rev (pieces d s))"
    using split2_loop_rel [of d "list_new False" "[]" s, OF _ list_new_rel] by auto
  then show ?thesis by (simp add: string_split2_def split_array_rel)
qed

lemma join_pieces: "d \<noteq> [] \<Longrightarrow> join d (pieces d s) = s"
proof (induction d s rule: pieces.induct)
  case (1 d s)
  show ?case
  proof (cases "strstr s d")
    case None
    with 1 show ?thesis by (simp add: pieces.simps [of d s])
  next
    case (Some n)
    let ?r = "drop (n + length d) s"
    obtain y ys where y: "pieces d ?r = y # ys"
      using pieces_nonempty [of d ?r] by (cases "pieces d ?r") auto
    have "join d (pieces d s) = take n s @ d @ join d (pieces d ?r)"
      using Some 1(2) y by (simp add: pieces.simps [of d s])
    also have "\<dots> = s"
      using 1 Some strstr_Some [OF Some] by simp
    finally show ?thesis .
  qed
qed

lemma strstr_take_None:
  assumes "strstr s d = Some n" and "d \<noteq> []"
  shows "strstr (take n s) d = None"
proof (rule ccontr)
  assume "strstr (take n s) d \<noteq> None"
  then obtain m where "strstr (take n s) d = Some m" by auto
  from strstr_Some [OF this] have m: "take n s = take m (take n s) @ d @ drop (m + length d) (take n s)"
    and le: "m + length d \<le> length (take n s)" by auto
  have "take (length d) (drop m (take n s)) = d"
    by (subst m) (use le in simp)
  then have "take (length d) (drop m s) = d"
    using le by (simp add: drop_take min_def split: if_splits)
  moreover have "m < n" using le assms(2) by (cases d) auto
  ultimately show False using strstr_first [OF assms(1)] by blast
qed

lemma pieces_free: "d \<noteq> [] \<Longrightarrow> p \<in> set (pieces d s) \<Longrightarrow> \<not> sublist d p"
proof (induction d s rule: pieces.induct)
  case (1 d s)
  then show ?case
    using strstr_take_None [of s d] strstr_None_iff
    by (auto simp: pieces.simps [of d s] split: option.splits)
qed

section \<open>Properties\<close>

text \<open>
  Splitting what was joined with a delimiter byte gives the words back, for non-empty words
  without the delimiter; and \<open>string_split\<close> returns such words for every input.
\<close>

theorem string_split_roundtrip:
  assumes "list_all (is_token [d]) ts"
  shows "string_split (Some (join [d] ts)) [d] = Inr ts \<and>
    (\<forall>s. \<exists>us. string_split (Some s) [d] = Inr us \<and> list_all (is_token [d]) us)"
  by (simp add: string_split_tokens tokens_join [OF assms] tokens_are_tokens)

lemma string_split_roundtrip_witness:
  "string_split (Some ''file.dat 2097152 1024 8905e92a'') '' '' = Inr [''file.dat'', ''2097152'', ''1024'', ''8905e92a''] \<and>
    (\<forall>s. \<exists>us. string_split (Some s) '' '' = Inr us \<and> list_all (is_token '' '') us)"
  using string_split_roundtrip [of "CHR '' ''" "[''file.dat'', ''2097152'', ''1024'', ''8905e92a'']"]
  by (simp add: is_token_def)

text \<open>
  C25: \<open>string_split2\<close> returns for every string and every non-empty delimiter word: the pieces
  joined again give the string, and no piece contains the delimiter.
\<close>

theorem string_split2_roundtrip:
  assumes "d \<noteq> []"
  shows "\<exists>ps. string_split2 (Some s) d = Inr ps \<and> ps \<noteq> [] \<and> join d ps = s \<and> (\<forall>p \<in> set ps. \<not> sublist d p)"
  using string_split2_pieces [OF assms] join_pieces [OF assms] pieces_free [OF assms] by (auto simp: pieces_nonempty)

lemma string_split2_roundtrip_witness:
  "\<exists>ps. string_split2 (Some ''size>=10'') ''>='' = Inr ps \<and> ps \<noteq> [] \<and> join ''>='' ps = ''size>=10'' \<and>
     (\<forall>p \<in> set ps. \<not> sublist ''>='' p)"
  by (rule string_split2_roundtrip) simp

end
