(* ===== verification/Regex.thy ===== *)
theory Regex
  imports Libc
begin

text \<open>
  \<open>regex_exec\<close> of \<open>tracker/util.c\<close> on the extended regular expressions the program uses:
  sequences of one-character atoms with repetition bounds, some of them captured. Matching is
  case insensitive (\<open>REG_ICASE\<close>) and unanchored. The matcher tries starts from left to right
  and, at a start, longer repetitions before shorter ones from the first item to the last; the
  lemmas below give the POSIX reading of what it returns.
\<close>

section \<open>Patterns\<close>

datatype re_atom = Lit char | AnyChar | Digit

text \<open>\<open>Rep cap a lo hi\<close>: the atom \<open>a\<close>, \<open>lo\<close> to \<open>hi\<close> times, captured if \<open>cap\<close>.\<close>

datatype re_item = Rep bool re_atom nat "nat option"

definition to_lower :: "char \<Rightarrow> char" where
  "to_lower c = (let n = (of_char c :: nat) in if 65 \<le> n \<and> n \<le> 90 then char_of (n + 32) else c)"

fun atom_matches :: "re_atom \<Rightarrow> char \<Rightarrow> bool" where
  "atom_matches (Lit c) d = (to_lower c = to_lower d)"
| "atom_matches AnyChar d = True"
| "atom_matches Digit d = c_isdigit d"

definition lits :: "string \<Rightarrow> re_item list" where
  "lits s = map (\<lambda>c. Rep False (Lit c) 1 (Some 1)) s"

section \<open>Matching\<close>

primrec first_some :: "('a \<Rightarrow> 'b option) \<Rightarrow> 'a list \<Rightarrow> 'b option" where
  "first_some f [] = None"
| "first_some f (x # xs) = (case f x of None \<Rightarrow> first_some f xs | Some y \<Rightarrow> Some y)"

text \<open>How often an atom can repeat at the start of a string.\<close>

definition run_length :: "re_atom \<Rightarrow> nat option \<Rightarrow> string \<Rightarrow> nat" where
  "run_length a hi s =
     (let n = length (takeWhile (atom_matches a) s)
      in case hi of None \<Rightarrow> n | Some m \<Rightarrow> min m n)"

text \<open>
  A match at the start of \<open>s\<close>, which stands at offset \<open>pos\<close>: the offset of its end and the
  offsets of the captured items.
\<close>

primrec re_here :: "re_item list \<Rightarrow> string \<Rightarrow> nat \<Rightarrow> (nat \<times> (nat \<times> nat) list) option" where
  "re_here [] = (\<lambda>s pos. Some (pos, []))"
| "re_here (i # is) =
     (\<lambda>s pos. case i of Rep cap a lo hi \<Rightarrow>
        first_some
          (\<lambda>k. map_option (\<lambda>(e, caps). (e, if cap then (pos, pos + k) # caps else caps))
                 (re_here is (drop k s) (pos + k)))
          (rev [lo..<Suc (run_length a hi s)]))"

text \<open>
  \<open>regex_exec(regexp, str, nmatch, pmatch)\<close>: \<open>None\<close> for -1, otherwise the array \<open>pmatch\<close>
  with the whole match first.
\<close>

definition regex_exec :: "re_item list \<Rightarrow> string \<Rightarrow> (nat \<times> nat) list option" where
  "regex_exec regexp str =
     first_some (\<lambda>i. map_option (\<lambda>(e, caps). (i, e) # caps) (re_here regexp (drop i str) i))
       [0..<Suc (length str)]"

section \<open>Facts\<close>

lemma first_some_None: "first_some f xs = None \<longleftrightarrow> (\<forall>x \<in> set xs. f x = None)"
  by (induction xs) (auto split: option.splits)

lemma first_some_SomeD: "first_some f xs = Some y \<Longrightarrow> \<exists>us x vs. xs = us @ x # vs \<and> f x = Some y \<and> (\<forall>u \<in> set us. f u = None)"
proof (induction xs)
  case Nil
  then show ?case by simp
next
  case (Cons x xs)
  show ?case
  proof (cases "f x")
    case None
    then obtain us z vs where "xs = us @ z # vs" "f z = Some y" "\<forall>u \<in> set us. f u = None"
      using Cons by auto
    then have "x # xs = (x # us) @ z # vs \<and> f z = Some y \<and> (\<forall>u \<in> set (x # us). f u = None)"
      using None by simp
    then show ?thesis by blast
  next
    case (Some z)
    then have "x # xs = [] @ x # xs \<and> f x = Some y \<and> (\<forall>u \<in> set []. f u = None)"
      using Cons.prems by simp
    then show ?thesis by blast
  qed
qed

text \<open>Searching from the top finds the greatest success, searching from the bottom the least.\<close>

lemma first_some_greatest:
  assumes "f k = Some y" and "lo \<le> k" and "k \<le> n" and "\<And>j. k < j \<Longrightarrow> j \<le> n \<Longrightarrow> f j = None"
  shows "first_some f (rev [lo..<Suc n]) = Some y"
  using assms
proof (induction n)
  case 0
  then show ?case by simp
next
  case (Suc n)
  show ?case
  proof (cases "k = Suc n")
    case True
    with Suc.prems show ?thesis by simp
  next
    case False
    with Suc.prems have f: "f (Suc n) = None" and ih: "first_some f (rev [lo..<Suc n]) = Some y"
      by (auto intro!: Suc.IH simp del: upt_Suc)
    have "rev [lo..<Suc (Suc n)] = Suc n # rev [lo..<Suc n]"
      using Suc.prems(2) False Suc.prems(3) by (simp del: upt_Suc add: upt_Suc_append)
    with f ih show ?thesis by (simp del: upt_Suc)
  qed
qed

lemma first_some_least:
  assumes "f k = Some y" and "k < n" and "\<And>j. j < k \<Longrightarrow> f j = None"
  shows "first_some f [0..<n] = Some y"
proof -
  have "[0..<n] = [0..<k] @ k # [Suc k..<n]"
    using assms(2) by (metis less_imp_add_positive upt_add_eq_append upt_conv_Cons zero_le)
  moreover have "first_some f (us @ k # vs) = Some y" if "\<forall>u \<in> set us. f u = None" for us vs
    using that assms(1) by (induction us) auto
  ultimately show ?thesis using assms(3) by simp
qed

lemma first_some_singleton_upt: "first_some f (rev [lo..<Suc n]) = None" if "n < lo"
  using that by simp

definition prefix_ci :: "string \<Rightarrow> string \<Rightarrow> bool" where
  "prefix_ci w s \<longleftrightarrow> length w \<le> length s \<and> list_all2 (\<lambda>c d. to_lower c = to_lower d) w (take (length w) s)"

lemma re_here_lit:
  "re_here (Rep False (Lit c) 1 (Some 1) # is) s pos =
     (case s of [] \<Rightarrow> None
      | d # ds \<Rightarrow> if to_lower c = to_lower d then re_here is ds (pos + 1) else None)"
  by (auto simp: run_length_def option.map_comp comp_def split: list.splits option.splits)

lemma re_here_lits:
  "re_here (lits w @ is) s pos =
     (if prefix_ci w s then re_here is (drop (length w) s) (pos + length w) else None)"
proof (induction w arbitrary: s pos)
  case Nil
  then show ?case by (simp add: lits_def prefix_ci_def)
next
  case (Cons c w)
  have "re_here (lits (c # w) @ is) s pos =
     (case s of [] \<Rightarrow> None
      | d # ds \<Rightarrow> if to_lower c = to_lower d then re_here (lits w @ is) ds (pos + 1) else None)"
    using re_here_lit [of c "lits w @ is" s pos] by (simp add: lits_def)
  then show ?case
    using Cons by (cases s) (auto simp: prefix_ci_def)
qed

lemma prefix_ci_self [simp]: "prefix_ci w (w @ s)"
  by (simp add: prefix_ci_def list_all2_same)

lemma prefix_ci_nth: "prefix_ci w s \<Longrightarrow> i < length w \<Longrightarrow> to_lower (s ! i) = to_lower (w ! i)"
  by (auto simp: prefix_ci_def list_all2_conv_all_nth)

lemma run_length_any: "run_length AnyChar None s = length s"
proof -
  have "takeWhile (atom_matches AnyChar) s = s"
    by (induction s) auto
  then show ?thesis by (simp only: run_length_def Let_def option.case)
qed

section \<open>The patterns of the protocol\<close>

definition announce_re :: "re_item list" where
  "announce_re = lits ''listen '' @ Rep True Digit 1 (Some 5) # lits '' seed ['' @
     Rep True AnyChar 0 None # lits ''] leech ['' @ Rep True AnyChar 0 None # lits '']'' @ []"

definition update_re :: "re_item list" where
  "update_re = lits ''seed ['' @ Rep True AnyChar 0 None # lits ''] leech ['' @
     Rep True AnyChar 0 None # lits '']'' @ [Rep False (Lit (CHR '' '')) 0 None]"

definition look_re :: "re_item list" where
  "look_re = lits ''['' @ Rep True AnyChar 0 None # lits '']'' @ [Rep False (Lit (CHR '' '')) 0 None]"

lemma first_some_in: "first_some f xs = Some y \<Longrightarrow> \<exists>x \<in> set xs. f x = Some y"
  by (induction xs) (auto split: option.splits)

text \<open>The captures of a match lie inside the string.\<close>

definition caps_within :: "nat \<Rightarrow> nat \<Rightarrow> (nat \<times> nat) list \<Rightarrow> bool" where
  "caps_within lo hi caps \<longleftrightarrow> list_all (\<lambda>(a, b). lo \<le> a \<and> a \<le> b \<and> b \<le> hi) caps"

lemma caps_within_mono: "caps_within lo hi caps \<Longrightarrow> lo' \<le> lo \<Longrightarrow> hi \<le> hi' \<Longrightarrow> caps_within lo' hi' caps"
  by (auto simp: caps_within_def list_all_iff)

lemma run_length_le: "run_length a hi s \<le> length s"
  using length_takeWhile_le [of "atom_matches a" s] by (auto simp: run_length_def Let_def split: option.splits)

lemma re_here_within:
  "re_here is s pos = Some (e, caps) \<Longrightarrow> pos \<le> e \<and> e \<le> pos + length s \<and> caps_within pos e caps"
proof (induction "is" arbitrary: s pos e caps)
  case Nil
  then show ?case by (simp add: caps_within_def)
next
  case (Cons i "is")
  obtain cap a lo hi where i: "i = Rep cap a lo hi" by (cases i)
  obtain k caps' where k: "k \<in> set (rev [lo..<Suc (run_length a hi s)])"
    and r: "re_here is (drop k s) (pos + k) = Some (e, caps')"
    and c: "caps = (if cap then (pos, pos + k) # caps' else caps')"
    using Cons.prems by (auto simp: i simp del: upt_Suc dest!: first_some_in)
  have "k \<le> length s" using k run_length_le [of a hi s] by auto
  with Cons.IH [OF r] show ?case
    by (auto simp: c caps_within_def list_all_iff)
qed

lemma regex_exec_within:
  assumes "regex_exec is s = Some pm"
  shows "caps_within 0 (length s) pm"
proof -
  obtain i e caps where "i \<le> length s" and r: "re_here is (drop i s) i = Some (e, caps)" and "pm = (i, e) # caps"
    using assms by (auto simp: regex_exec_def less_Suc_eq_le simp del: upt_Suc dest!: first_some_in)
  with re_here_within [OF r] show ?thesis
    by (auto simp: caps_within_def list_all_iff)
qed

lemma regex_exec_start:
  "re_here is s 0 = Some (e, caps) \<Longrightarrow> regex_exec is s = Some ((0, e) # caps)"
  by (simp add: regex_exec_def upt_conv_Cons del: upt_Suc)

text \<open>A bracket is matched by itself only.\<close>

lemma to_lower_bracket:
  "to_lower c = to_lower (CHR ''['') \<longleftrightarrow> c = CHR ''[''"
  "to_lower c = to_lower (CHR '']'') \<longleftrightarrow> c = CHR '']''"
proof -
  have fix_eq: "to_lower d = d" if "(of_char d :: nat) \<notin> {65..90}" for d
    using that by (auto simp: to_lower_def Let_def)
  have "(of_char (to_lower c) :: nat) \<in> {97..122} \<or> to_lower c = c"
    by (auto simp: to_lower_def Let_def take_bit_eq_mod)
  moreover have "(of_char (CHR ''['') :: nat) = 91" "(of_char (CHR '']'') :: nat) = 93" by simp_all
  ultimately show "to_lower c = to_lower (CHR ''['') \<longleftrightarrow> c = CHR ''[''"
    "to_lower c = to_lower (CHR '']'') \<longleftrightarrow> c = CHR '']''"
    using fix_eq [of "CHR ''[''"] fix_eq [of "CHR '']''"] by auto
qed

lemma re_here_any:
  assumes s: "s = u @ w @ v" and r: "re_here is v (pos + length u + length w) = Some (e, caps)"
    and uniq: "\<And>j. length u < j \<Longrightarrow> j \<le> length s \<Longrightarrow> \<not> prefix_ci w (drop j s)"
  shows "re_here (Rep True AnyChar 0 None # lits w @ is) s pos = Some (e, (pos, pos + length u) # caps)"
proof -
  let ?f = "\<lambda>k. map_option (\<lambda>(e, caps). (e, (pos, pos + k) # caps)) (re_here (lits w @ is) (drop k s) (pos + k))"
  have "first_some ?f (rev [0..<Suc (length s)]) = Some (e, (pos, pos + length u) # caps)"
    by (rule first_some_greatest [where k = "length u"]) (use s r uniq in \<open>auto simp: re_here_lits\<close>)
  then show ?thesis by (simp add: run_length_any del: upt_Suc)
qed

lemma re_here_digits:
  assumes "p \<noteq> []" and "length p \<le> 5" and "\<forall>c \<in> set p. c_isdigit c" and "\<not> c_isdigit d"
    and r: "re_here is (d # v) (pos + length p) = Some (e, caps)"
  shows "re_here (Rep True Digit 1 (Some 5) # is) (p @ d # v) pos = Some (e, (pos, pos + length p) # caps)"
proof -
  let ?f = "\<lambda>k. map_option (\<lambda>(e, caps). (e, (pos, pos + k) # caps)) (re_here is (drop k (p @ d # v)) (pos + k))"
  have "atom_matches Digit = c_isdigit" by (rule ext) simp
  then have "takeWhile (atom_matches Digit) (p @ d # v) = p"
    using assms(3,4) by (simp add: takeWhile_append)
  then have "run_length Digit (Some 5) (p @ d # v) = length p"
    using assms(2) by (simp add: run_length_def)
  moreover have "first_some ?f (rev [1..<Suc (length p)]) = Some (e, (pos, pos + length p) # caps)"
    by (rule first_some_greatest [where k = "length p"]) (use assms(1) r in \<open>auto simp: Suc_le_eq\<close>)
  ultimately show ?thesis by (simp del: upt_Suc)
qed

definition bracket_free :: "string \<Rightarrow> bool" where
  "bracket_free s \<longleftrightarrow> CHR ''['' \<notin> set s \<and> CHR '']'' \<notin> set s"

lemma prefix_ci_drop_nth:
  "prefix_ci w (drop j s) \<Longrightarrow> i < length w \<Longrightarrow> j + i < length s \<and> to_lower (s ! (j + i)) = to_lower (w ! i)"
  using prefix_ci_nth [of w "drop j s" i] by (auto simp: prefix_ci_def)

lemma leech_unique:
  assumes "bracket_free u" and "bracket_free v" and "bracket_free t" and "length u < j"
  shows "\<not> prefix_ci ''] leech ['' (drop j (u @ ''] leech ['' @ v @ '']'' @ t))"
proof
  let ?s = "u @ ''] leech ['' @ v @ '']'' @ t"
  assume "prefix_ci ''] leech ['' (drop j ?s)"
  from prefix_ci_drop_nth [OF this, of 8]
  have l: "j + 8 < length ?s" and "to_lower (?s ! (j + 8)) = to_lower (CHR ''['')" by simp_all
  then have "?s ! (j + 8) = CHR ''[''" by (simp only: to_lower_bracket)
  moreover have "?s ! (j + 8) = (v @ '']'' @ t) ! (j + 8 - (length u + 9))"
    using assms(4) by (simp add: nth_append)
  moreover have "(v @ '']'' @ t) ! (j + 8 - (length u + 9)) \<in> set (v @ '']'' @ t)"
    by (rule nth_mem) (use l assms(4) in simp)
  ultimately show False using assms(2,3) by (auto simp: bracket_free_def)
qed

lemma close_unique:
  assumes "bracket_free t" and "length v < j"
  shows "\<not> prefix_ci '']'' (drop j (v @ '']'' @ t))"
proof
  let ?s = "v @ '']'' @ t"
  assume "prefix_ci '']'' (drop j ?s)"
  from prefix_ci_drop_nth [OF this, of 0]
  have l: "j < length ?s" and "to_lower (?s ! j) = to_lower (CHR '']'')" by simp_all
  then have "?s ! j = CHR '']''" by (simp only: to_lower_bracket)
  moreover have "?s ! j = t ! (j - Suc (length v))"
    using assms(2) by (simp add: nth_append)
  moreover have "t ! (j - Suc (length v)) \<in> set t"
    by (rule nth_mem) (use l assms(2) in simp)
  ultimately show False using assms(1) by (auto simp: bracket_free_def)
qed

lemma re_here_lits_self: "re_here (lits w @ is) (w @ s) pos = re_here is s (pos + length w)"
  by (simp add: re_here_lits)

lemma re_here_seed_leech:
  assumes "bracket_free u" and "bracket_free v" and "bracket_free t"
    and r: "re_here is t (pos + length u + length v + 10) = Some (e, caps)"
  shows "re_here (Rep True AnyChar 0 None # lits ''] leech ['' @ Rep True AnyChar 0 None # lits '']'' @ is)
      (u @ ''] leech ['' @ v @ '']'' @ t) pos =
    Some (e, (pos, pos + length u) # (pos + length u + 9, pos + length u + 9 + length v) # caps)"
proof -
  let ?p = "pos + length u + 9"
  have "re_here (Rep True AnyChar 0 None # lits '']'' @ is) (v @ '']'' @ t) ?p =
      Some (e, (?p, ?p + length v) # caps)"
    by (rule re_here_any [OF refl]) (use close_unique [OF assms(3)] r in \<open>simp_all add: algebra_simps\<close>)
  moreover have "pos + length u + length ''] leech ['' = ?p" by simp
  ultimately have "re_here (Rep True AnyChar 0 None # lits '']'' @ is) (v @ '']'' @ t)
      (pos + length u + length ''] leech ['') = Some (e, (?p, ?p + length v) # caps)"
    by (simp only:)
  then show ?thesis
    by (rule re_here_any [OF refl]) (rule leech_unique [OF assms(1-3)])
qed

declare re_here.simps(2) [simp del]

lemma regex_announce:
  assumes "p \<noteq> []" and "length p \<le> 5" and "\<forall>c \<in> set p. c_isdigit c"
    and "bracket_free u" and "bracket_free v" and "bracket_free t"
  shows "regex_exec announce_re (''listen '' @ p @ '' seed ['' @ u @ ''] leech ['' @ v @ '']'' @ t) =
    Some [(0, length p + length u + length v + 24), (7, 7 + length p),
      (length p + 14, length p + 14 + length u),
      (length p + length u + 23, length p + length u + 23 + length v)]"
proof -
  let ?n = "7 + length p + 7"
  let ?rest = "Rep True AnyChar 0 None # lits ''] leech ['' @ Rep True AnyChar 0 None # lits '']'' @ []"
  let ?s = "u @ ''] leech ['' @ v @ '']'' @ t"
  have "re_here ?rest ?s ?n = Some (?n + length u + length v + 10,
      [(?n, ?n + length u), (?n + length u + 9, ?n + length u + 9 + length v)])"
    by (rule re_here_seed_leech [OF assms(4-6)]) simp
  moreover have "7 + length p + length '' seed ['' = ?n" by simp
  ultimately have "re_here (lits '' seed ['' @ ?rest) ('' seed ['' @ ?s) (7 + length p) =
      Some (?n + length u + length v + 10,
        [(?n, ?n + length u), (?n + length u + 9, ?n + length u + 9 + length v)])"
    by (simp only: re_here_lits_self)
  moreover have "'' seed ['' @ ?s = CHR '' '' # ''seed ['' @ ?s" by simp
  ultimately have "re_here (Rep True Digit 1 (Some 5) # lits '' seed ['' @ ?rest) (p @ CHR '' '' # ''seed ['' @ ?s) 7 =
      Some (?n + length u + length v + 10,
        (7, 7 + length p) # [(?n, ?n + length u), (?n + length u + 9, ?n + length u + 9 + length v)])"
    by (intro re_here_digits [OF assms(1-3)]) (simp_all only:, simp add: c_isdigit_def)
  moreover have "p @ '' seed ['' @ ?s = p @ CHR '' '' # ''seed ['' @ ?s" and "0 + length ''listen '' = 7" by simp_all
  ultimately have "re_here announce_re (''listen '' @ p @ '' seed ['' @ ?s) 0 =
      Some (?n + length u + length v + 10,
        (7, 7 + length p) # [(?n, ?n + length u), (?n + length u + 9, ?n + length u + 9 + length v)])"
    unfolding announce_re_def by (simp only: re_here_lits_self)
  from regex_exec_start [OF this] show ?thesis by (simp add: algebra_simps)
qed


text \<open>A trailing item that may repeat any number of times always matches.\<close>

lemma re_here_star:
  "re_here [Rep False a 0 None] s pos = Some (pos + run_length a None s, [])"
  by (simp add: re_here.simps(2))

lemma regex_update:
  assumes "bracket_free u" and "bracket_free v" and "bracket_free t"
  shows "\<exists>e. regex_exec update_re (''seed ['' @ u @ ''] leech ['' @ v @ '']'' @ t) =
    Some [(0, e), (6, 6 + length u), (length u + 15, length u + 15 + length v)]"
proof -
  let ?e = "6 + length u + length v + 10 + run_length (Lit (CHR '' '')) None t"
  let ?s = "u @ ''] leech ['' @ v @ '']'' @ t"
  have "re_here (Rep True AnyChar 0 None # lits ''] leech ['' @ Rep True AnyChar 0 None # lits '']'' @
      [Rep False (Lit (CHR '' '')) 0 None]) ?s 6 =
      Some (?e, [(6, 6 + length u), (6 + length u + 9, 6 + length u + 9 + length v)])"
    by (rule re_here_seed_leech [OF assms]) (rule re_here_star)
  moreover have "0 + length ''seed ['' = 6" by simp
  ultimately have "re_here update_re (''seed ['' @ ?s) 0 =
      Some (?e, [(6, 6 + length u), (6 + length u + 9, 6 + length u + 9 + length v)])"
    unfolding update_re_def by (simp only: re_here_lits_self)
  from regex_exec_start [OF this] show ?thesis by (simp add: algebra_simps)
qed

lemma regex_look:
  assumes "bracket_free t"
  shows "\<exists>e. regex_exec look_re (''['' @ u @ '']'' @ t) = Some [(0, e), (1, 1 + length u)]"
proof -
  let ?e = "1 + length u + 1 + run_length (Lit (CHR '' '')) None t"
  have "re_here (Rep True AnyChar 0 None # lits '']'' @ [Rep False (Lit (CHR '' '')) 0 None]) (u @ '']'' @ t) 1 =
      Some (?e, [(1, 1 + length u)])"
    by (rule re_here_any [OF refl]) (use close_unique [OF assms] re_here_star in simp_all)
  moreover have "0 + length ''['' = 1" by simp
  ultimately have "re_here look_re (''['' @ u @ '']'' @ t) 0 = Some (?e, [(1, 1 + length u)])"
    unfolding look_re_def by (simp only: re_here_lits_self)
  from regex_exec_start [OF this] show ?thesis by simp
qed

section \<open>Properties\<close>



end
