(* ===== verification/Protocol.thy ===== *)
theory Protocol
  imports Clients String2 Regex
begin

text \<open>
  \<open>tracker/protocol.c\<close>: reading a request, the four handlers and their answers. A handler
  returns its \<open>int\<close> and the new state.
\<close>

section \<open>Answers\<close>

text \<open>\<open>socket_write_string\<close> of \<open>tracker/network.c\<close>; the socket accepts the whole string.\<close>

definition socket_write_string :: "tracker \<Rightarrow> int \<Rightarrow> nat \<Rightarrow> string \<Rightarrow> tracker" where
  "socket_write_string st sock n str = st\<lparr>sent := sent st @ [(sock, take n str)]\<rparr>"

definition negative_answer :: "tracker \<Rightarrow> int \<Rightarrow> tracker" where
  "negative_answer st sock = socket_write_string st sock 6 (''error'' @ [CHR 0x0A])"

definition write_ok :: "tracker \<Rightarrow> int \<Rightarrow> tracker" where
  "write_ok st sock = socket_write_string st sock 3 (''ok'' @ [CHR 0x0A])"

section \<open>The file lists of announce and update\<close>

fun seed_file_loop :: "tracker \<Rightarrow> fid clist \<Rightarrow> string list \<Rightarrow> (fid clist \<times> tracker) result" where
  "seed_file_loop st l (name # fsize # psize # key # tab) =
     rbind (file_get_or_create st name (word_of_int (atol fsize)) (word_of_int (atoi psize)) key)
       (\<lambda>(f, st'). rbind (list_append l f) (\<lambda>l'. seed_file_loop st' l' tab))"
| "seed_file_loop st l _ = Inr (l, st)"

definition get_seed_file_list :: "tracker \<Rightarrow> string \<Rightarrow> (fid clist \<times> tracker) result" where
  "get_seed_file_list st seed_str =
     rbind (string_split (Some seed_str) '' '') (\<lambda>tab.
       if length tab mod 4 \<noteq> 0 then Inr (list_new False, st)
       else seed_file_loop st (list_new False) tab)"

definition get_leech_file_list :: "tracker \<Rightarrow> string \<Rightarrow> fid clist result" where
  "get_leech_file_list st leech_str =
     rbind (string_split (Some leech_str) '' '') (\<lambda>tab.
       fold_result (\<lambda>key l. case file_get_by_key st key of Some f \<Rightarrow> list_append l f | None \<Rightarrow> Inr l)
         tab (list_new False))"

definition strndup :: "string \<Rightarrow> nat \<times> nat \<Rightarrow> string" where
  "strndup req m = take (snd m - fst m) (drop (fst m) req)"

definition add_client_to :: "cid \<Rightarrow> fid option \<Rightarrow> tracker \<Rightarrow> tracker result" where
  "add_client_to c f st = rbind (deref f) (\<lambda>f. file_add_client st f c)"

definition seed_leech_match_and_parse :: "tracker \<Rightarrow> cid \<Rightarrow> string \<Rightarrow> (nat \<times> nat) list \<Rightarrow> tracker result" where
  "seed_leech_match_and_parse st c req pmatch =
     (let seed_str = strndup req (pmatch ! 1); leech_str = strndup req (pmatch ! 2)
      in rbind (load_client st c) (\<lambda>y.
         rbind (list_free_call (files_seed y)) (\<lambda>_.
         rbind (list_free_call (files_leech y)) (\<lambda>_.
         rbind (get_seed_file_list st seed_str) (\<lambda>(l1, st1).
         rbind (get_leech_file_list st1 leech_str) (\<lambda>l2.
         let st2 = store_client st1 c (y\<lparr>files_seed := l1, files_leech := l2\<rparr>)
         in rbind (list_each_r l1 (add_client_to c) st2) (\<lambda>(l1', st3).
            rbind (list_each_r l2 (add_client_to c) st3) (\<lambda>(l2', st4).
              Inr (store_client st4 c (y\<lparr>files_seed := l1', files_leech := l2'\<rparr>))))))))))"

definition announce_match_and_parse :: "tracker \<Rightarrow> cid \<Rightarrow> string \<Rightarrow> (nat \<times> nat) list \<Rightarrow> tracker result" where
  "announce_match_and_parse st c req pmatch =
     rbind (client_set_listening_port st c (word_of_int (atoi (drop (fst (pmatch ! 1)) req))))
       (\<lambda>st'. seed_leech_match_and_parse st' c req (tl (pmatch[1 := pmatch ! 0])))"

definition update_match_and_parse :: "tracker \<Rightarrow> cid \<Rightarrow> string \<Rightarrow> (nat \<times> nat) list \<Rightarrow> tracker result" where
  "update_match_and_parse st c req pmatch = seed_leech_match_and_parse st c req pmatch"

definition prot_announce :: "tracker \<Rightarrow> cid \<Rightarrow> string \<Rightarrow> (int \<times> tracker) result" where
  "prot_announce st c req_value =
     (case regex_exec announce_re req_value of
        None \<Rightarrow> Inr (-1, st)
      | Some pmatch \<Rightarrow>
          rbind (announce_match_and_parse st c req_value pmatch) (\<lambda>st1.
          rbind (load_client st1 c) (\<lambda>y. Inr (0, write_ok st1 (socket y)))))"

definition prot_update :: "tracker \<Rightarrow> cid \<Rightarrow> string \<Rightarrow> (int \<times> tracker) result" where
  "prot_update st c req_value =
     (case regex_exec update_re req_value of
        None \<Rightarrow> Inr (-1, st)
      | Some pmatch \<Rightarrow>
          rbind (update_match_and_parse st c req_value pmatch) (\<lambda>st1.
          rbind (load_client st1 c) (\<lambda>y. Inr (0, write_ok st1 (socket y)))))"

section \<open>Looking for files\<close>

text \<open>\<open>PROCESS_LIST\<close>: the files of \<open>li\<close> that meet the criterion go to the front of \<open>newlist\<close>.\<close>

definition process_list ::
  "tracker \<Rightarrow> fid clist \<Rightarrow> nat \<Rightarrow> fid clist \<Rightarrow> (shared_file \<Rightarrow> bool) \<Rightarrow> (fid clist \<times> fid clist) result" where
  "process_list st li n newlist criterion =
     list_iter list_get
       (\<lambda>f new. rbind (deref f) (\<lambda>f. rbind (load_file st f)
          (\<lambda>x. if criterion x then list_add new f else Inr new)))
       1 n li newlist"

text \<open>
  \<open>DEFINE_CRITERION_PROCESSOR(criterion, string, CODE)\<close>: \<open>CODE\<close> is given by the test it runs
  \<open>PROCESS_LIST\<close> with, for the fields it knows. After the switch of the lists \<open>new_list\<close> is the
  old one, and is freed.
\<close>

definition criterion_processor ::
  "string \<Rightarrow> (string \<Rightarrow> string \<Rightarrow> (shared_file \<Rightarrow> bool) option) \<Rightarrow>
   tracker \<Rightarrow> string \<Rightarrow> fid clist \<Rightarrow> fid clist result" where
  "criterion_processor str code st criterion l =
     (let n = list_size l
      in rbind (string_split2 (Some criterion) str) (\<lambda>spl.
           if length spl \<noteq> 2 then Inr l
           else
             (let field = spl ! 0
              in rbind (strstripc (spl ! 1) (CHR 0x22)) (\<lambda>value.
                 let new_list = list_new False
                 in case code field value of
                      None \<Rightarrow> rbind (list_free_call new_list) (\<lambda>_. Inr l)
                    | Some test \<Rightarrow>
                        rbind (process_list st l n new_list test) (\<lambda>(old, new).
                        rbind (list_free_call old) (\<lambda>_. Inr new))))))"

definition size_test :: "(64 word \<Rightarrow> 64 word \<Rightarrow> bool) \<Rightarrow> string \<Rightarrow> shared_file \<Rightarrow> bool" where
  "size_test r value x = r (flength x) (word_of_int (atol value))"

definition size_only :: "(64 word \<Rightarrow> 64 word \<Rightarrow> bool) \<Rightarrow> string \<Rightarrow> string \<Rightarrow> (shared_file \<Rightarrow> bool) option" where
  "size_only r field value = (if field = ''filesize'' then Some (size_test r value) else None)"

definition process_criterion_eq :: "tracker \<Rightarrow> string \<Rightarrow> fid clist \<Rightarrow> fid clist result" where
  "process_criterion_eq = criterion_processor (CHR ''='' # [CHR 0x22])
     (\<lambda>field value. if field = ''filename'' then Some (\<lambda>x. value = filename x) else size_only (=) field value)"

definition process_criterion_neq :: "tracker \<Rightarrow> string \<Rightarrow> fid clist \<Rightarrow> fid clist result" where
  "process_criterion_neq = criterion_processor (''!='' @ [CHR 0x22])
     (\<lambda>field value. if field = ''filename'' then Some (\<lambda>x. value \<noteq> filename x) else size_only (\<noteq>) field value)"

definition process_criterion_geq :: "tracker \<Rightarrow> string \<Rightarrow> fid clist \<Rightarrow> fid clist result" where
  "process_criterion_geq = criterion_processor (''>='' @ [CHR 0x22]) (size_only (\<ge>))"

definition process_criterion_leq :: "tracker \<Rightarrow> string \<Rightarrow> fid clist \<Rightarrow> fid clist result" where
  "process_criterion_leq = criterion_processor (''<='' @ [CHR 0x22]) (size_only (\<le>))"

definition process_criterion_lt :: "tracker \<Rightarrow> string \<Rightarrow> fid clist \<Rightarrow> fid clist result" where
  "process_criterion_lt = criterion_processor (''<'' @ [CHR 0x22]) (size_only (<))"

definition process_criterion_gt :: "tracker \<Rightarrow> string \<Rightarrow> fid clist \<Rightarrow> fid clist result" where
  "process_criterion_gt = criterion_processor (''>'' @ [CHR 0x22]) (size_only (>))"

definition process_criterion :: "tracker \<Rightarrow> string \<Rightarrow> fid clist \<Rightarrow> fid clist result" where
  "process_criterion st criterion l =
     rbind (process_criterion_neq st criterion l) (\<lambda>l.
     rbind (process_criterion_geq st criterion l) (\<lambda>l.
     rbind (process_criterion_leq st criterion l) (\<lambda>l.
     rbind (process_criterion_eq st criterion l) (\<lambda>l.
     rbind (process_criterion_lt st criterion l) (\<lambda>l.
       process_criterion_gt st criterion l)))))"

definition prot_look_process_criterions :: "tracker \<Rightarrow> string \<Rightarrow> fid clist result" where
  "prot_look_process_criterions st criterions_str =
     rbind (file_list st) (\<lambda>l.
     rbind (string_split (Some criterions_str) '' '') (\<lambda>criterions.
       fold_result (process_criterion st) criterions l))"

definition file_entry :: "shared_file \<Rightarrow> string" where
  "file_entry x = filename x @ '' '' @ dec (unat (flength x)) @ '' '' @ dec (unat (piece_size x)) @ '' '' @ md5_str x"

definition prot_look_build_file_list :: "tracker \<Rightarrow> fid clist \<Rightarrow> string result" where
  "prot_look_build_file_list st l =
     (if list_size l = 0 then Inr []
      else rbind
        (list_iter list_get
          (\<lambda>f (i, tmp). rbind (deref f) (\<lambda>f. rbind (load_file st f) (\<lambda>x.
             Inr (Suc i, snd (asprintf (tmp @ (if 1 < i then '' '' else '''') @ file_entry x))))))
          1 (list_size l) l (1 :: nat, []))
        (\<lambda>(_, _, out). Inr out))"

definition prot_look :: "tracker \<Rightarrow> cid \<Rightarrow> string \<Rightarrow> (int \<times> tracker) result" where
  "prot_look st c req_value =
     (case regex_exec look_re req_value of
        None \<Rightarrow> Inr (-1, st)
      | Some pmatch \<Rightarrow>
          rbind (prot_look_process_criterions st (strndup req_value (pmatch ! 1))) (\<lambda>l.
          rbind (prot_look_build_file_list st l) (\<lambda>file_list_str.
          let (n, response) = asprintf (''list ['' @ file_list_str @ '']'' @ [CHR 0x0A])
          in rbind (load_client st c) (\<lambda>y. Inr (0, socket_write_string st (socket y) n response)))))"

section \<open>Finding the peers of a file\<close>

definition keyhash_strsize :: nat where
  "keyhash_strsize = 32"

definition str_trim_prot_getfile :: "string \<Rightarrow> string" where
  "str_trim_prot_getfile req = takeWhile (\<lambda>c. c \<noteq> CHR 0x0A) req"

definition build_list :: "tracker \<Rightarrow> cid \<Rightarrow> cid \<Rightarrow> string result \<Rightarrow> string result" where
  "build_list st current c acc =
     rbind acc (\<lambda>output.
       if c \<noteq> current
       then rbind (load_client st c) (\<lambda>y. Inr (snd (asprintf (output @ '' '' @ fmt_s (listen_addr_key y)))))
       else Inr output)"

definition prot_getfile_build_peer_string_list :: "tracker \<Rightarrow> cid \<Rightarrow> cid hash_table \<Rightarrow> string result" where
  "prot_getfile_build_peer_string_list st current cli = ht_for_each cli (\<lambda>_ c. build_list st current c) (Inr [])"

definition prot_getfile :: "tracker \<Rightarrow> cid \<Rightarrow> string \<Rightarrow> (int \<times> tracker) result" where
  "prot_getfile st c req_value =
     (let req = str_trim_prot_getfile req_value
      in if length req \<noteq> keyhash_strsize then Inr (-1, st)
         else rbind
           (case file_get_by_key st req of
              None \<Rightarrow> Inr []
            | Some f \<Rightarrow> rbind (load_file st f) (\<lambda>x. prot_getfile_build_peer_string_list st c (fclients x)))
           (\<lambda>endpoints_list.
              let (n, response) = asprintf (''peers '' @ req @ '' ['' @ endpoints_list @ '']'' @ [CHR 0x0A])
              in rbind (load_client st c) (\<lambda>y. Inr (0, socket_write_string st (socket y) n response))))"

section \<open>Requests\<close>

datatype req_handler = Prot_Announce | Prot_Update | Prot_Look | Prot_Getfile

definition request_handlers :: "req_handler hash_table" where
  "request_handlers =
     ht_add_entry (ht_add_entry (ht_add_entry (ht_add_entry ht_create
       ''announce'' Prot_Announce) ''update'' Prot_Update) ''look'' Prot_Look) ''getfile'' Prot_Getfile"

fun run_handler :: "req_handler \<Rightarrow> tracker \<Rightarrow> cid \<Rightarrow> string \<Rightarrow> (int \<times> tracker) result" where
  "run_handler Prot_Announce = prot_announce"
| "run_handler Prot_Update = prot_update"
| "run_handler Prot_Look = prot_look"
| "run_handler Prot_Getfile = prot_getfile"

definition get_request_handler :: "string \<Rightarrow> req_handler option" where
  "get_request_handler buf_c =
     (let tmp = str_replace_char buf_c (CHR '' '') (CHR 0x00);
          buf = str_replace_char tmp (CHR 0x0A) (CHR 0x00);
          (err, ret) = ht_get_entry request_handlers buf
      in if err < 0 then None else ret)"

text \<open>\<open>sscanf(client_req, " %ms %n", ..)\<close>: the word, and what follows it and the white space.\<close>

definition scan_request :: "string \<Rightarrow> (string \<times> string) option" where
  "scan_request s =
     (let s1 = dropWhile c_isspace s; w = takeWhile (\<lambda>c. \<not> c_isspace c) s1
      in if w = [] then None
         else Some (w, dropWhile c_isspace (drop (length w) s1)))"

text \<open>
  \<open>read_request\<close> given what \<open>socket_read_string\<close> returned: its value \<open>rd\<close> and the buffer. The
  result is the value of the function, the two strings and the state.
\<close>

definition read_request ::
  "tracker \<Rightarrow> int \<Rightarrow> int \<times> string \<Rightarrow> int \<times> (string \<times> string) option \<times> tracker" where
  "read_request st sock input =
     (let (rd, client_req) = input
      in if 0 < rd
         then (case scan_request (c_string client_req) of
                 None \<Rightarrow> (-1, None, negative_answer st sock)
               | Some (name, val) \<Rightarrow> (rd, Some (name, val), st))
         else (if rd = 0 then -1 else -2, None, negative_answer st sock))"

definition get_and_call_handler :: "tracker \<Rightarrow> cid \<Rightarrow> string \<Rightarrow> string \<Rightarrow> tracker result" where
  "get_and_call_handler st c req_name req_value =
     (case get_request_handler req_name of
        Some h \<Rightarrow>
          rbind (run_handler h st c req_value) (\<lambda>(ret, st').
            if ret < 0 then rbind (load_client st' c) (\<lambda>y. Inr (negative_answer st' (socket y))) else Inr st')
      | None \<Rightarrow> rbind (load_client st c) (\<lambda>y. Inr (negative_answer st (socket y))))"

definition handle_request :: "tracker \<Rightarrow> cid \<Rightarrow> int \<times> string \<Rightarrow> tracker result" where
  "handle_request st c input =
     rbind (load_client st c) (\<lambda>y.
       let (ret, req, st1) = read_request st (socket y) input
       in rbind (case req of
                   Some (name, val) \<Rightarrow> if 0 < ret then get_and_call_handler st1 c name val else Inr st1
                 | None \<Rightarrow> Inr st1)
          (\<lambda>st2. rbind (load_client st2 c) (\<lambda>y2.
             client_dec_ref (store_client st2 c (y2\<lparr>can_rehear := True\<rparr>)) (Some c))))"

end
