(* ===== verification/Announce.thy ===== *)
theory Announce
  imports Protocol
begin

text \<open>
  What \<open>announce\<close> and \<open>update\<close> do: the files their seed and leech strings stand for, the lists
  the client gets, and the entries added to the client tables of these files.
\<close>

section \<open>Reading file lists\<close>

text \<open>A seed string lists name, size, piece size and key of each file.\<close>

fun quads :: "string list \<Rightarrow> (string \<times> string \<times> string \<times> string) list" where
  "quads (a # b # c # d # r) = (a, b, c, d) # quads r"
| "quads _ = []"

definition piece_size_of :: "string \<Rightarrow> 32 word" where
  "piece_size_of s = word_of_int (atoi s)"

definition seed_ok :: "string list \<Rightarrow> bool" where
  "seed_ok tab \<longleftrightarrow> list_all (\<lambda>(name, len, psize, key). piece_size_of psize \<noteq> 0) (quads tab)"

definition seed_keys :: "string list \<Rightarrow> string list" where
  "seed_keys tab = map (\<lambda>(name, len, psize, key). key) (quads tab)"

text \<open>Files are only added, and a file never changes apart from its clients.\<close>

definition files_grow :: "tracker \<Rightarrow> tracker \<Rightarrow> bool" where
  "files_grow st st' \<longleftrightarrow> same_clients st st' \<and> peers st' = peers st \<and>
     (\<forall>g y. files st g = Some y \<longrightarrow> files st' g = Some y)"

lemma files_grow_refl [simp]: "files_grow st st"
  by (simp add: files_grow_def)

lemma files_grow_trans: "files_grow st st' \<Longrightarrow> files_grow st' st'' \<Longrightarrow> files_grow st st''"
  using same_clients_trans by (auto simp: files_grow_def)

lemma files_grow_dom: "files_grow st st' \<Longrightarrow> dom (files st) \<subseteq> dom (files st')"
  by (auto simp: files_grow_def)

text \<open>The files have these keys, in this order.\<close>

definition have_keys :: "tracker \<Rightarrow> fid list \<Rightarrow> string list \<Rightarrow> bool" where
  "have_keys st fs ks \<longleftrightarrow> list_all2 (\<lambda>f k. \<exists>x. files st f = Some x \<and> md5_str x = k) fs ks"

lemma have_keys_dom: "have_keys st fs ks \<Longrightarrow> set fs \<subseteq> dom (files st)"
  unfolding have_keys_def by (induction rule: list_all2_induct) auto

lemma have_keys_grow: "have_keys st fs ks \<Longrightarrow> files_grow st st' \<Longrightarrow> have_keys st' fs ks"
  unfolding have_keys_def files_grow_def by (auto elim!: list_all2_mono)

lemma seed_file_loop_spec:
  assumes "files_inv st" and "list_rel l xs" and "length tab mod 4 = 0" and "seed_ok tab"
  shows "\<exists>l' st' fs. seed_file_loop st l tab = Inr (l', st') \<and> list_rel l' (xs @ fs) \<and> files_inv st' \<and>
    files_grow st st' \<and> have_keys st' fs (seed_keys tab) \<and> dom (files st') = dom (files st) \<union> set fs"
  using assms
proof (induction tab arbitrary: st l xs rule: quads.induct)
  case (1 name len psize key tab)
  have p: "word_of_int (atoi psize) \<noteq> (0 :: 32 word)" and ok: "seed_ok tab"
    using "1.prems"(4) by (auto simp: seed_ok_def piece_size_of_def)
  obtain f st1 x where s1: "file_get_or_create st name (word_of_int (atol len)) (word_of_int (atoi psize)) key = Inr (f, st1)"
      "files_inv st1" "same_clients st st1" "files st1 f = Some x" "md5_str x = key" "peers st1 = peers st"
      "\<forall>g y. files st g = Some y \<longrightarrow> files st1 g = Some y" "dom (files st1) = insert f (dom (files st))"
    using file_get_or_create_spec [OF "1.prems"(1) p] by blast
  then have g1: "files_grow st st1" by (simp add: files_grow_def)
  obtain l1 where l1: "list_append l f = Inr l1" "list_rel l1 (xs @ [f])"
    using list_append_rel [OF "1.prems"(2), of f] by blast
  have "length tab mod 4 = 0" using "1.prems"(3) by simp
  from "1.IH" [OF s1(2) l1(2) this ok] obtain l2 st2 fs where s2: "seed_file_loop st1 l1 tab = Inr (l2, st2)"
      "list_rel l2 ((xs @ [f]) @ fs)" "files_inv st2" "files_grow st1 st2" "have_keys st2 fs (seed_keys tab)"
      "dom (files st2) = dom (files st1) \<union> set fs"
    by blast
  have "have_keys st2 (f # fs) (key # seed_keys tab)"
    using s2(4,5) s1(4,5) by (auto simp: have_keys_def files_grow_def)
  then have "have_keys st2 (f # fs) (seed_keys (name # len # psize # key # tab))"
    by (simp add: seed_keys_def)
  moreover have "dom (files st2) = dom (files st) \<union> set (f # fs)" using s2(6) s1(8) by auto
  moreover have "seed_file_loop st l (name # len # psize # key # tab) = Inr (l2, st2)"
    by (simp add: s1(1) l1(1) s2(1))
  moreover have "list_rel l2 (xs @ f # fs)" using s2(2) by simp
  ultimately show ?case
    using s2(3) files_grow_trans [OF g1 s2(4)] by blast
qed (auto simp: seed_keys_def have_keys_def)

lemma get_seed_file_list_spec:
  assumes "files_inv st" and "length (tokens '' '' s) mod 4 = 0 \<Longrightarrow> seed_ok (tokens '' '' s)"
  shows "\<exists>l st' fs. get_seed_file_list st s = Inr (l, st') \<and> list_rel l fs \<and> files_inv st' \<and> files_grow st st' \<and>
    have_keys st' fs (if length (tokens '' '' s) mod 4 = 0 then seed_keys (tokens '' '' s) else []) \<and>
    dom (files st') = dom (files st) \<union> set fs"
proof (cases "length (tokens '' '' s) mod 4 = 0")
  case True
  then show ?thesis
    using seed_file_loop_spec [OF assms(1) list_new_rel True assms(2) [OF True], of False]
    by (simp add: get_seed_file_list_def string_split_tokens)
next
  case False
  then show ?thesis
    using assms(1) list_new_rel [of False]
    by (auto simp: get_seed_file_list_def string_split_tokens have_keys_def intro!: exI [of _ "[]"])
qed

definition known_files :: "tracker \<Rightarrow> string list \<Rightarrow> fid list" where
  "known_files st ks = List.map_filter (file_get_by_key st) ks"

lemma leech_loop:
  assumes "list_rel l xs"
  shows "\<exists>l'. fold_result (\<lambda>key l. case file_get_by_key st key of Some f \<Rightarrow> list_append l f | None \<Rightarrow> Inr l) ks l = Inr l' \<and>
    list_rel l' (xs @ known_files st ks)"
  using assms
proof (induction ks arbitrary: l xs)
  case Nil
  then show ?case by (simp add: known_files_def)
next
  case (Cons k ks)
  show ?case
  proof (cases "file_get_by_key st k")
    case None
    then show ?thesis using Cons.IH [OF Cons.prems] by (simp add: known_files_def)
  next
    case (Some f)
    obtain l1 where l1: "list_append l f = Inr l1" "list_rel l1 (xs @ [f])"
      using list_append_rel [OF Cons.prems, of f] by blast
    then show ?thesis using Cons.IH [OF l1(2)] by (simp add: known_files_def Some)
  qed
qed

lemma get_leech_file_list_spec:
  "\<exists>l. get_leech_file_list st s = Inr l \<and> list_rel l (known_files st (tokens '' '' s))"
  using leech_loop [OF list_new_rel, of st "tokens '' '' s" False]
  by (simp add: get_leech_file_list_def string_split_tokens)

lemma known_files_dom: "files_inv st \<Longrightarrow> set (known_files st ks) \<subseteq> dom (files st)"
  by (induction ks) (auto simp: known_files_def file_get_by_key_Some split: option.splits)

section \<open>Announcing and updating\<close>

definition enroll :: "string \<Rightarrow> cid \<Rightarrow> fid set \<Rightarrow> (fid \<Rightarrow> string \<rightharpoonup> cid) \<Rightarrow> (fid \<Rightarrow> string \<rightharpoonup> cid)" where
  "enroll k c fs p = (\<lambda>f. if f \<in> fs \<and> k \<notin> dom (p f) then (p f)(k \<mapsto> c) else p f)"

lemma enroll_Un: "enroll k c gs (enroll k c fs p) = enroll k c (fs \<union> gs) p"
  by (rule ext) (auto simp: enroll_def)

lemma enroll_empty [simp]: "enroll k c {} p = p"
  by (rule ext) (simp add: enroll_def)

lemma same_files_have_keys: "have_keys st fs ks \<Longrightarrow> same_files st st' \<Longrightarrow> have_keys st' fs ks"
  unfolding have_keys_def by (erule list_all2_mono) (metis same_files_Some)

text \<open>No file is lost and no file changes its key.\<close>

definition keeps_files :: "tracker \<Rightarrow> tracker \<Rightarrow> bool" where
  "keeps_files st st' \<longleftrightarrow> (\<forall>f x. files st f = Some x \<longrightarrow> (\<exists>x'. files st' f = Some x' \<and> md5_str x' = md5_str x))"

lemma keeps_files_grow: "files_grow st st' \<Longrightarrow> keeps_files st st'"
  by (simp add: files_grow_def keeps_files_def)

lemma keeps_files_same: "same_files st st' \<Longrightarrow> keeps_files st st'"
  using same_files_Some by (fastforce simp: keeps_files_def)

lemma keeps_files_trans: "keeps_files st st' \<Longrightarrow> keeps_files st' st'' \<Longrightarrow> keeps_files st st''"
  by (fastforce simp: keeps_files_def)

lemma same_files_known: "same_files st st' \<Longrightarrow> known_files st' ks = known_files st ks"
proof -
  assume "same_files st st'"
  then have "file_get_by_key st' = file_get_by_key st"
    by (intro ext) (simp add: file_get_by_key_def same_files_def)
  then show ?thesis by (simp add: known_files_def)
qed

lemma store_client_frame:
  "same_files st (store_client st c y)" "peers (store_client st c y) = peers st"
  "sent (store_client st c y) = sent st" "files (store_client st c y) = files st"
  "client_mem (store_client st c y) = (client_mem st)(c \<mapsto> y)"
proof -
  show "peers (store_client st c y) = peers st" by (rule peers_frame) (simp add: store_client_def)
qed (simp_all add: same_files_def store_client_def)

lemma add_client_to_Some: "add_client_to c (Some f) = (\<lambda>st. file_add_client st f c)"
  by (rule ext) (simp add: add_client_to_def)

lemma add_loop:
  assumes r: "list_rel l xs" and "listen_addr_key y = Some k" and "files_inv st" and "client_mem st c = Some y"
    and "set xs \<subseteq> dom (files st)"
  shows "\<exists>l' st'. list_each_r l (add_client_to c) st = Inr (l', st') \<and> list_rel l' xs \<and> files_inv st' \<and>
    same_files st st' \<and> same_clients st st' \<and> peers st' = enroll k c (set xs) (peers st)"
proof -
  obtain l' where l': "list_rel l' xs" "list_each_r l (add_client_to c) st =
      rbind (fold_result (add_client_to c) (map Some xs) st) (\<lambda>s'. Inr (l', s'))"
    using list_each_r_rel [OF r, of "add_client_to c" st] by blast
  have "fold_result (add_client_to c) (map Some xs) st = fold_result (\<lambda>f st. file_add_client st f c) xs st"
    by (simp add: fold_result_map add_client_to_Some)
  moreover obtain st' where st': "fold_result (\<lambda>f st. file_add_client st f c) xs st = Inr st'" "files_inv st'"
    "same_files st st'" "same_clients st st'"
    "peers st' = (\<lambda>f. if f \<in> set xs then (if k \<in> dom (peers st f) then peers st f else (peers st f)(k \<mapsto> c)) else peers st f)"
    using fold_add [OF assms(2-5)] by blast
  ultimately have "list_each_r l (add_client_to c) st = Inr (l', st')" using l'(2) by simp
  moreover have "peers st' = enroll k c (set xs) (peers st)"
    unfolding st'(5) by (rule ext) (simp add: enroll_def)
  ultimately show ?thesis using l'(1) st'(2-4) by blast
qed

lemma add_loop_empty:
  assumes "list_rel l []"
  shows "\<exists>l'. list_each_r l (add_client_to c) st = Inr (l', st) \<and> list_rel l' []"
  using list_each_r_rel [OF assms, of "add_client_to c" st] by auto

lemma tracker_inv_lists:
  assumes inv: "tracker_inv st" and y: "client_mem st c = Some y" and k: "listen_addr_key y = Some k"
    and "files_inv st'" and "same_clients st st'" and d: "dom (files st) \<subseteq> dom (files st')"
    and r: "list_rel l1 xs" "list_rel l2 ys" and xs: "set xs \<subseteq> dom (files st')" "set ys \<subseteq> dom (files st')"
  shows "tracker_inv (store_client st' c (y\<lparr>files_seed := l1, files_leech := l2\<rparr>))"
proof -
  have "clients_inv st'"
    using clients_inv_frame [OF _ assms(5) d] inv by (simp add: tracker_inv_def)
  then have inv': "tracker_inv st'" using assms(4) by (simp add: tracker_inv_def)
  have y': "client_mem st' c = Some y" using assms(5) y by (simp add: same_clients_def)
  have "client_ok st' (y\<lparr>files_seed := l1, files_leech := l2\<rparr>)"
    using tracker_inv_client [OF inv' y'] r xs k by (auto simp: client_ok_def shared_def held_rel)
  then show ?thesis by (intro tracker_inv_upd [OF inv' y']) simp_all
qed

definition seed_list_keys :: "string \<Rightarrow> string list" where
  "seed_list_keys s = (if length (tokens '' '' s) mod 4 = 0 then seed_keys (tokens '' '' s) else [])"

definition seed_str_ok :: "string \<Rightarrow> bool" where
  "seed_str_ok s \<longleftrightarrow> length (tokens '' '' s) mod 4 \<noteq> 0 \<or> seed_ok (tokens '' '' s)"

lemma seed_leech_core:
  assumes inv: "tracker_inv st" and y: "client_mem st c = Some y" and k: "listen_addr_key y = Some k"
    and s1: "get_seed_file_list st (strndup req (pm ! 1)) = Inr (l1, st1)" "list_rel l1 fs" "files_inv st1"
      "files_grow st st1" "have_keys st1 fs (seed_list_keys (strndup req (pm ! 1)))"
      "dom (files st1) = dom (files st) \<union> set fs"
  shows "\<exists>st' y'. seed_leech_match_and_parse st c req pm = Inr st' \<and> tracker_inv st' \<and>
    client_mem st' = (client_mem st)(c \<mapsto> y') \<and> sent st' = sent st \<and> clients st' = clients st \<and>
    (\<exists>l1 l2. y' = y\<lparr>files_seed := l1, files_leech := l2\<rparr> \<and> list_rel l1 fs \<and>
       list_rel l2 (known_files st' (tokens '' '' (strndup req (pm ! 2))))) \<and>
    have_keys st' fs (seed_list_keys (strndup req (pm ! 1))) \<and>
    dom (files st') = dom (files st) \<union> set fs \<and> peers st' = enroll k c (shared y') (peers st) \<and> keeps_files st st'"
proof -
  let ?s = "strndup req (pm ! 1)" and ?t = "strndup req (pm ! 2)"
  define ys where "ys = known_files st1 (tokens '' '' ?t)"
  obtain l2 where l2: "get_leech_file_list st1 ?t = Inr l2" "list_rel l2 ys"
    unfolding ys_def using get_leech_file_list_spec by blast
  have xs1: "set fs \<subseteq> dom (files st1)" "set ys \<subseteq> dom (files st1)"
    using s1(6) known_files_dom [OF s1(3)] by (auto simp: ys_def)
  have sc1: "same_clients st st1" and p1: "peers st1 = peers st" using s1(4) by (auto simp: files_grow_def)
  define y2 where "y2 = y\<lparr>files_seed := l1, files_leech := l2\<rparr>"
  define st2 where "st2 = store_client st1 c y2"
  have "tracker_inv st2"
    unfolding st2_def y2_def
    by (rule tracker_inv_lists [OF inv y k s1(3) sc1 _ s1(2) l2(2) xs1]) (simp add: s1(6))
  then have fi2: "files_inv st2" by (simp add: tracker_inv_def)
  have y2: "client_mem st2 c = Some y2" "listen_addr_key y2 = Some k"
    by (simp_all add: st2_def store_client_frame y2_def k)
  have d2: "set fs \<subseteq> dom (files st2)" "set ys \<subseteq> dom (files st2)"
    using xs1 by (simp_all add: st2_def store_client_frame)
  obtain l1' st3 where s3: "list_each_r l1 (add_client_to c) st2 = Inr (l1', st3)" "list_rel l1' fs" "files_inv st3"
      "same_files st2 st3" "same_clients st2 st3" "peers st3 = enroll k c (set fs) (peers st2)"
    using add_loop [OF s1(2) y2(2) fi2 y2(1) d2(1)] by blast
  have y3: "client_mem st3 c = Some y2" using y2 s3(5) by (simp add: same_clients_def)
  have d3: "set ys \<subseteq> dom (files st3)" using d2(2) same_files_dom [OF s3(4)] by simp
  obtain l2' st4 where s4: "list_each_r l2 (add_client_to c) st3 = Inr (l2', st4)" "list_rel l2' ys" "files_inv st4"
      "same_files st3 st4" "same_clients st3 st4" "peers st4 = enroll k c (set ys) (peers st3)"
    using add_loop [OF l2(2) y2(2) s3(3) y3 d3] by blast
  define y4 where "y4 = y\<lparr>files_seed := l1', files_leech := l2'\<rparr>"
  define st5 where "st5 = store_client st4 c y4"
  have e: "seed_leech_match_and_parse st c req pm = Inr st5"
  proof -
    obtain us vs where "list_rel (files_seed y) us" "list_rel (files_leech y) vs"
      using tracker_inv_client [OF inv y] unfolding client_ok_def by blast
    then have "list_free_call (files_seed y) = Inr ()" "list_free_call (files_leech y) = Inr ()"
      by (simp_all add: list_free_call_rel)
    then show ?thesis
      unfolding seed_leech_match_and_parse_def Let_def st5_def y4_def
      by (simp only: load_client_Some [OF y] rbind_Inr s1(1) l2(1) prod.case
          s3(1) [unfolded st2_def y2_def] s4(1))
  qed
  have sf: "same_files st2 st4" and sc: "same_clients st2 st4"
    using same_files_trans [OF s3(4) s4(4)] same_clients_trans [OF s3(5) s4(5)] .
  have sf5: "same_files st1 st5"
    using sf store_client_frame(1) [of st1 c y2] store_client_frame(1) [of st4 c y4] same_files_trans
    unfolding st2_def st5_def by blast
  have inv2: "tracker_inv st2" by fact
  have "tracker_inv (store_client st4 c (y2\<lparr>files_seed := l1', files_leech := l2'\<rparr>))"
    by (rule tracker_inv_lists [OF inv2 y2(1) y2(2) s4(3) sc _ s3(2) s4(2)])
      (use d2 same_files_dom [OF sf] in auto)
  moreover have "y2\<lparr>files_seed := l1', files_leech := l2'\<rparr> = y4" by (simp add: y2_def y4_def)
  ultimately have inv5: "tracker_inv st5" by (simp add: st5_def)
  have sh: "shared y4 = set fs \<union> set ys" using s3(2) s4(2) by (simp add: shared_def y4_def held_rel)
  have p5: "peers st5 = enroll k c (shared y4) (peers st)"
  proof -
    have "peers st2 = peers st" unfolding st2_def store_client_frame(2) by (rule p1)
    then show ?thesis
      unfolding st5_def store_client_frame(2) s4(6) s3(6) enroll_Un sh by (simp only:)
  qed
  have cm5: "client_mem st5 = (client_mem st)(c \<mapsto> y4)"
    using sc sc1 by (simp add: st5_def store_client_frame same_clients_def st2_def)
  have se5: "sent st5 = sent st" "clients st5 = clients st"
    using sc sc1 by (simp_all add: st5_def store_client_def same_clients_def st2_def)
  have ys5: "ys = known_files st5 (tokens '' '' ?t)"
    using same_files_known [OF sf5] by (simp add: ys_def)
  have hk: "have_keys st5 fs (seed_list_keys ?s)" by (rule same_files_have_keys [OF s1(5) sf5])
  have dom5: "dom (files st5) = dom (files st) \<union> set fs" using same_files_dom [OF sf5] s1(6) by simp
  have "keeps_files st st5"
    using keeps_files_trans [OF keeps_files_grow [OF s1(4)] keeps_files_same [OF sf5]] .
  then show ?thesis
    using e inv5 cm5 se5 s3(2) s4(2) ys5 hk dom5 p5 unfolding y4_def by blast
qed

lemma seed_leech_match_and_parse_spec:
  assumes inv: "tracker_inv st" and y: "client_mem st c = Some y" and k: "listen_addr_key y = Some k"
    and ok: "seed_str_ok (strndup req (pm ! 1))"
  shows "\<exists>st' y' fs. seed_leech_match_and_parse st c req pm = Inr st' \<and> tracker_inv st' \<and>
    client_mem st' = (client_mem st)(c \<mapsto> y') \<and> sent st' = sent st \<and> clients st' = clients st \<and>
    (\<exists>l1 l2. y' = y\<lparr>files_seed := l1, files_leech := l2\<rparr> \<and> list_rel l1 fs \<and>
       list_rel l2 (known_files st' (tokens '' '' (strndup req (pm ! 2))))) \<and>
    have_keys st' fs (seed_list_keys (strndup req (pm ! 1))) \<and>
    dom (files st') = dom (files st) \<union> set fs \<and> peers st' = enroll k c (shared y') (peers st) \<and> keeps_files st st'"
proof -
  let ?s = "strndup req (pm ! 1)"
  have fi: "files_inv st" using inv by (simp add: tracker_inv_def)
  have "length (tokens '' '' ?s) mod 4 = 0 \<Longrightarrow> seed_ok (tokens '' '' ?s)"
    using ok by (simp add: seed_str_ok_def)
  from get_seed_file_list_spec [OF fi this] obtain l1 st1 fs where
      "get_seed_file_list st ?s = Inr (l1, st1)" "list_rel l1 fs" "files_inv st1" "files_grow st st1"
      "have_keys st1 fs (seed_list_keys ?s)" "dom (files st1) = dom (files st) \<union> set fs"
    unfolding seed_list_keys_def [symmetric] by blast
  from seed_leech_core [OF inv y k this] show ?thesis by blast
qed

lemma enroll_other: "j \<noteq> k \<Longrightarrow> enroll k c fs p f j = p f j"
  by (simp add: enroll_def)

section \<open>Announce\<close>

lemma sent_write_ok: "write_ok st sock = st\<lparr>sent := sent st @ [(sock, ''ok'' @ [CHR 0x0A])]\<rparr>"
  by (simp add: write_ok_def socket_write_string_def)

lemma sent_negative_answer: "negative_answer st sock = st\<lparr>sent := sent st @ [(sock, ''error'' @ [CHR 0x0A])]\<rparr>"
  by (simp add: negative_answer_def socket_write_string_def)

lemma sent_frame [simp]:
  "tracker_inv (st\<lparr>sent := w\<rparr>) = tracker_inv st" "peers (st\<lparr>sent := w\<rparr>) = peers st"
  "known_files (st\<lparr>sent := w\<rparr>) ks = known_files st ks" "have_keys (st\<lparr>sent := w\<rparr>) fs ks = have_keys st fs ks"
  "peers_ok (st\<lparr>sent := w\<rparr>) = peers_ok st"
proof -
  show p: "peers (st\<lparr>sent := w\<rparr>) = peers st" by (rule peers_frame) simp
  show "peers_ok (st\<lparr>sent := w\<rparr>) = peers_ok st" unfolding peers_ok_def p by simp
  have "file_get_by_key (st\<lparr>sent := w\<rparr>) = file_get_by_key st" by (rule ext) (simp add: file_get_by_key_def)
  then show "known_files (st\<lparr>sent := w\<rparr>) ks = known_files st ks" by (simp add: known_files_def)
qed (simp_all add: tracker_inv_def files_inv_def clients_inv_def client_ok_def have_keys_def)

text \<open>
  What a client has shared once the tracker took over the seed string \<open>s\<close> and the leech
  string \<open>t\<close>: the files with the keys of \<open>s\<close>, and those of \<open>t\<close> the tracker knows.
\<close>

definition sharing :: "tracker \<Rightarrow> client \<Rightarrow> string \<Rightarrow> string \<Rightarrow> bool" where
  "sharing st y s t \<longleftrightarrow> (\<exists>fs. list_rel (files_seed y) fs \<and> have_keys st fs (seed_list_keys s) \<and>
     list_rel (files_leech y) (known_files st (tokens '' '' t)))"

lemma sharing_shared:
  assumes "files_inv st" and "sharing st y s t"
  shows "shared y = {f. \<exists>x. files st f = Some x \<and> md5_str x \<in> set (seed_list_keys s) \<union> set (tokens '' '' t)}"
proof -
  obtain fs where r: "list_rel (files_seed y) fs" "have_keys st fs (seed_list_keys s)"
    "list_rel (files_leech y) (known_files st (tokens '' '' t))"
    using assms(2) by (auto simp: sharing_def)
  have "set fs = {f. \<exists>x. files st f = Some x \<and> md5_str x \<in> set ks}" if "have_keys st fs ks" for fs ks
    using that unfolding have_keys_def
  proof (induction rule: list_all2_induct)
    case Nil
    then show ?case by simp
  next
    case (Cons f fs k ks)
    then obtain x where x: "files st f = Some x" "md5_str x = k" by blast
    have "g = f" if "files st g = Some z" "md5_str z = k" for g z
    proof -
      have "file_get_by_key st k = Some g" "file_get_by_key st k = Some f"
        using file_get_by_key_Some [OF assms(1)] x that by blast+
      then show ?thesis by simp
    qed
    then have "{g. \<exists>z. files st g = Some z \<and> md5_str z = k} = {f}" using x by blast
    moreover have "{g. \<exists>z. files st g = Some z \<and> md5_str z \<in> set (k # ks)} =
        {g. \<exists>z. files st g = Some z \<and> md5_str z = k} \<union> {g. \<exists>z. files st g = Some z \<and> md5_str z \<in> set ks}"
      by auto
    ultimately show ?case using Cons by simp
  qed
  moreover have "set (known_files st ks) = {f. \<exists>x. files st f = Some x \<and> md5_str x \<in> set ks}" for ks
  proof -
    have "set (known_files st ks) = {f. \<exists>k \<in> set ks. file_get_by_key st k = Some f}"
      by (induction ks) (auto simp: known_files_def split: option.splits)
    then show ?thesis using file_get_by_key_Some [OF assms(1)] by auto
  qed
  ultimately show ?thesis using r by (auto simp: shared_def held_rel)
qed

lemma announce_capture:
  "announce_match_and_parse st c req pm = rbind (client_set_listening_port st c (word_of_int (atoi (drop (fst (pm ! 1)) req))))
     (\<lambda>st'. seed_leech_match_and_parse st' c req (tl (pm[1 := pm ! 0])))"
  by (simp add: announce_match_and_parse_def)

definition announce_port :: "string \<Rightarrow> 16 word" where
  "announce_port s = word_of_int (atoi s)"

lemma prot_announce_spec:
  assumes inv: "tracker_inv st" and y: "client_mem st c = Some y"
    and m: "regex_exec announce_re req = Some [m0, m1, m2, m3]"
    and ok: "seed_str_ok (strndup req m2)"
  shows "\<exists>st' y'. prot_announce st c req = Inr (0, st') \<and> tracker_inv st' \<and>
    client_mem st' = (client_mem st)(c \<mapsto> y') \<and> clients st' = clients st \<and>
    sent st' = sent st @ [(socket y, ''ok'' @ [CHR 0x0A])] \<and>
    listening_port y' = announce_port (drop (fst m1) req) \<and>
    listen_addr_key y' = Some (listen_key (addr y) (listening_port y')) \<and>
    sharing st' y' (strndup req m2) (strndup req m3) \<and> dom (files st) \<subseteq> dom (files st') \<and>
    peers st' = enroll (listen_key (addr y) (listening_port y')) c (shared y') (peers st) \<and> keeps_files st st'"
proof -
  let ?port = "announce_port (drop (fst m1) req)" and ?pm = "[m0, m2, m3]"
  let ?k = "listen_key (addr y) ?port"
  obtain st1 y1 where s1: "client_set_listening_port st c ?port = Inr st1" "tracker_inv st1"
      "st1 = store_client st c y1" "peers st1 = peers st"
      "y1 = y\<lparr>listening_port := ?port, listen_addr_key := Some ?k\<rparr>"
    using client_set_listening_port_spec [OF inv y, of ?port] by blast
  have y1: "client_mem st1 c = Some y1" "listen_addr_key y1 = Some ?k"
    by (simp_all add: s1(3,5) store_client_frame)
  have ok': "seed_str_ok (strndup req (?pm ! 1))" using ok by simp
  obtain st2 y2 fs l1 l2 where s2: "seed_leech_match_and_parse st1 c req ?pm = Inr st2" "tracker_inv st2"
      "client_mem st2 = (client_mem st1)(c \<mapsto> y2)" "sent st2 = sent st1" "clients st2 = clients st1"
      "y2 = y1\<lparr>files_seed := l1, files_leech := l2\<rparr>" "list_rel l1 fs"
      "list_rel l2 (known_files st2 (tokens '' '' (strndup req (?pm ! 2))))"
      "have_keys st2 fs (seed_list_keys (strndup req (?pm ! 1)))"
      "dom (files st2) = dom (files st1) \<union> set fs" "peers st2 = enroll ?k c (shared y2) (peers st1)" "keeps_files st1 st2"
    using seed_leech_match_and_parse_spec [OF s1(2) y1 ok'] by metis
  define st3 where "st3 = write_ok st2 (socket y)"
  have sk: "socket y2 = socket y" by (simp add: s2(6) s1(5))
  have e: "prot_announce st c req = Inr (0, st3)"
    using s1(1) s2(1) by (simp add: prot_announce_def m announce_capture announce_port_def s2(3) sk st3_def)
  have sh: "sharing st3 y2 (strndup req m2) (strndup req m3)"
    using s2(7-9) by (auto simp: sharing_def st3_def sent_write_ok s2(6))
  have cm: "client_mem st3 = (client_mem st)(c \<mapsto> y2)" "clients st3 = clients st"
      "sent st3 = sent st @ [(socket y, ''ok'' @ [CHR 0x0A])]" "dom (files st) \<subseteq> dom (files st3)"
    by (simp_all add: st3_def sent_write_ok s2(3-5,10) s1(3) store_client_frame) (auto simp: store_client_def)
  have pe: "listening_port y2 = ?port" "listen_addr_key y2 = Some ?k" by (simp_all add: s2(6) s1(5))
  have "peers st3 = enroll ?k c (shared y2) (peers st)"
    by (simp add: st3_def sent_write_ok s2(11) s1(4))
  moreover have "tracker_inv st3" using s2(2) by (simp add: st3_def sent_write_ok)
  moreover have "keeps_files st st3"
    using s2(12) by (simp add: keeps_files_def st3_def sent_write_ok s1(3) store_client_frame)
  ultimately show ?thesis
    using e sh cm pe by (intro exI [of _ st3] exI [of _ y2]) simp
qed

lemma enroll_peers_ok:
  assumes ok: "peers_ok st" and p: "peers st' = enroll k c (shared y') (peers st)"
    and cm: "client_mem st' = (client_mem st)(c \<mapsto> y')" and k: "listen_addr_key y' = Some k"
    and old: "\<And>f j. peers st f j = Some c \<Longrightarrow> j = k \<and> f \<in> shared y'"
  shows "peers_ok st'"
  unfolding peers_ok_def
proof (intro allI impI)
  fix f j d
  assume pf: "peers st' f j = Some d"
  show "\<exists>y. client_mem st' d = Some y \<and> listen_addr_key y = Some j \<and> f \<in> shared y"
  proof (cases "d = c")
    case True
    then have "j = k \<and> f \<in> shared y'"
      using pf old unfolding p by (auto simp: enroll_def split: if_splits)
    then show ?thesis using True k by (simp add: cm)
  next
    case False
    then have "peers st f j = Some d"
      using pf unfolding p by (auto simp: enroll_def split: if_splits)
    then show ?thesis using ok False unfolding peers_ok_def by (simp add: cm)
  qed
qed

text \<open>A client that has not announced itself is listed nowhere.\<close>

lemma unannounced_not_listed:
  assumes "peers_ok st" and "client_mem st c = Some y" and "listen_addr_key y = None"
  shows "peers st f j \<noteq> Some c"
proof
  assume "peers st f j = Some c"
  then show False using assms unfolding peers_ok_def by fastforce
qed

lemma prot_announce_peers_ok:
  assumes inv: "tracker_inv st" and ok: "peers_ok st" and y: "client_mem st c = Some y"
    and first: "listen_addr_key y = None"
    and m: "regex_exec announce_re req = Some [m0, m1, m2, m3]" and s: "seed_str_ok (strndup req m2)"
    and r: "prot_announce st c req = Inr (r, st')"
  shows "peers_ok st'"
proof -
  obtain y' where y': "client_mem st' = (client_mem st)(c \<mapsto> y')"
      "listen_addr_key y' = Some (listen_key (addr y) (listening_port y'))"
      "peers st' = enroll (listen_key (addr y) (listening_port y')) c (shared y') (peers st)"
    using prot_announce_spec [OF inv y m s] r by auto
  show ?thesis
    by (rule enroll_peers_ok [OF ok y'(3,1,2)]) (use unannounced_not_listed [OF ok y first] in blast)
qed

section \<open>Update\<close>

lemma prot_update_spec:
  assumes inv: "tracker_inv st" and y: "client_mem st c = Some y" and k: "listen_addr_key y = Some k"
    and m: "regex_exec update_re req = Some [m0, m1, m2]"
    and ok: "seed_str_ok (strndup req m1)"
  shows "\<exists>st' y'. prot_update st c req = Inr (0, st') \<and> tracker_inv st' \<and>
    client_mem st' = (client_mem st)(c \<mapsto> y') \<and> clients st' = clients st \<and>
    sent st' = sent st @ [(socket y, ''ok'' @ [CHR 0x0A])] \<and> listen_addr_key y' = Some k \<and> socket y' = socket y \<and>
    sharing st' y' (strndup req m1) (strndup req m2) \<and> dom (files st) \<subseteq> dom (files st') \<and>
    peers st' = enroll k c (shared y') (peers st)"
proof -
  let ?pm = "[m0, m1, m2]"
  have ok': "seed_str_ok (strndup req (?pm ! 1))" using ok by simp
  obtain st2 y2 fs l1 l2 where s2: "seed_leech_match_and_parse st c req ?pm = Inr st2" "tracker_inv st2"
      "client_mem st2 = (client_mem st)(c \<mapsto> y2)" "sent st2 = sent st" "clients st2 = clients st"
      "y2 = y\<lparr>files_seed := l1, files_leech := l2\<rparr>" "list_rel l1 fs"
      "list_rel l2 (known_files st2 (tokens '' '' (strndup req (?pm ! 2))))"
      "have_keys st2 fs (seed_list_keys (strndup req (?pm ! 1)))"
      "dom (files st2) = dom (files st) \<union> set fs" "peers st2 = enroll k c (shared y2) (peers st)"
    using seed_leech_match_and_parse_spec [OF inv y k ok'] by metis
  define st3 where "st3 = write_ok st2 (socket y)"
  have sk: "socket y2 = socket y" by (simp add: s2(6))
  have e: "prot_update st c req = Inr (0, st3)"
    using s2(1) by (simp add: prot_update_def m update_match_and_parse_def s2(3) sk st3_def)
  have sh: "sharing st3 y2 (strndup req m1) (strndup req m2)"
    using s2(7-9) by (auto simp: sharing_def st3_def sent_write_ok s2(6))
  have cm: "client_mem st3 = (client_mem st)(c \<mapsto> y2)" "clients st3 = clients st"
      "sent st3 = sent st @ [(socket y, ''ok'' @ [CHR 0x0A])]" "dom (files st) \<subseteq> dom (files st3)"
      "listen_addr_key y2 = Some k"
    by (simp_all add: st3_def sent_write_ok s2(3-5,10)) (simp add: s2(6) k)
  have "peers st3 = enroll k c (shared y2) (peers st)"
    by (simp add: st3_def sent_write_ok s2(11))
  moreover have "tracker_inv st3" using s2(2) by (simp add: st3_def sent_write_ok)
  ultimately show ?thesis
    using e sh cm sk by (intro exI [of _ st3] exI [of _ y2]) simp
qed

lemma prot_update_peers_ok:
  assumes inv: "tracker_inv st" and ok: "peers_ok st" and y: "client_mem st c = Some y" "listen_addr_key y = Some k"
    and m: "regex_exec update_re req = Some [m0, m1, m2]" and s: "seed_str_ok (strndup req m1)"
    and r: "prot_update st c req = Inr (r, st')"
    and keep: "client_mem st' c = Some y'" "shared y \<subseteq> shared y'"
  shows "peers_ok st'"
proof -
  have y': "client_mem st' = (client_mem st)(c \<mapsto> y')" "listen_addr_key y' = Some k"
      "peers st' = enroll k c (shared y') (peers st)"
    using prot_update_spec [OF inv y m s] r keep(1) by auto
  show ?thesis
  proof (rule enroll_peers_ok [OF ok y'(3,1,2)])
    fix f j
    assume "peers st f j = Some c"
    then obtain z where "client_mem st c = Some z" "listen_addr_key z = Some j" "f \<in> shared z"
      using ok unfolding peers_ok_def by blast
    then show "j = k \<and> f \<in> shared y'" using y keep(2) by auto
  qed
qed

section \<open>The messages\<close>

lemma strndup_at: "req = u @ s @ v \<Longrightarrow> a = length u \<Longrightarrow> b = length u + length s \<Longrightarrow> strndup req (a, b) = s"
  by (simp add: strndup_def)

lemma digits_value_bound: "\<forall>c \<in> set p. c_isdigit c \<Longrightarrow> 0 \<le> digits_value p \<and> digits_value p < 10 ^ length p"
proof (induction p rule: rev_induct)
  case Nil
  then show ?case by (simp add: digits_value_def)
next
  case (snoc c p)
  have "c_isdigit c" using snoc.prems by simp
  moreover have "(of_char c :: int) = int (of_char c)" by (rule of_nat_of_char [symmetric])
  ultimately have "48 \<le> (of_char c :: int)" "(of_char c :: int) \<le> 57"
    unfolding c_isdigit_def by linarith+
  moreover have "0 \<le> digits_value p \<and> digits_value p < 10 ^ length p" using snoc by simp
  ultimately show ?case unfolding digits_value_snoc by simp
qed

lemma atoi_digits:
  assumes "p \<noteq> []" and "length p \<le> 5" and "\<forall>c \<in> set p. c_isdigit c"
  shows "atoi (p @ CHR '' '' # r) = digits_value p"
proof -
  obtain a p' where p: "p = a # p'" using assms(1) by (cases p) auto
  have a: "c_isdigit a" "\<not> c_isspace a" "a \<noteq> CHR ''-''" "a \<noteq> CHR ''+''"
    using assms(3) by (auto simp: p c_isdigit_def c_isspace_def)
  have "takeWhile c_isdigit (p @ CHR '' '' # r) = p"
    using assms(3) by (simp add: takeWhile_append c_isdigit_def)
  moreover have "dropWhile c_isspace (p @ CHR '' '' # r) = p @ CHR '' '' # r" using a by (simp add: p)
  moreover have v: "0 \<le> digits_value p" "digits_value p < 10 ^ 5"
    using digits_value_bound [OF assms(3)] assms(2) power_increasing [OF assms(2), of "10 :: int"] by auto
  ultimately have "strtol10 (p @ CHR '' '' # r) = digits_value p"
    using a unfolding strtol10_def by (simp add: p)
  moreover have "signed_take_bit 31 (digits_value p) = digits_value p"
    by (rule signed_take_bit_int_eq_self) (use v in simp_all)
  ultimately show ?thesis by (simp add: atoi_def)
qed

definition announce_msg :: "string \<Rightarrow> string \<Rightarrow> string \<Rightarrow> string" where
  "announce_msg p s t = ''listen '' @ p @ '' seed ['' @ s @ ''] leech ['' @ t @ '']''"

definition update_msg :: "string \<Rightarrow> string \<Rightarrow> string" where
  "update_msg s t = ''seed ['' @ s @ ''] leech ['' @ t @ '']''"

lemma announce_msg_captures:
  assumes "p \<noteq> []" and "length p \<le> 5" and "\<forall>c \<in> set p. c_isdigit c" and "bracket_free s" and "bracket_free t"
  shows "\<exists>m0 m1 m2 m3. regex_exec announce_re (announce_msg p s t) = Some [m0, m1, m2, m3] \<and>
    announce_port (drop (fst m1) (announce_msg p s t)) = word_of_int (digits_value p) \<and>
    strndup (announce_msg p s t) m2 = s \<and> strndup (announce_msg p s t) m3 = t"
proof -
  have m: "regex_exec announce_re (announce_msg p s t) =
    Some [(0, length p + length s + length t + 24), (7, 7 + length p),
      (length p + 14, length p + 14 + length s),
      (length p + length s + 23, length p + length s + 23 + length t)]"
    using regex_announce [OF assms, of "[]"] by (simp add: announce_msg_def bracket_free_def)
  have "drop 7 (announce_msg p s t) = p @ CHR '' '' # ''seed ['' @ s @ ''] leech ['' @ t @ '']''"
    by (simp add: announce_msg_def)
  then have "announce_port (drop 7 (announce_msg p s t)) = word_of_int (digits_value p)"
    by (simp only: announce_port_def atoi_digits [OF assms(1-3)])
  moreover have "strndup (announce_msg p s t) (length p + 14, length p + 14 + length s) = s"
    by (rule strndup_at [of _ "''listen '' @ p @ '' seed [''" s "''] leech ['' @ t @ '']''"])
      (simp_all add: announce_msg_def)
  moreover have "strndup (announce_msg p s t) (length p + length s + 23, length p + length s + 23 + length t) = t"
    by (rule strndup_at [of _ "''listen '' @ p @ '' seed ['' @ s @ ''] leech [''" t "'']''"])
      (simp_all add: announce_msg_def)
  ultimately show ?thesis using m by auto
qed

lemma update_msg_captures:
  assumes "bracket_free s" and "bracket_free t"
  shows "\<exists>m0 m1 m2. regex_exec update_re (update_msg s t) = Some [m0, m1, m2] \<and>
    strndup (update_msg s t) m1 = s \<and> strndup (update_msg s t) m2 = t"
proof -
  obtain e where m: "regex_exec update_re (update_msg s t) =
      Some [(0, e), (6, 6 + length s), (length s + 15, length s + 15 + length t)]"
    using regex_update [OF assms, of "[]"] by (auto simp: update_msg_def bracket_free_def)
  have "strndup (update_msg s t) (6, 6 + length s) = s"
    by (rule strndup_at [of _ "''seed [''" s "''] leech ['' @ t @ '']''"]) (simp_all add: update_msg_def)
  moreover have "strndup (update_msg s t) (length s + 15, length s + 15 + length t) = t"
    by (rule strndup_at [of _ "''seed ['' @ s @ ''] leech [''" t "'']''"]) (simp_all add: update_msg_def)
  ultimately show ?thesis using m by auto
qed

section \<open>Faults a client can cause\<close>

lemma file_get_or_create_zero:
  "file_get_by_key st key = None \<Longrightarrow> file_get_or_create st name len 0 key = Inl Div_By_Zero"
  by (simp add: file_get_or_create_def file_new_zero)

text \<open>The first quadruple has piece size zero and a new key: the division in \<open>file_new\<close> traps.\<close>

lemma prot_announce_div_zero:
  assumes inv: "tracker_inv st" and y: "client_mem st c = Some y"
    and m: "regex_exec announce_re req = Some [m0, m1, m2, m3]"
    and t: "tokens '' '' (strndup req m2) = name # len # psize # key # rest" "length rest mod 4 = 0"
    and z: "piece_size_of psize = 0" and k: "file_get_by_key st key = None"
  shows "prot_announce st c req = Inl Div_By_Zero"
proof -
  let ?pm = "[m0, m2, m3]"
  obtain st1 y1 where s1: "client_set_listening_port st c (announce_port (drop (fst m1) req)) = Inr st1" "tracker_inv st1"
      "same_files st st1" "st1 = store_client st c y1"
    using client_set_listening_port_spec [OF inv y, of "announce_port (drop (fst m1) req)"] by blast
  have y1: "client_mem st1 c = Some y1" by (simp add: s1(4) store_client_frame)
  obtain us vs where "list_rel (files_seed y1) us" "list_rel (files_leech y1) vs"
    using tracker_inv_client [OF s1(2) y1] unfolding client_ok_def by blast
  then have fr: "list_free_call (files_seed y1) = Inr ()" "list_free_call (files_leech y1) = Inr ()"
    by (simp_all add: list_free_call_rel)
  have "file_get_by_key st1 key = None"
    using k s1(3) by (simp add: file_get_by_key_def same_files_def)
  then have "file_get_or_create st1 name (word_of_int (atol len)) (word_of_int (atoi psize)) key = Inl Div_By_Zero"
    using z file_get_or_create_zero by (simp add: piece_size_of_def)
  then have "get_seed_file_list st1 (strndup req m2) = Inl Div_By_Zero"
    by (simp add: get_seed_file_list_def string_split_tokens t)
  then have "seed_leech_match_and_parse st1 c req ?pm = Inl Div_By_Zero"
    by (simp add: seed_leech_match_and_parse_def Let_def y1 fr)
  then show ?thesis
    using s1(1) by (simp add: prot_announce_def m announce_capture announce_port_def)
qed

text \<open>
  An \<open>update\<close> from a client that has not announced its port: as soon as the seed list is not
  empty, the null \<open>listen_addr_key\<close> is used.
\<close>

lemma prot_update_unannounced:
  assumes inv: "tracker_inv st" and y: "client_mem st c = Some y" "listen_addr_key y = None"
    and m: "regex_exec update_re req = Some [m0, m1, m2]"
    and ok: "seed_str_ok (strndup req m1)" and ne: "seed_list_keys (strndup req m1) \<noteq> []"
  shows "prot_update st c req = Inl Null_Deref"
proof -
  let ?s = "strndup req m1" and ?t = "strndup req m2"
  have fi: "files_inv st" using inv by (simp add: tracker_inv_def)
  have "length (tokens '' '' ?s) mod 4 = 0 \<Longrightarrow> seed_ok (tokens '' '' ?s)"
    using ok by (simp add: seed_str_ok_def)
  from get_seed_file_list_spec [OF fi this] obtain l1 st1 fs where s1: "get_seed_file_list st ?s = Inr (l1, st1)"
      "list_rel l1 fs" "files_inv st1" "files_grow st st1" "have_keys st1 fs (seed_list_keys ?s)"
    unfolding seed_list_keys_def [symmetric] by blast
  obtain l2 where l2: "get_leech_file_list st1 ?t = Inr l2"
    using get_leech_file_list_spec by blast
  obtain us vs where "list_rel (files_seed y) us" "list_rel (files_leech y) vs"
    using tracker_inv_client [OF inv y(1)] unfolding client_ok_def by blast
  then have fr: "list_free_call (files_seed y) = Inr ()" "list_free_call (files_leech y) = Inr ()"
    by (simp_all add: list_free_call_rel)
  define y2 where "y2 = y\<lparr>files_seed := l1, files_leech := l2\<rparr>"
  define st2 where "st2 = store_client st1 c y2"
  obtain f fs' x where fs: "fs = f # fs'" "files st1 f = Some x"
    using s1(5) ne unfolding have_keys_def by (cases fs) (auto simp: list_all2_Cons1 split: if_splits)
  have "file_add_client st2 f c = Inl Null_Deref"
    by (rule file_add_client_no_key [of _ _ x _ y2]) (simp_all add: st2_def store_client_frame fs y2_def y(2))
  then have "list_each_r l1 (add_client_to c) st2 = Inl Null_Deref"
    using list_each_r_rel [OF s1(2), of "add_client_to c" st2] by (auto simp: fs add_client_to_def)
  then have "seed_leech_match_and_parse st c req [m0, m1, m2] = Inl Null_Deref"
    unfolding seed_leech_match_and_parse_def Let_def
    by (simp add: y(1) fr s1(1) l2 st2_def y2_def)
  then show ?thesis by (simp add: prot_update_def m update_match_and_parse_def)
qed

text \<open>
  A client that announces itself again with another port stays listed under its old address,
  also after it is gone.
\<close>

lemma re_announce_stale:
  assumes inv: "tracker_inv st" and y: "client_mem st c = Some y" "listen_addr_key y = Some k"
    and listed: "peers st f k = Some c"
    and m: "regex_exec announce_re req = Some [m0, m1, m2, m3]" and ok: "seed_str_ok (strndup req m2)"
    and port: "announce_port (drop (fst m1) req) \<noteq> listening_port y"
  shows "\<exists>st1 st2. prot_announce st c req = Inr (0, st1) \<and> delete_client st1 c = Inr st2 \<and>
    tracker_inv st2 \<and> peers st2 f k = Some c \<and> client_mem st2 c = None \<and>
    (\<forall>d. d \<noteq> c \<longrightarrow> client_mem st2 d = client_mem st d) \<and> keeps_files st st2"
proof -
  let ?k = "\<lambda>y'. listen_key (addr y) (listening_port y')"
  obtain st1 y' where s1: "prot_announce st c req = Inr (0, st1)" "tracker_inv st1" "client_mem st1 = (client_mem st)(c \<mapsto> y')"
      "listening_port y' = announce_port (drop (fst m1) req)" "listen_addr_key y' = Some (?k y')"
      "peers st1 = enroll (?k y') c (shared y') (peers st)" "keeps_files st st1"
    using prot_announce_spec [OF inv y(1) m ok] by blast
  have "k = listen_key (addr y) (listening_port y)"
    using tracker_inv_client [OF inv y(1)] y(2) by (auto simp: client_ok_def)
  then have ne: "k \<noteq> ?k y'"
    using port s1(4) by (auto simp: listen_key_def dec_inj ip_stringify_def inet_ntop_colon word_unat_eq_iff)
  have p1: "peers st1 f k = Some c" unfolding s1(6) enroll_other [OF ne] by (rule listed)
  have y1: "client_mem st1 c = Some y'" by (simp add: s1(3))
  obtain st2 where s2: "delete_client st1 c = Inr st2" "tracker_inv st2" "client_mem st2 = (client_mem st1)(c := None)"
      "peers st2 = forget (listen_addr_key y') (shared y') (peers st1)" "same_files st1 st2"
    using delete_client_spec [OF s1(2) y1] by blast
  have "peers st2 f k = Some c" using p1 ne by (simp add: s2(4) forget_def s1(5))
  moreover have "keeps_files st st2" using keeps_files_trans [OF s1(7) keeps_files_same [OF s2(5)]] .
  ultimately show ?thesis using s1(1,3) s2(1-3) by auto
qed

text \<open>A peer and a seed list to evaluate the handlers on.\<close>

definition demo_peer :: sockaddr_in where
  "demo_peer = \<lparr>s_addr = 0x0100007F, sin_port = 0x401F\<rparr>"

definition demo_seed :: string where
  "demo_seed = ''file_a.dat 2097152 1024 8905e92afeb80fc7722ec89eb0bf0966''"

lemma demo_seed_ok:
  "tokens '' '' demo_seed = [''file_a.dat'', ''2097152'', ''1024'', ''8905e92afeb80fc7722ec89eb0bf0966'']"
  "bracket_free demo_seed" "seed_str_ok demo_seed"
proof -
  let ?words = "[''file_a.dat'', ''2097152'', ''1024'', ''8905e92afeb80fc7722ec89eb0bf0966'']"
  have "tokens [CHR '' ''] (join [CHR '' ''] ?words) = ?words"
    by (rule tokens_join) (simp add: is_token_def)
  then show w: "tokens '' '' demo_seed = ?words" by (simp add: demo_seed_def)
  show "bracket_free demo_seed" by (simp add: bracket_free_def demo_seed_def)
  have "piece_size_of ''1024'' = 1024" by code_simp
  then show "seed_str_ok demo_seed" by (simp add: seed_str_ok_def w seed_ok_def)
qed

lemma demo_port: "''2222'' \<noteq> []" "length ''2222'' \<le> 5" "\<forall>d \<in> set ''2222''. c_isdigit d" "bracket_free []"
  by (simp_all add: bracket_free_def c_isdigit_def)

lemma demo_announced:
  "\<exists>c st0 st y k f x. client_get_or_create tracker_init (Some demo_peer) 4 = Inr (Some c, st0) \<and>
    prot_announce st0 c (announce_msg ''2222'' demo_seed []) = Inr (0, st) \<and> tracker_inv st \<and> peers_ok st \<and>
    client_mem st c = Some y \<and> listen_addr_key y = Some k \<and> listening_port y = 2222 \<and>
    files st f = Some x \<and> md5_str x = ''8905e92afeb80fc7722ec89eb0bf0966'' \<and> peers st f k = Some c"
proof -
  obtain c st0 y0 where s0: "client_get_or_create tracker_init (Some demo_peer) 4 = Inr (Some c, st0)"
      "tracker_inv st0" "peers_ok st0" "client_mem st0 c = Some y0" "addr y0 = demo_peer" "listen_addr_key y0 = None"
      "files st0 = Map.empty" "socket y0 = 4"
    using first_client by blast
  obtain m0 m1 m2 m3 where m: "regex_exec announce_re (announce_msg ''2222'' demo_seed []) = Some [m0, m1, m2, m3]"
      "announce_port (drop (fst m1) (announce_msg ''2222'' demo_seed [])) = word_of_int (digits_value ''2222'')"
      "strndup (announce_msg ''2222'' demo_seed []) m2 = demo_seed" "strndup (announce_msg ''2222'' demo_seed []) m3 = []"
    using announce_msg_captures [OF demo_port(1-3) demo_seed_ok(2) demo_port(4)] by blast
  have ok: "seed_str_ok (strndup (announce_msg ''2222'' demo_seed []) m2)" by (simp only: m(3) demo_seed_ok(3))
  obtain st y where s: "prot_announce st0 c (announce_msg ''2222'' demo_seed []) = Inr (0, st)" "tracker_inv st"
      "client_mem st = (client_mem st0)(c \<mapsto> y)" "listening_port y = word_of_int (digits_value ''2222'')"
      "listen_addr_key y = Some (listen_key (addr y0) (listening_port y))" "sharing st y demo_seed []"
      "peers st = enroll (listen_key (addr y0) (listening_port y)) c (shared y) (peers st0)"
    using prot_announce_spec [OF s0(2,4) m(1) ok] unfolding m(2-4) by blast
  have po: "peers_ok st" by (rule prot_announce_peers_ok [OF s0(2-4) s0(6) m(1) ok s(1)])
  have seeds: "seed_list_keys demo_seed = [''8905e92afeb80fc7722ec89eb0bf0966'']"
    by (simp add: seed_list_keys_def demo_seed_ok(1) seed_keys_def)
  then obtain f x where fx: "files st f = Some x" "md5_str x = ''8905e92afeb80fc7722ec89eb0bf0966''" "f \<in> shared y"
    using s(2,6) sharing_shared [of st y demo_seed "[]"]
    by (auto simp: sharing_def have_keys_def list_all2_Cons2 tracker_inv_def)
  have "peers st0 f = Map.empty" by (simp add: peers_def s0(7))
  then have "peers st f (listen_key (addr y0) (listening_port y)) = Some c"
    using fx(3) by (simp add: s(7) enroll_def)
  moreover have "listening_port y = 2222" using s(4) by (simp add: digits_value_def)
  ultimately show ?thesis using s0(1) s(1,2,3,5) po fx(1,2) by fastforce
qed

section \<open>Properties\<close>



text \<open>
  C5: An update by a client that has announced is answered \<open>ok\<close> and replaces what it shares by
  the files of the new lists; its listening address does not change.
\<close>

theorem update_shares:
  assumes "tracker_inv st" and "client_mem st c = Some y" and "listen_addr_key y = Some k"
    and "bracket_free s" and "bracket_free t" and "seed_str_ok s"
  shows "\<exists>st' y'. prot_update st c (update_msg s t) = Inr (0, st') \<and> tracker_inv st' \<and>
    client_mem st' = (client_mem st)(c \<mapsto> y') \<and> sent st' = sent st @ [(socket y, ''ok'' @ [CHR 0x0A])] \<and>
    listen_addr_key y' = Some k \<and>
    shared y' = {f. \<exists>x. files st' f = Some x \<and> md5_str x \<in> set (seed_list_keys s) \<union> set (tokens '' '' t)} \<and>
    (\<forall>f \<in> shared y'. k \<in> dom (peers st' f))"
proof -
  obtain m0 m1 m2 where m: "regex_exec update_re (update_msg s t) = Some [m0, m1, m2]"
      "strndup (update_msg s t) m1 = s" "strndup (update_msg s t) m2 = t"
    using update_msg_captures [OF assms(4,5)] by blast
  obtain st' y' where s: "prot_update st c (update_msg s t) = Inr (0, st')" "tracker_inv st'"
      "client_mem st' = (client_mem st)(c \<mapsto> y')" "sent st' = sent st @ [(socket y, ''ok'' @ [CHR 0x0A])]"
      "listen_addr_key y' = Some k" "sharing st' y' s t" "peers st' = enroll k c (shared y') (peers st)"
    using prot_update_spec [OF assms(1-3) m(1), unfolded m, OF assms(6)] by blast
  have "files_inv st'" using s(2) by (simp add: tracker_inv_def)
  from sharing_shared [OF this s(6)] have "shared y' = {f. \<exists>x. files st' f = Some x \<and>
      md5_str x \<in> set (seed_list_keys s) \<union> set (tokens '' '' t)}" .
  moreover have "\<forall>f \<in> shared y'. k \<in> dom (peers st' f)"
    by (simp add: s(7) enroll_def)
  ultimately show ?thesis using s(1-5) by blast
qed

lemma update_shares_witness:
  "\<exists>c st st' st'' y'. prot_announce st c (announce_msg ''2222'' demo_seed []) = Inr (0, st') \<and>
    prot_update st' c (update_msg [] ''8905e92afeb80fc7722ec89eb0bf0966'') = Inr (0, st'') \<and>
    client_mem st'' = (client_mem st')(c \<mapsto> y') \<and> (\<forall>f \<in> shared y'. the (listen_addr_key y') \<in> dom (peers st'' f))"
proof -
  obtain c st0 st y k where s: "prot_announce st0 c (announce_msg ''2222'' demo_seed []) = Inr (0, st)"
      "tracker_inv st" "client_mem st c = Some y" "listen_addr_key y = Some k"
    using demo_announced by blast
  have b: "bracket_free ''8905e92afeb80fc7722ec89eb0bf0966''" by (simp add: bracket_free_def)
  have "tokens '' '' [] = []" by (simp add: tokens_def)
  then have e: "seed_str_ok []" by (simp add: seed_str_ok_def seed_ok_def)
  from update_shares [OF s(2-4) demo_port(4) b e] obtain st'' y' where
    "prot_update st c (update_msg [] ''8905e92afeb80fc7722ec89eb0bf0966'') = Inr (0, st'')"
    "client_mem st'' = (client_mem st)(c \<mapsto> y')" "listen_addr_key y' = Some k" "\<forall>f \<in> shared y'. k \<in> dom (peers st'' f)"
    by blast
  moreover from this(3,4) have "\<forall>f \<in> shared y'. the (listen_addr_key y') \<in> dom (peers st'' f)" by simp
  ultimately show ?thesis using s(1) by blast
qed

text \<open>
  An announce whose first file is new and has a piece size that reads as zero (the text
  \<open>0\<close>, or any text that is not a number) divides by zero: one message stops the tracker.
\<close>

theorem announce_division_by_zero:
  assumes "tracker_inv st" and "client_mem st c = Some y"
    and "p \<noteq> []" and "length p \<le> 5" and "\<forall>d \<in> set p. c_isdigit d" and "bracket_free s" and "bracket_free t"
    and "tokens '' '' s = name # len # psize # key # rest" and "length rest mod 4 = 0"
    and "piece_size_of psize = 0" and "file_get_by_key st key = None"
  shows "prot_announce st c (announce_msg p s t) = Inl Div_By_Zero"
proof -
  obtain m0 m1 m2 m3 where m: "regex_exec announce_re (announce_msg p s t) = Some [m0, m1, m2, m3]"
      "strndup (announce_msg p s t) m2 = s"
    using announce_msg_captures [OF assms(3-7)] by blast
  show ?thesis
    by (rule prot_announce_div_zero [OF assms(1,2) m(1) _ assms(9-11)]) (simp only: m(2) assms(8))
qed

lemma announce_division_by_zero_witness:
  "\<exists>c st. client_get_or_create tracker_init (Some demo_peer) 4 = Inr (Some c, st) \<and>
    prot_announce st c (announce_msg ''2222'' ''a 1 x k'' []) = Inl Div_By_Zero"
proof -
  obtain c st y where s: "client_get_or_create tracker_init (Some demo_peer) 4 = Inr (Some c, st)"
      "tracker_inv st" "client_mem st c = Some y" "files st = Map.empty"
    using first_client by blast
  have "tokens [CHR '' ''] (join [CHR '' ''] [''a'', ''1'', ''x'', ''k'']) = [''a'', ''1'', ''x'', ''k'']"
    by (rule tokens_join) (simp add: is_token_def)
  then have t: "tokens '' '' ''a 1 x k'' = [''a'', ''1'', ''x'', ''k'']" by simp
  have z: "piece_size_of ''x'' = 0" by code_simp
  have b: "bracket_free ''a 1 x k''" by (simp add: bracket_free_def)
  have k: "file_get_by_key st ''k'' = None" using s(2,4) by (simp add: tracker_inv_def file_get_by_key_None)
  from announce_division_by_zero [OF s(2,3) demo_port(1-3) b demo_port(4) t _ z k] s(1) show ?thesis by auto
qed

text \<open>
  An update with a seed list from a client that has not announced uses the client's listening
  address, which is still a null pointer, as a hash key.
\<close>

theorem update_before_announce:
  assumes "tracker_inv st" and "client_mem st c = Some y" and "listen_addr_key y = None"
    and "bracket_free s" and "bracket_free t" and "seed_str_ok s" and "seed_list_keys s \<noteq> []"
  shows "prot_update st c (update_msg s t) = Inl Null_Deref"
proof -
  obtain m0 m1 m2 where m: "regex_exec update_re (update_msg s t) = Some [m0, m1, m2]"
      "strndup (update_msg s t) m1 = s"
    using update_msg_captures [OF assms(4,5)] by blast
  show ?thesis
    by (rule prot_update_unannounced [OF assms(1-3) m(1)]) (simp_all only: m(2) assms(6,7) not_False_eq_True)
qed

lemma update_before_announce_witness:
  "\<exists>c st. client_get_or_create tracker_init (Some demo_peer) 4 = Inr (Some c, st) \<and>
    prot_update st c (update_msg demo_seed []) = Inl Null_Deref"
proof -
  obtain c st y where s: "client_get_or_create tracker_init (Some demo_peer) 4 = Inr (Some c, st)"
      "tracker_inv st" "client_mem st c = Some y" "listen_addr_key y = None"
    using first_client by blast
  have "seed_list_keys demo_seed \<noteq> []" by (simp add: seed_list_keys_def demo_seed_ok(1) seed_keys_def)
  from update_before_announce [OF s(2-4) demo_seed_ok(2) demo_port(4) demo_seed_ok(3) this] s(1) show ?thesis by blast
qed

end
