(* ===== verification/Look.thy ===== *)
theory Look
  imports Announce
begin

text \<open>
  What \<open>look\<close> answers: how a criterion is split, which files it keeps, and the list that is sent.
\<close>

section \<open>Splitting a criterion\<close>

lemma split_at_first:
  "q \<notin> set x \<Longrightarrow> q \<notin> set u \<Longrightarrow> x @ q # b = u @ q # c \<Longrightarrow> x = u \<and> b = c"
proof (induction x arbitrary: u)
  case Nil
  then show ?case by (cases u) auto
next
  case (Cons a x)
  then show ?case by (cases u) auto
qed

lemma split_before:
  "q \<notin> set u \<Longrightarrow> q \<in> set a \<Longrightarrow> a @ r = u @ q # c \<Longrightarrow> \<exists>a'. a = u @ q # a' \<and> a' @ r = c"
proof (induction a arbitrary: u)
  case Nil
  then show ?case by simp
next
  case (Cons x a)
  then show ?case by (cases u) auto
qed

text \<open>
  In \<open>u"v"\<close>, with no other quotation mark, the word \<open>w"\<close> occurs exactly where \<open>u\<close> ends in \<open>w\<close>,
  provided that \<open>v\<close> does not end in \<open>w\<close>.
\<close>

lemma occurrence_last:
  assumes "q \<notin> set w" and "q \<notin> set v" and "w \<noteq> []" and "\<not> suffix w v"
  shows "a @ (w @ [q]) @ b \<noteq> v @ [q]"
proof
  assume e: "a @ (w @ [q]) @ b = v @ [q]"
  show False
  proof (cases "q \<in> set a")
    case True
    then obtain a' where "a' @ (w @ [q]) @ b = []"
      using split_before [OF assms(2) True, of "(w @ [q]) @ b" "[]"] e by auto
    then show False by simp
  next
    case False
    then have "a @ w = v"
      using split_at_first [of q "a @ w" v b "[]"] assms(1,2) e by simp
    then show False using assms(4) by (auto simp: suffix_def)
  qed
qed

lemma occurrence:
  assumes "q \<notin> set w" and "q \<notin> set u" and "q \<notin> set v" and "w \<noteq> []" and "\<not> suffix w v"
    and e: "a @ (w @ [q]) @ b = u @ q # v @ [q]"
  shows "a @ w = u \<and> b = v @ [q]"
proof (cases "q \<in> set a")
  case True
  then obtain a' where "a' @ (w @ [q]) @ b = v @ [q]"
    using split_before [OF assms(2) True, of "(w @ [q]) @ b" "v @ [q]"] e by auto
  then show ?thesis using occurrence_last [OF assms(1,3,4,5)] by blast
next
  case False
  then show ?thesis
    using split_at_first [of q "a @ w" u b "v @ [q]"] assms(1,2) e by simp
qed

lemma pieces_None: "strstr s d = None \<Longrightarrow> pieces d s = [s]"
  by (simp add: pieces.simps)

lemma pieces_quote:
  assumes "q \<notin> set w" and "q \<notin> set u" and "q \<notin> set v" and "w \<noteq> []" and "\<not> suffix w v"
  shows "pieces (w @ [q]) (u @ q # v @ [q]) =
    (if suffix w u then [take (length u - length w) u, v @ [q]] else [u @ q # v @ [q]])"
proof (cases "strstr (u @ q # v @ [q]) (w @ [q])")
  case None
  have "\<not> suffix w u"
  proof
    assume "suffix w u"
    then obtain a where "u = a @ w" by (auto simp: suffix_def)
    then have "sublist (w @ [q]) (u @ q # v @ [q])" unfolding sublist_def by (metis append.assoc append_Cons append_Nil)
    then show False using None strstr_None_iff [of "u @ q # v @ [q]" "w @ [q]"] by simp
  qed
  then show ?thesis using None by (simp add: pieces_None)
next
  case (Some n)
  let ?s = "u @ q # v @ [q]"
  from strstr_Some [OF Some] have e: "take n ?s @ (w @ [q]) @ drop (n + length (w @ [q])) ?s = ?s"
    by (rule conjunct1 [THEN sym])
  from occurrence [OF assms e] have u: "take n ?s @ w = u" and r: "drop (n + length (w @ [q])) ?s = v @ [q]"
    by blast+
  have "strstr (v @ [q]) (w @ [q]) = None"
  proof (rule ccontr)
    assume "strstr (v @ [q]) (w @ [q]) \<noteq> None"
    then obtain m where "strstr (v @ [q]) (w @ [q]) = Some m" by blast
    from strstr_Some [OF this] occurrence_last [OF assms(1,3,4,5)] show False by metis
  qed
  then have "pieces (w @ [q]) ?s = [take n ?s, v @ [q]]"
    using r Some by (simp add: pieces.simps [of "w @ [q]" ?s] pieces_None)
  moreover have "suffix w u" unfolding suffix_def using u [symmetric] by (rule exI)
  moreover have "take n ?s = take (length u - length w) u" using u by (metis append_eq_conv_conj length_append add_diff_cancel_right')
  ultimately show ?thesis by simp
qed

section \<open>One processor\<close>

definition the_file :: "tracker \<Rightarrow> fid \<Rightarrow> shared_file" where
  "the_file st f = the (files st f)"

lemma process_list_rel:
  assumes r: "list_rel l xs" and d: "set xs \<subseteq> dom (files st)" and n: "list_rel nl ys"
  shows "\<exists>l' nl'. process_list st l (list_size l) nl P = Inr (l', nl') \<and> list_rel l' xs \<and>
    list_rel nl' (rev (filter (\<lambda>f. P (the_file st f)) xs) @ ys)"
proof -
  let ?f = "\<lambda>f new. rbind (deref f) (\<lambda>f. rbind (load_file st f)
          (\<lambda>x. if P x then list_add new f else Inr new))"
  obtain l' where l': "list_rel l' xs"
    "list_iter list_get ?f 1 (list_size l) l nl = rbind (fold_result ?f (map Some xs) nl) (\<lambda>s'. Inr (l', s'))"
    using li.iter_all [OF r, of ?f nl] by blast
  let ?g = "\<lambda>x l. if P (the_file st (the x)) then list_add l (the x) else Inr l"
  have "fold_result ?f (map Some xs) nl = fold_result ?g (map Some xs) nl"
    using d
  proof (induction xs arbitrary: nl)
    case Nil
    then show ?case by simp
  next
    case (Cons f xs)
    then obtain x where "files st f = Some x" by auto
    with Cons show ?case by (auto simp: the_file_def cong: rbind_cong)
  qed
  moreover obtain nl' where "fold_result ?g (map Some xs) nl = Inr nl'"
      "list_rel nl' (rev (filter (\<lambda>f. P (the_file st f)) xs) @ ys)"
    using li.select_all [OF n, of "\<lambda>x. P (the_file st (the x))" xs] by auto
  ultimately show ?thesis using l' by (auto simp: process_list_def)
qed

lemma criterion_skip:
  "str \<noteq> [] \<Longrightarrow> length (pieces str cr) \<noteq> 2 \<Longrightarrow> criterion_processor str code st cr l = Inr l"
  by (simp add: criterion_processor_def string_split2_pieces)

lemma criterion_unknown:
  "str \<noteq> [] \<Longrightarrow> pieces str cr = [field, v @ [CHR 0x22]] \<Longrightarrow> code field v = None \<Longrightarrow>
   criterion_processor str code st cr l = Inr l"
  by (simp add: criterion_processor_def string_split2_pieces strstripc_append list_free_call_rel [OF list_new_rel])

lemma criterion_applies:
  assumes "str \<noteq> []" and "pieces str cr = [field, v @ [CHR 0x22]]" and "code field v = Some P"
    and r: "list_rel l xs" and d: "set xs \<subseteq> dom (files st)"
  shows "\<exists>l'. criterion_processor str code st cr l = Inr l' \<and> list_rel l' (rev (filter (\<lambda>f. P (the_file st f)) xs))"
proof -
  obtain l1 l2 where "process_list st l (list_size l) (list_new False) P = Inr (l1, l2)" "list_rel l1 xs"
    and r2: "list_rel l2 (rev (filter (\<lambda>f. P (the_file st f)) xs))"
    using process_list_rel [OF r d list_new_rel, of False P] by auto
  then show ?thesis
    using assms(1-3) list_free_call_rel [of l1 xs]
    by (simp add: criterion_processor_def string_split2_pieces strstripc_append)
qed

section \<open>A criterion\<close>

datatype crit_op = Neq | Geq | Leq | Eq | Lt | Gt

fun op_str :: "crit_op \<Rightarrow> string" where
  "op_str Neq = ''!=''"
| "op_str Geq = ''>=''"
| "op_str Leq = ''<=''"
| "op_str Eq = ''=''"
| "op_str Lt = ''<''"
| "op_str Gt = ''>''"

fun op_rel :: "crit_op \<Rightarrow> 64 word \<Rightarrow> 64 word \<Rightarrow> bool" where
  "op_rel Neq = (\<noteq>)"
| "op_rel Geq = (\<ge>)"
| "op_rel Leq = (\<le>)"
| "op_rel Eq = (=)"
| "op_rel Lt = (<)"
| "op_rel Gt = (>)"

datatype crit = By_Name bool string | By_Size crit_op string

text \<open>The criteria the protocol knows, how they are written and which files meet them.\<close>

fun crit_str :: "crit \<Rightarrow> string" where
  "crit_str (By_Name eq v) = ''filename'' @ op_str (if eq then Eq else Neq) @ CHR 0x22 # v @ [CHR 0x22]"
| "crit_str (By_Size op v) = ''filesize'' @ op_str op @ CHR 0x22 # v @ [CHR 0x22]"

fun crit_holds :: "crit \<Rightarrow> shared_file \<Rightarrow> bool" where
  "crit_holds (By_Name eq v) x = ((filename x = v) = eq)"
| "crit_holds (By_Size op v) x = size_test (op_rel op) v x"

definition value_ok :: "string \<Rightarrow> bool" where
  "value_ok v \<longleftrightarrow> CHR 0x22 \<notin> set v \<and> (v = [] \<or> last v \<notin> set ''=<>'')"

primrec crit_value :: "crit \<Rightarrow> string" where
  "crit_value (By_Name eq v) = v"
| "crit_value (By_Size op v) = v"

lemma value_not_suffix: "value_ok v \<Longrightarrow> w \<noteq> [] \<Longrightarrow> last w \<in> set ''=<>'' \<Longrightarrow> \<not> suffix w v"
  by (auto simp: value_ok_def suffix_def)

lemma pieces_criterion:
  assumes "value_ok v" and "last w \<in> set ''=<>''" and "w \<noteq> []" and "CHR 0x22 \<notin> set w" and "CHR 0x22 \<notin> set u"
  shows "pieces (w @ [CHR 0x22]) (u @ CHR 0x22 # v @ [CHR 0x22]) =
    (if suffix w u then [take (length u - length w) u, v @ [CHR 0x22]] else [u @ CHR 0x22 # v @ [CHR 0x22]])"
  using assms by (intro pieces_quote value_not_suffix) (auto simp: value_ok_def)

lemma processor_skip:
  assumes "value_ok v" and "last w \<in> set ''=<>''" and "w \<noteq> []" and "CHR 0x22 \<notin> set w" and "CHR 0x22 \<notin> set u"
    and "\<not> suffix w u"
  shows "criterion_processor (w @ [CHR 0x22]) code st (u @ CHR 0x22 # v @ [CHR 0x22]) l = Inr l"
  by (rule criterion_skip) (use pieces_criterion [OF assms(1-5)] assms(6) in simp_all)

lemma processor_unknown:
  assumes "value_ok v" and "last w \<in> set ''=<>''" and "w \<noteq> []" and "CHR 0x22 \<notin> set w" and "CHR 0x22 \<notin> set u"
    and "u = field @ w" and "code field v = None"
  shows "criterion_processor (w @ [CHR 0x22]) code st (u @ CHR 0x22 # v @ [CHR 0x22]) l = Inr l"
proof -
  have "suffix w u" using assms(6) by (auto simp: suffix_def)
  then have "pieces (w @ [CHR 0x22]) (u @ CHR 0x22 # v @ [CHR 0x22]) = [field, v @ [CHR 0x22]]"
    using pieces_criterion [OF assms(1-5)] by (simp add: assms(6))
  then show ?thesis using criterion_unknown [of "w @ [CHR 0x22]" _ field v code st l] assms(7) by simp
qed

lemma processor_applies:
  assumes "value_ok v" and "last w \<in> set ''=<>''" and "w \<noteq> []" and "CHR 0x22 \<notin> set w" and "CHR 0x22 \<notin> set u"
    and "u = field @ w" and "code field v = Some P" and "list_rel l xs" and "set xs \<subseteq> dom (files st)"
  shows "\<exists>l'. criterion_processor (w @ [CHR 0x22]) code st (u @ CHR 0x22 # v @ [CHR 0x22]) l = Inr l' \<and>
    list_rel l' (rev (filter (\<lambda>f. P (the_file st f)) xs))"
proof -
  have "suffix w u" using assms(6) by (auto simp: suffix_def)
  then have "pieces (w @ [CHR 0x22]) (u @ CHR 0x22 # v @ [CHR 0x22]) = [field, v @ [CHR 0x22]]"
    using pieces_criterion [OF assms(1-5)] by (simp add: assms(6))
  then show ?thesis using criterion_applies [of "w @ [CHR 0x22]" _ field v code P l xs st] assms(7-9) by simp
qed

lemma op_str_props: "last (op_str op) \<in> set ''=<>''" "op_str op \<noteq> []" "CHR 0x22 \<notin> set (op_str op)"
  by (cases op; simp)+

lemma processor_noop:
  assumes "value_ok v" and "CHR 0x22 \<notin> set u"
    and "suffix (op_str op) u \<Longrightarrow> code (take (length u - length (op_str op)) u) v = None"
  shows "criterion_processor (op_str op @ [CHR 0x22]) code st (u @ CHR 0x22 # v @ [CHR 0x22]) l = Inr l"
proof (cases "suffix (op_str op) u")
  case True
  then have u: "u = take (length u - length (op_str op)) u @ op_str op"
    by (auto simp: suffix_def)
  show ?thesis
    by (rule processor_unknown [where code = code and v = v and field = "take (length u - length (op_str op)) u",
          OF assms(1) op_str_props assms(2) u assms(3) [OF True]])
next
  case False
  then show ?thesis by (rule processor_skip [OF assms(1) op_str_props assms(2)])
qed

text \<open>What each processor does with a field.\<close>

fun name_test :: "crit_op \<Rightarrow> string \<Rightarrow> (shared_file \<Rightarrow> bool) option" where
  "name_test Eq value = Some (\<lambda>x. value = filename x)"
| "name_test Neq value = Some (\<lambda>x. value \<noteq> filename x)"
| "name_test _ _ = None"

definition crit_code :: "crit_op \<Rightarrow> string \<Rightarrow> string \<Rightarrow> (shared_file \<Rightarrow> bool) option" where
  "crit_code op field value =
     (if field = ''filename'' then name_test op value else size_only (op_rel op) field value)"

lemma processors:
  "process_criterion_eq = criterion_processor (op_str Eq @ [CHR 0x22]) (crit_code Eq)"
  "process_criterion_neq = criterion_processor (op_str Neq @ [CHR 0x22]) (crit_code Neq)"
  "process_criterion_geq = criterion_processor (op_str Geq @ [CHR 0x22]) (crit_code Geq)"
  "process_criterion_leq = criterion_processor (op_str Leq @ [CHR 0x22]) (crit_code Leq)"
  "process_criterion_lt = criterion_processor (op_str Lt @ [CHR 0x22]) (crit_code Lt)"
  "process_criterion_gt = criterion_processor (op_str Gt @ [CHR 0x22]) (crit_code Gt)"
  unfolding process_criterion_eq_def process_criterion_neq_def process_criterion_geq_def
    process_criterion_leq_def process_criterion_lt_def process_criterion_gt_def
  by (rule arg_cong2 [where f = criterion_processor]; force simp: crit_code_def size_only_def)+

definition run_op :: "crit_op \<Rightarrow> tracker \<Rightarrow> string \<Rightarrow> fid clist \<Rightarrow> fid clist result" where
  "run_op op = criterion_processor (op_str op @ [CHR 0x22]) (crit_code op)"

lemma process_criterion_ops:
  "process_criterion st cr l = rbind (run_op Neq st cr l) (\<lambda>l. rbind (run_op Geq st cr l)
     (\<lambda>l. rbind (run_op Leq st cr l) (\<lambda>l. rbind (run_op Eq st cr l)
     (\<lambda>l. rbind (run_op Lt st cr l) (\<lambda>l. run_op Gt st cr l)))))"
  by (simp only: process_criterion_def processors run_op_def)

lemma other_field:
  assumes "op' \<noteq> op" and "field = ''filename'' \<or> field = ''filesize''" and "suffix (op_str op') (field @ op_str op)"
  shows "crit_code op' (take (length (field @ op_str op) - length (op_str op')) (field @ op_str op)) v = None"
  using assms(2)
proof
  assume "field = ''filename''"
  then show ?thesis
    using assms(1,3) by (cases op; cases op'; simp add: suffix_to_prefix crit_code_def size_only_def)
next
  assume "field = ''filesize''"
  then show ?thesis
    using assms(1,3) by (cases op; cases op'; simp add: suffix_to_prefix crit_code_def size_only_def)
qed

lemma run_op_other:
  assumes "value_ok v" and "op' \<noteq> op" and "field = ''filename'' \<or> field = ''filesize''"
  shows "run_op op' st ((field @ op_str op) @ CHR 0x22 # v @ [CHR 0x22]) l = Inr l"
  unfolding run_op_def
  by (rule processor_noop [where code = "crit_code op'" and v = v, OF assms(1) _ other_field [OF assms(2,3)]])
    (use assms(3) op_str_props(3) in auto)

lemma run_op_same:
  assumes "value_ok v" and "field = ''filename'' \<or> field = ''filesize''" and c: "crit_code op field v = Some P"
    and r: "list_rel l xs" and d: "set xs \<subseteq> dom (files st)"
  shows "\<exists>l'. run_op op st ((field @ op_str op) @ CHR 0x22 # v @ [CHR 0x22]) l = Inr l' \<and>
    list_rel l' (rev (filter (\<lambda>f. P (the_file st f)) xs))"
proof -
  have "CHR 0x22 \<notin> set (field @ op_str op)" using assms(2) op_str_props(3) by auto
  from processor_applies [where code = "crit_code op" and v = v and field = field,
      OF assms(1) op_str_props this refl c r d] show ?thesis by (simp only: run_op_def)
qed

lemma process_criterion_one:
  assumes v: "value_ok v" and f: "field = ''filename'' \<or> field = ''filesize''" and c: "crit_code op field v = Some P"
    and r: "list_rel l xs" and d: "set xs \<subseteq> dom (files st)"
  shows "\<exists>l'. process_criterion st ((field @ op_str op) @ CHR 0x22 # v @ [CHR 0x22]) l = Inr l' \<and>
    list_rel l' (rev (filter (\<lambda>f. P (the_file st f)) xs))"
proof -
  let ?cr = "(field @ op_str op) @ CHR 0x22 # v @ [CHR 0x22]"
  obtain l' where l': "run_op op st ?cr l = Inr l'" "list_rel l' (rev (filter (\<lambda>f. P (the_file st f)) xs))"
    using run_op_same [OF v f c r d] by blast
  have other: "op' \<noteq> op \<Longrightarrow> run_op op' st ?cr k = Inr k" for op' k
    by (rule run_op_other [OF v _ f])
  have "process_criterion st ?cr l = Inr l'"
    unfolding process_criterion_ops using l'(1) other by (cases op) (simp_all only: rbind_Inr crit_op.distinct not_False_eq_True)
  with l'(2) show ?thesis by blast
qed

lemma process_criterion_crit:
  assumes v: "value_ok (crit_value cr)" and r: "list_rel l xs" and d: "set xs \<subseteq> dom (files st)"
  shows "\<exists>l'. process_criterion st (crit_str cr) l = Inr l' \<and>
    list_rel l' (rev (filter (\<lambda>f. crit_holds cr (the_file st f)) xs))"
proof (cases cr)
  case (By_Name eq v)
  let ?op = "if eq then Eq else Neq"
  let ?P = "\<lambda>x. (filename x = v) = eq"
  have c: "crit_code ?op ''filename'' v = Some ?P"
    by (cases eq) (auto simp: crit_code_def)
  show ?thesis
    using process_criterion_one [OF _ _ c r d] assms(1) By_Name by simp
next
  case (By_Size op v)
  have c: "crit_code op ''filesize'' v = Some (size_test (op_rel op) v)"
    by (simp add: crit_code_def size_only_def)
  show ?thesis
    using process_criterion_one [OF _ _ c r d] assms(1) By_Size by simp
qed

section \<open>All criteria\<close>

definition select_rev :: "tracker \<Rightarrow> crit \<Rightarrow> fid list \<Rightarrow> fid list" where
  "select_rev st cr xs = rev (filter (\<lambda>f. crit_holds cr (the_file st f)) xs)"

lemma process_criterions_fold:
  assumes "\<forall>cr \<in> set crs. value_ok (crit_value cr)" and "list_rel l xs" and "set xs \<subseteq> dom (files st)"
  shows "\<exists>l'. fold_result (process_criterion st) (map crit_str crs) l = Inr l' \<and>
    list_rel l' (fold (select_rev st) crs xs)"
  using assms
proof (induction crs arbitrary: l xs)
  case Nil
  then show ?case by simp
next
  case (Cons cr crs)
  obtain l1 where l1: "process_criterion st (crit_str cr) l = Inr l1" "list_rel l1 (select_rev st cr xs)"
    using process_criterion_crit [OF _ Cons.prems(2,3), of cr] Cons.prems(1) by (auto simp: select_rev_def)
  have "set (select_rev st cr xs) \<subseteq> dom (files st)" using Cons.prems(3) by (auto simp: select_rev_def)
  then show ?case using Cons.IH [OF _ l1(2)] Cons.prems(1) l1(1) by simp
qed

lemma fold_select_rev:
  "set (fold (select_rev st) crs xs) = {f \<in> set xs. \<forall>cr \<in> set crs. crit_holds cr (the_file st f)}"
  "distinct xs \<Longrightarrow> distinct (fold (select_rev st) crs xs)"
proof (induction crs arbitrary: xs)
  case (Cons cr crs)
  {
    case 1
    then show ?case using Cons(1) [of "select_rev st cr xs"] by (auto simp: select_rev_def)
  next
    case 2
    then show ?case using Cons(2) [of "select_rev st cr xs"] by (simp add: select_rev_def)
  }
qed simp_all

section \<open>The answer\<close>

lemma join_snoc: "xs \<noteq> [] \<Longrightarrow> join d (xs @ [y]) = join d xs @ d @ y"
proof (induction d xs rule: join.induct)
  case (3 d x z ys)
  then show ?case by (cases ys) auto
qed simp_all

lemma build_file_list_fold:
  assumes "set xs \<subseteq> dom (files st)" and "i = length ys + 1" and "tmp = join '' '' ys"
  shows "fold_result
     (\<lambda>f (i, tmp). rbind (deref f) (\<lambda>f. rbind (load_file st f) (\<lambda>x.
         Inr (Suc i, snd (asprintf (tmp @ (if 1 < i then '' '' else '''') @ file_entry x))))))
     (map Some xs) (i, tmp) =
   Inr (i + length xs, join '' '' (ys @ map (\<lambda>f. file_entry (the_file st f)) xs))"
  using assms
proof (induction xs arbitrary: i tmp ys)
  case Nil
  then show ?case by simp
next
  case (Cons f xs)
  obtain x where x: "files st f = Some x" using Cons.prems(1) by auto
  have "tmp @ (if 1 < i then '' '' else '''') @ file_entry x = join '' '' (ys @ [file_entry x])"
    using Cons.prems(2,3) by (cases "ys = []") (simp_all add: join_snoc)
  then show ?case
    using Cons.IH [of "Suc i" "ys @ [file_entry x]"] Cons.prems x by (simp add: the_file_def)
qed

lemma build_file_list_rel:
  assumes r: "list_rel l xs" and d: "set xs \<subseteq> dom (files st)"
  shows "prot_look_build_file_list st l = Inr (join '' '' (map (\<lambda>f. file_entry (the_file st f)) xs))"
proof (cases "xs = []")
  case True
  then show ?thesis using list_size_rel [OF r] by (simp add: prot_look_build_file_list_def)
next
  case False
  let ?f = "\<lambda>f (i, tmp). rbind (deref f) (\<lambda>f. rbind (load_file st f) (\<lambda>x.
         Inr (Suc i, snd (asprintf (tmp @ (if 1 < i then '' '' else '''') @ file_entry x)))))"
  obtain l' where "list_iter list_get ?f 1 (list_size l) l (1 :: nat, []) =
      rbind (fold_result ?f (map Some xs) (1, [])) (\<lambda>s'. Inr (l', s'))"
    using li.iter_all [OF r, of ?f "(1 :: nat, [])"] by blast
  moreover have "fold_result ?f (map Some xs) (1, []) =
      Inr (1 + length xs, join '' '' ([] @ map (\<lambda>f. file_entry (the_file st f)) xs))"
    by (rule build_file_list_fold [OF d]) simp_all
  ultimately show ?thesis
    using False list_size_rel [OF r] by (simp add: prot_look_build_file_list_def)
qed

lemma strndup_mid: "req = u @ s @ v \<Longrightarrow> a = length u \<Longrightarrow> b = length u + length s \<Longrightarrow> strndup req (a, b) = s"
  by (simp add: strndup_def)

definition look_msg :: "string \<Rightarrow> string" where
  "look_msg criteria = ''['' @ criteria @ '']''"

definition list_response :: "tracker \<Rightarrow> fid list \<Rightarrow> string" where
  "list_response st fs = ''list ['' @ join '' '' (map (\<lambda>f. file_entry (the_file st f)) fs) @ '']'' @ [CHR 0x0A]"

lemma prot_look_answer:
  assumes inv: "files_inv st" and y: "client_mem st c = Some y"
    and t: "tokens '' '' s = map crit_str crs" and v: "\<forall>cr \<in> set crs. value_ok (crit_value cr)"
  shows "prot_look st c (look_msg s) =
    Inr (0, st\<lparr>sent := sent st @ [(socket y, list_response st
      (fold (select_rev st) crs (rev (map snd (ht_alist (file_by_hash st))))))]\<rparr>)"
proof -
  let ?xs = "rev (map snd (ht_alist (file_by_hash st)))"
  let ?ys = "fold (select_rev st) crs ?xs"
  obtain e where m: "regex_exec look_re (look_msg s) = Some [(0, e), (1, 1 + length s)]"
    using regex_look [of "[]" s] by (auto simp: look_msg_def bracket_free_def)
  have s: "strndup (look_msg s) (1, 1 + length s) = s"
    by (rule strndup_mid [of _ "''[''" s "'']''"]) (simp_all add: look_msg_def)
  note s' = s [simplified]
  obtain l where l: "file_list st = Inr l" "list_rel l ?xs" using file_list_rel(1) [OF inv] by blast
  have d: "set ?xs \<subseteq> dom (files st)" using file_list_rel(3) [OF inv] by auto
  obtain l' where l': "fold_result (process_criterion st) (map crit_str crs) l = Inr l'" "list_rel l' ?ys"
    using process_criterions_fold [OF v l(2) d] by blast
  have d': "set ?ys \<subseteq> dom (files st)" unfolding fold_select_rev(1) using d by blast
  have "prot_look_process_criterions st s = Inr l'"
    by (simp only: prot_look_process_criterions_def l(1) rbind_Inr string_split_tokens t l'(1))
  then show ?thesis
    by (simp add: prot_look_def m s' build_file_list_rel [OF l'(2) d'] y socket_write_string_def list_response_def)
qed

lemma look_selects:
  assumes "files_inv st" and "ys = fold (select_rev st) crs (rev (map snd (ht_alist (file_by_hash st))))"
  shows "distinct ys" and "set ys = {f. \<exists>x. files st f = Some x \<and> (\<forall>cr \<in> set crs. crit_holds cr x)}"
proof -
  show "distinct ys" using file_list_rel(2) [OF assms(1)] by (simp add: assms(2) fold_select_rev(2))
  have "set ys = {f \<in> dom (files st). \<forall>cr \<in> set crs. crit_holds cr (the_file st f)}"
    unfolding assms(2) fold_select_rev(1) file_list_rel(3) [OF assms(1), symmetric] by simp
  then show "set ys = {f. \<exists>x. files st f = Some x \<and> (\<forall>cr \<in> set crs. crit_holds cr x)}"
    by (auto simp: the_file_def)
qed

section \<open>Sizes\<close>

lemma dec_parse: "atol (dec n) = int n" if "n < 2 ^ 63"
proof -
  obtain a r where d: "dec n = a # r" using dec_nonempty by (cases "dec n") auto
  have all: "\<forall>c \<in> set (dec n). c_isdigit c" by (rule dec_digits)
  then have a: "\<not> c_isspace a" "a \<noteq> CHR ''-''" "a \<noteq> CHR ''+''" using d by (auto simp: c_isdigit_def c_isspace_def)
  have "dropWhile c_isspace (dec n) = dec n" using a d by simp
  moreover have "takeWhile c_isdigit (dec n) = dec n" using all by simp
  ultimately have "strtol10 (dec n) = max (- (2 ^ 63)) (min (2 ^ 63 - 1) (digits_value (dec n)))"
    using a d unfolding strtol10_def by simp
  then show ?thesis using that by (simp add: atol_def digits_value_dec)
qed

lemma size_test_dec:
  assumes "n < 2 ^ 63"
  shows "size_test (op_rel op) (dec n) x = op_rel op (flength x) (of_nat n)"
  using dec_parse [OF assms] by (simp add: size_test_def)

text \<open>A negative size is converted to \<open>uint64_t\<close> and exceeds every file size.\<close>

lemma size_test_negative: "size_test (op_rel Gt) ''-1'' x = False"
proof -
  have "atol ''-1'' = -1"
    by (simp add: atol_def strtol10_def c_isspace_def c_isdigit_def digits_value_def)
  then show ?thesis by (simp add: size_test_def)
qed

section \<open>A fault\<close>

text \<open>\<open>strstripc\<close> reads before an empty value.\<close>

lemma criterion_empty_value: "process_criterion st (''filename='' @ [CHR 0x22]) l = Inl Out_Of_Bounds"
proof -
  have "CHR 0x22 # [] = [CHR 0x22]" by simp
  show ?thesis
    by (simp add: process_criterion_def process_criterion_neq_def process_criterion_geq_def process_criterion_leq_def
      process_criterion_eq_def criterion_processor_def string_split2_pieces pieces.simps strstripc_def)
qed

section \<open>Properties\<close>

text \<open>
  C6: A look request with any number of well-formed criteria gets one answer, a list of exactly the
  files that meet every criterion, each of them once; nothing else of the state changes.
\<close>

theorem look_answers:
  assumes "files_inv st" and "client_mem st c = Some y"
    and "tokens '' '' s = map crit_str crs" and "\<forall>cr \<in> set crs. value_ok (crit_value cr)"
  shows "\<exists>fs. prot_look st c (look_msg s) = Inr (0, st\<lparr>sent := sent st @ [(socket y, list_response st fs)]\<rparr>) \<and>
    distinct fs \<and> set fs = {f. \<exists>x. files st f = Some x \<and> (\<forall>cr \<in> set crs. crit_holds cr x)}"
  using prot_look_answer [OF assms] look_selects [OF assms(1) refl, of crs] by blast

lemma look_answers_witness:
  "\<exists>c st0 st y fs. client_get_or_create tracker_init (Some demo_peer) 4 = Inr (Some c, st0) \<and>
    prot_announce st0 c (announce_msg ''2222'' demo_seed []) = Inr (0, st) \<and> client_mem st c = Some y \<and>
    prot_look st c (look_msg (''filesize>='' @ CHR 0x22 # ''1024'' @ [CHR 0x22])) =
      Inr (0, st\<lparr>sent := sent st @ [(socket y, list_response st fs)]\<rparr>) \<and>
    set fs = {f. \<exists>x. files st f = Some x \<and> crit_holds (By_Size Geq ''1024'') x}"
proof -
  obtain c st0 st y where s: "client_get_or_create tracker_init (Some demo_peer) 4 = Inr (Some c, st0)"
      "prot_announce st0 c (announce_msg ''2222'' demo_seed []) = Inr (0, st)" "tracker_inv st" "client_mem st c = Some y"
    using demo_announced by blast
  let ?w = "''filesize>='' @ CHR 0x22 # ''1024'' @ [CHR 0x22]"
  have "tokens [CHR '' ''] (join [CHR '' ''] [?w]) = [?w]" by (rule tokens_join) (simp add: is_token_def)
  then have t: "tokens '' '' ?w = map crit_str [By_Size Geq ''1024'']" by simp
  have i: "files_inv st" using s(3) by (simp add: tracker_inv_def)
  from look_answers [OF i s(4) t] obtain fs where
    "prot_look st c (look_msg ?w) = Inr (0, st\<lparr>sent := sent st @ [(socket y, list_response st fs)]\<rparr>)"
    "set fs = {f. \<exists>x. files st f = Some x \<and> (\<forall>cr \<in> set [By_Size Geq ''1024'']. crit_holds cr x)}"
    by (auto simp: value_ok_def)
  moreover from this(2) have "set fs = {f. \<exists>x. files st f = Some x \<and> crit_holds (By_Size Geq ''1024'') x}" by simp
  ultimately show ?thesis using s(1,2,4) by blast
qed

text \<open>
  A size criterion with a decimal value below \<open>2 ^ 63\<close> compares the size with that number; the
  comparison is unsigned, so that no file is larger than \<open>-1\<close>.
\<close>

theorem size_criterion_unsigned:
  assumes "n < 2 ^ 63"
  shows "size_test (op_rel op) (dec n) x = op_rel op (flength x) (of_nat n) \<and> \<not> size_test (op_rel Gt) ''-1'' x"
  using size_test_dec [OF assms] size_test_negative by blast

lemma size_criterion_unsigned_witness:
  "\<forall>x. size_test (op_rel Geq) (dec 1024) x = (of_nat 1024 \<le> flength x) \<and> \<not> size_test (op_rel Gt) ''-1'' x"
proof
  fix x
  show "size_test (op_rel Geq) (dec 1024) x = (of_nat 1024 \<le> flength x) \<and> \<not> size_test (op_rel Gt) ''-1'' x"
    using size_criterion_unsigned [of 1024 Geq x] by simp
qed

text \<open>
  A criterion whose value is missing (\<open>filename="\<close>) makes \<open>strstripc\<close> look at the byte before
  the empty value.
\<close>

theorem criterion_without_value:
  "process_criterion st (''filename='' @ [CHR 0x22]) l = Inl Out_Of_Bounds"
  by (rule criterion_empty_value)

end
