(* ===== verification/Requests.thy ===== *)
theory Requests
  imports Look
begin

text \<open>
  What \<open>getfile\<close> answers, how a request line is taken apart, and what a whole request does: it
  keeps the invariant, answers once, and gives back the reference the thread held.
\<close>

section \<open>Getfile\<close>

text \<open>The addresses listed for a file, without the asking client, in the order of the table.\<close>

definition peer_addrs :: "cid \<Rightarrow> cid hash_table \<Rightarrow> string list" where
  "peer_addrs c h = map fst (filter (\<lambda>(k, d). d \<noteq> c) (ht_alist h))"

lemma build_list_fold:
  assumes "\<forall>(k, d) \<in> set al. d \<noteq> c \<longrightarrow> (\<exists>z. client_mem st d = Some z \<and> listen_addr_key z = Some k)"
  shows "fold (\<lambda>(k, d). build_list st c d) al (Inr out) =
    Inr (out @ concat (map (\<lambda>k. CHR '' '' # k) (map fst (filter (\<lambda>(k, d). d \<noteq> c) al))))"
  using assms
proof (induction al arbitrary: out)
  case Nil
  then show ?case by simp
next
  case (Cons kd al)
  obtain k d where kd: "kd = (k, d)" by force
  have al: "\<forall>(k, d) \<in> set al. d \<noteq> c \<longrightarrow> (\<exists>z. client_mem st d = Some z \<and> listen_addr_key z = Some k)"
    using Cons.prems by auto
  show ?case
  proof (cases "d = c")
    case True
    then show ?thesis using Cons.IH [OF al] by (simp add: kd build_list_def)
  next
    case False
    then obtain z where "client_mem st d = Some z" "listen_addr_key z = Some k"
      using Cons.prems by (auto simp: kd)
    then show ?thesis
      using False Cons.IH [OF al, of "out @ CHR '' '' # k"] by (simp add: kd build_list_def fmt_s_def)
  qed
qed

lemma build_list_fault: "fold (\<lambda>(k, d). build_list st c d) al (Inl e) = Inl e"
  by (induction al) (auto simp: build_list_def)

text \<open>A listed client that has been freed is read.\<close>

lemma build_list_dangling:
  assumes "(k, d) \<in> set al" and "d \<noteq> c" and "client_mem st d = None"
  shows "fold (\<lambda>(k, d). build_list st c d) al (Inr out) = Inl Use_After_Free"
  using assms(1)
proof (induction al arbitrary: out)
  case Nil
  then show ?case by simp
next
  case (Cons ie al)
  obtain i e where ie: "ie = (i, e)" by force
  show ?case
  proof (cases "e \<noteq> c \<and> client_mem st e = None")
    case True
    then have "build_list st c e (Inr out) = Inl Use_After_Free"
      by (simp add: build_list_def load_client_def)
    then show ?thesis by (simp add: ie build_list_fault)
  next
    case False
    then have "(k, d) \<in> set al" using Cons.prems assms(2,3) ie by auto
    moreover obtain out' where "build_list st c e (Inr out) = Inr out'"
    proof (cases "e = c")
      case True
      then show ?thesis using that by (simp add: build_list_def)
    next
      case ne: False
      then obtain z where "client_mem st e = Some z" using False by (cases "client_mem st e") auto
      then show ?thesis using that ne by (simp add: build_list_def)
    qed
    ultimately show ?thesis using Cons.IH by (simp add: ie)
  qed
qed

definition peers_response :: "string \<Rightarrow> string list \<Rightarrow> string" where
  "peers_response key ads =
     ''peers '' @ key @ '' ['' @ concat (map (\<lambda>k. CHR '' '' # k) ads) @ '']'' @ [CHR 0x0A]"

lemma peers_alist:
  "files_inv st \<Longrightarrow> files st f = Some x \<Longrightarrow> (k, d) \<in> set (ht_alist (fclients x)) \<longleftrightarrow> peers st f k = Some d"
  using ht_map_mem [OF files_inv_map] by (simp add: peers_def)

lemma prot_getfile_known:
  assumes inv: "files_inv st" and ok: "peers_ok st" and y: "client_mem st c = Some y"
    and x: "files st f = Some x" "md5_str x = str_trim_prot_getfile req"
    and n: "length (str_trim_prot_getfile req) = keyhash_strsize"
  shows "prot_getfile st c req =
    Inr (0, st\<lparr>sent := sent st @ [(socket y, peers_response (str_trim_prot_getfile req) (peer_addrs c (fclients x)))]\<rparr>)"
proof -
  let ?key = "str_trim_prot_getfile req"
  have "file_get_by_key st ?key = Some f" using file_get_by_key_Some [OF inv] x by blast
  moreover have "\<forall>(k, d) \<in> set (ht_alist (fclients x)). d \<noteq> c \<longrightarrow> (\<exists>z. client_mem st d = Some z \<and> listen_addr_key z = Some k)"
    using ok peers_alist [OF inv x(1)] unfolding peers_ok_def by blast
  then have "prot_getfile_build_peer_string_list st c (fclients x) =
      Inr (concat (map (\<lambda>k. CHR '' '' # k) (peer_addrs c (fclients x))))"
    using build_list_fold [of "ht_alist (fclients x)" c st "[]"]
    by (simp add: prot_getfile_build_peer_string_list_def ht_for_each_alist peer_addrs_def)
  ultimately show ?thesis
    using n x(1) y by (simp add: prot_getfile_def Let_def socket_write_string_def peers_response_def)
qed

lemma peer_addrs_spec:
  assumes "files_inv st" and "files st f = Some x"
  shows "distinct (peer_addrs c (fclients x))"
    and "set (peer_addrs c (fclients x)) = {k. \<exists>d. peers st f k = Some d \<and> d \<noteq> c}"
proof -
  have "distinct (map fst (ht_alist (fclients x)))"
    using files_inv_map [OF assms] by (simp add: ht_map_def)
  then show "distinct (peer_addrs c (fclients x))"
    by (simp add: peer_addrs_def distinct_map_filter)
  show "set (peer_addrs c (fclients x)) = {k. \<exists>d. peers st f k = Some d \<and> d \<noteq> c}"
    using peers_alist [OF assms] by (force simp: peer_addrs_def)
qed

lemma prot_getfile_unknown:
  assumes "files_inv st" and y: "client_mem st c = Some y"
    and "\<forall>f x. files st f = Some x \<longrightarrow> md5_str x \<noteq> str_trim_prot_getfile req"
    and n: "length (str_trim_prot_getfile req) = keyhash_strsize"
  shows "prot_getfile st c req =
    Inr (0, st\<lparr>sent := sent st @ [(socket y, peers_response (str_trim_prot_getfile req) [])]\<rparr>)"
proof -
  have "file_get_by_key st (str_trim_prot_getfile req) = None"
    using file_get_by_key_None [OF assms(1)] assms(3) by blast
  then show ?thesis
    using n y by (simp add: prot_getfile_def Let_def socket_write_string_def peers_response_def)
qed

lemma prot_getfile_bad_key:
  "length (str_trim_prot_getfile req) \<noteq> keyhash_strsize \<Longrightarrow> prot_getfile st c req = Inr (-1, st)"
  by (simp add: prot_getfile_def Let_def)

lemma prot_getfile_dangling:
  assumes inv: "files_inv st" and "peers st f k = Some d" and "client_mem st d = None" and "d \<noteq> c"
    and x: "files st f = Some x" "md5_str x = str_trim_prot_getfile req"
    and n: "length (str_trim_prot_getfile req) = keyhash_strsize"
  shows "prot_getfile st c req = Inl Use_After_Free"
proof -
  have "file_get_by_key st (str_trim_prot_getfile req) = Some f" using file_get_by_key_Some [OF inv] x by blast
  moreover have "(k, d) \<in> set (ht_alist (fclients x))" using peers_alist [OF inv x(1)] assms(2) by blast
  then have "prot_getfile_build_peer_string_list st c (fclients x) = Inl Use_After_Free"
    using build_list_dangling assms(3,4)
    by (simp add: prot_getfile_build_peer_string_list_def ht_for_each_alist)
  ultimately show ?thesis using n x(1) by (simp add: prot_getfile_def Let_def)
qed

section \<open>Taking a request line apart\<close>

definition handler_names :: "(string \<times> req_handler) list" where
  "handler_names = [(''announce'', Prot_Announce), (''update'', Prot_Update), (''look'', Prot_Look), (''getfile'', Prot_Getfile)]"

lemma request_handlers_map: "ht_map request_handlers" "ht_alist request_handlers = handler_names"
proof -
  have "ht_inv request_handlers \<and> ht_alist request_handlers = handler_names"
    unfolding request_handlers_def handler_names_def by (simp add: ht_add_entry_inv)
  then show "ht_map request_handlers" "ht_alist request_handlers = handler_names"
    by (auto simp: ht_map_def handler_names_def)
qed

lemma get_request_handler_word:
  assumes "CHR '' '' \<notin> set w" and "CHR 0x0A \<notin> set w" and "CHR 0x00 \<notin> set w"
  shows "get_request_handler w = map_of handler_names w"
proof -
  have c: "c_string w = w" unfolding c_string_def using assms(3) by (induction w) auto
  have "str_replace_char w (CHR '' '') (CHR 0x00) = w"
    unfolding str_replace_char_nul c using assms(1) by (induction w) auto
  moreover have "str_replace_char w (CHR 0x0A) (CHR 0x00) = w"
    unfolding str_replace_char_nul c using assms(2) by (induction w) auto
  ultimately show ?thesis
    by (simp add: get_request_handler_def Let_def ht_get_map [OF request_handlers_map(1)] request_handlers_map(2)
        split: option.splits)
qed

lemma scan_request_line:
  assumes "w \<noteq> []" and "\<forall>c \<in> set w. \<not> c_isspace c" and "v \<noteq> []" and "\<not> c_isspace (hd v)"
  shows "scan_request (w @ CHR '' '' # v) = Some (w, v)"
proof -
  have sp: "c_isspace (CHR '' '')" by (simp add: c_isspace_def)
  obtain a w' where w: "w = a # w'" using assms(1) by (cases w) auto
  obtain b v' where v: "v = b # v'" using assms(3) by (cases v) auto
  have "dropWhile c_isspace (w @ CHR '' '' # v) = w @ CHR '' '' # v" using assms(2) by (simp add: w)
  moreover have "takeWhile (\<lambda>c. \<not> c_isspace c) (w @ CHR '' '' # v) = w"
    using assms(2) sp by (simp add: takeWhile_append)
  moreover have "dropWhile c_isspace (CHR '' '' # v) = v" using assms(4) sp by (simp add: v)
  ultimately show ?thesis using assms(1) by (simp add: scan_request_def Let_def)
qed

lemma scan_request_blank:
  assumes "\<forall>c \<in> set s. c_isspace c"
  shows "scan_request s = None"
proof -
  have "dropWhile c_isspace s = []" using assms by simp
  then show ?thesis by (simp only: scan_request_def Let_def takeWhile.simps) simp
qed

section \<open>Every request that does not fault\<close>

lemma file_get_or_create_Inr:
  assumes inv: "files_inv st" and e: "file_get_or_create st name len psize md5 = Inr (f, st')"
  shows "files_inv st' \<and> files_grow st st' \<and> (\<exists>x. files st' f = Some x \<and> md5_str x = md5) \<and>
    dom (files st') = insert f (dom (files st))"
proof (cases "psize = 0")
  case True
  then have "file_get_by_key st md5 = Some f \<and> st' = st"
    using e by (auto simp: file_get_or_create_def file_new_zero split: option.splits)
  then show ?thesis using inv file_get_by_key_Some [OF inv, of md5 f] by auto
next
  case False
  from file_get_or_create_spec [OF inv this, of name len md5] e show ?thesis
    unfolding files_grow_def by auto
qed

lemma seed_file_loop_Inr:
  assumes "files_inv st" and "list_rel l xs" and "seed_file_loop st l tab = Inr (l', st')"
  shows "\<exists>fs. list_rel l' (xs @ fs) \<and> files_inv st' \<and> files_grow st st' \<and> have_keys st' fs (seed_keys tab) \<and>
    dom (files st') = dom (files st) \<union> set fs"
  using assms
proof (induction tab arbitrary: st l xs rule: quads.induct)
  case (1 name len psize key tab)
  obtain f st1 where s1: "file_get_or_create st name (word_of_int (atol len)) (word_of_int (atoi psize)) key = Inr (f, st1)"
    and r: "rbind (list_append l f) (\<lambda>l'. seed_file_loop st1 l' tab) = Inr (l', st')"
    using "1.prems"(3) by (auto simp: rbind_eq_Inr_iff)
  from file_get_or_create_Inr [OF "1.prems"(1) s1] obtain x where x: "files_inv st1" "files_grow st st1"
      "files st1 f = Some x" "md5_str x = key" "dom (files st1) = insert f (dom (files st))" by blast
  obtain l1 where l1: "list_append l f = Inr l1" "list_rel l1 (xs @ [f])"
    using list_append_rel [OF "1.prems"(2), of f] by blast
  have "seed_file_loop st1 l1 tab = Inr (l', st')" using r l1(1) by simp
  from "1.IH" [OF x(1) l1(2) this] obtain fs where s2: "list_rel l' ((xs @ [f]) @ fs)" "files_inv st'"
      "files_grow st1 st'" "have_keys st' fs (seed_keys tab)" "dom (files st') = dom (files st1) \<union> set fs"
    by blast
  have "have_keys st' (f # fs) (seed_keys (name # len # psize # key # tab))"
    using s2(3,4) x(3,4) by (auto simp: have_keys_def files_grow_def seed_keys_def)
  moreover have "dom (files st') = dom (files st) \<union> set (f # fs)" using s2(5) x(5) by auto
  moreover have "list_rel l' (xs @ f # fs)" using s2(1) by simp
  ultimately show ?case using s2(2) files_grow_trans [OF x(2) s2(3)] by blast
qed (auto simp: seed_keys_def have_keys_def)

lemma get_seed_file_list_Inr:
  assumes inv: "files_inv st" and e: "get_seed_file_list st s = Inr (l, st')"
  shows "\<exists>fs. list_rel l fs \<and> files_inv st' \<and> files_grow st st' \<and> have_keys st' fs (seed_list_keys s) \<and>
    dom (files st') = dom (files st) \<union> set fs"
proof (cases "length (tokens '' '' s) mod 4 = 0")
  case True
  then have "seed_file_loop st (list_new False) (tokens '' '' s) = Inr (l, st')"
    using e by (simp add: get_seed_file_list_def string_split_tokens)
  from seed_file_loop_Inr [OF inv list_new_rel this] True show ?thesis by (simp add: seed_list_keys_def)
next
  case False
  then have "l = list_new False \<and> st' = st" using e by (simp add: get_seed_file_list_def string_split_tokens)
  then show ?thesis
    using False inv list_new_rel [of False]
    by (auto simp: seed_list_keys_def have_keys_def intro!: exI [of _ "[]"])
qed

text \<open>What every handler keeps: all clients but the caller's lists and port, and what was sent.\<close>

definition same_identity :: "client \<Rightarrow> client \<Rightarrow> bool" where
  "same_identity y y' \<longleftrightarrow> socket y' = socket y \<and> addr y' = addr y \<and> conn_addr_key y' = conn_addr_key y \<and>
     ref_count y' = ref_count y \<and> can_rehear y' = can_rehear y"

definition handler_post :: "tracker \<Rightarrow> cid \<Rightarrow> client \<Rightarrow> tracker \<Rightarrow> bool" where
  "handler_post st c y st' \<longleftrightarrow> tracker_inv st' \<and> clients st' = clients st \<and>
     dom (files st) \<subseteq> dom (files st') \<and>
     (\<exists>y'. client_mem st' = (client_mem st)(c \<mapsto> y') \<and> same_identity y y')"

lemma handler_post_refl: "tracker_inv st \<Longrightarrow> client_mem st c = Some y \<Longrightarrow> handler_post st c y st"
  by (auto simp: handler_post_def same_identity_def fun_upd_idem intro!: exI [of _ y])

lemma handler_post_sent [simp]: "handler_post st c y (st'\<lparr>sent := w\<rparr>) = handler_post st c y st'"
  by (simp add: handler_post_def)

lemma add_loop_no_key:
  assumes r: "list_rel l xs" and c: "client_mem st c = Some y" "listen_addr_key y = None"
    and d: "set xs \<subseteq> dom (files st)" and e: "list_each_r l (add_client_to c) st = Inr (l', st')"
  shows "xs = [] \<and> st' = st \<and> list_rel l' []"
proof -
  obtain k where k: "list_rel k xs" "list_each_r l (add_client_to c) st =
      rbind (fold_result (add_client_to c) (map Some xs) st) (\<lambda>s'. Inr (k, s'))"
    using list_each_r_rel [OF r, of "add_client_to c" st] by blast
  show ?thesis
  proof (cases xs)
    case Nil
    then show ?thesis using k e by simp
  next
    case (Cons f fs)
    then obtain x where "files st f = Some x" using d by auto
    then have "add_client_to c (Some f) st = Inl Null_Deref"
      using file_add_client_no_key [OF _ c] by (simp add: add_client_to_def)
    then show ?thesis using k(2) e Cons by simp
  qed
qed

lemma seed_leech_Inr:
  assumes inv: "tracker_inv st" and y: "client_mem st c = Some y"
    and e: "seed_leech_match_and_parse st c req pm = Inr st'"
  shows "handler_post st c y st' \<and> sent st' = sent st"
proof -
  let ?s = "strndup req (pm ! 1)"
  have fi: "files_inv st" using inv by (simp add: tracker_inv_def)
  have fr: "list_free_call (files_seed y) = Inr ()" "list_free_call (files_leech y) = Inr ()"
    using tracker_inv_client [OF inv y] unfolding client_ok_def by (auto simp: list_free_call_rel)
  obtain l1 st1 l2 l1' st3 l2' st4 where s1: "get_seed_file_list st ?s = Inr (l1, st1)"
    and l2: "get_leech_file_list st1 (strndup req (pm ! 2)) = Inr l2"
    and s3: "list_each_r l1 (add_client_to c) (store_client st1 c (y\<lparr>files_seed := l1, files_leech := l2\<rparr>)) = Inr (l1', st3)"
    and s4: "list_each_r l2 (add_client_to c) st3 = Inr (l2', st4)"
    and st': "st' = store_client st4 c (y\<lparr>files_seed := l1', files_leech := l2'\<rparr>)"
    using e y fr by (auto simp: seed_leech_match_and_parse_def Let_def rbind_eq_Inr_iff)
  from get_seed_file_list_Inr [OF fi s1] obtain fs where p: "list_rel l1 fs" "files_inv st1" "files_grow st st1"
      "have_keys st1 fs (seed_list_keys ?s)" "dom (files st1) = dom (files st) \<union> set fs"
    by blast
  show ?thesis
  proof (cases "listen_addr_key y")
    case (Some k)
    from seed_leech_core [OF inv y Some s1 p] e show ?thesis
      by (auto simp: handler_post_def same_identity_def)
  next
    case None
    define st2 where "st2 = store_client st1 c (y\<lparr>files_seed := l1, files_leech := l2\<rparr>)"
    have y2: "client_mem st2 c = Some (y\<lparr>files_seed := l1, files_leech := l2\<rparr>)"
        "listen_addr_key (y\<lparr>files_seed := l1, files_leech := l2\<rparr>) = None"
      by (simp_all add: st2_def store_client_frame None)
    have fst2: "files st2 = files st1" by (simp add: st2_def store_client_frame)
    have r2: "list_rel l2 (known_files st1 (tokens '' '' (strndup req (pm ! 2))))"
      using get_leech_file_list_spec [of st1 "strndup req (pm ! 2)"] l2 by auto
    have "set fs \<subseteq> dom (files st2)" using p(5) fst2 by auto
    from add_loop_no_key [OF p(1) y2 this] s3 have e3: "fs = []" "st3 = st2" "list_rel l1' []"
      by (auto simp: st2_def)
    have "set (known_files st1 (tokens '' '' (strndup req (pm ! 2)))) \<subseteq> dom (files st2)"
      using known_files_dom [OF p(2)] fst2 by simp
    from add_loop_no_key [OF r2 y2 this] s4 e3 have e4: "st4 = st2" "list_rel l2' []" by auto
    define y' where "y' = y\<lparr>files_seed := l1', files_leech := l2'\<rparr>"
    have st'2: "st' = store_client st1 c y'"
      by (simp add: st' e4(1) st2_def y'_def store_client_def)
    have sc: "same_clients st st1" using p(3) by (simp add: files_grow_def)
    have "clients_inv st1"
      using clients_inv_frame [OF _ sc] inv p(5) by (auto simp: tracker_inv_def)
    then have inv1: "tracker_inv st1" using p(2) by (simp add: tracker_inv_def)
    have y1: "client_mem st1 c = Some y" using sc y by (simp add: same_clients_def)
    have "client_ok st1 y'"
      using tracker_inv_client [OF inv1 y1] e3(3) e4(2) by (auto simp: client_ok_def shared_def held_rel y'_def)
    then have "tracker_inv st'"
      unfolding st'2 by (intro tracker_inv_upd [OF inv1 y1]) (simp_all add: y'_def)
    moreover have "clients st' = clients st" "sent st' = sent st" "client_mem st' = (client_mem st)(c \<mapsto> y')"
      using sc by (simp_all add: st'2 same_clients_def store_client_def)
    moreover have "dom (files st) \<subseteq> dom (files st')" using p(5) by (simp add: st'2 store_client_frame)
    ultimately show ?thesis by (auto simp: handler_post_def same_identity_def y'_def)
  qed
qed

lemma handler_post_socket:
  assumes "handler_post st c y st'"
  shows "\<exists>y'. client_mem st' c = Some y' \<and> socket y' = socket y \<and> ref_count y' = ref_count y"
  using assms by (auto simp: handler_post_def same_identity_def)

lemma handler_post_trans:
  assumes "handler_post st c y st1" and "client_mem st1 c = Some y1" and "handler_post st1 c y1 st2"
  shows "handler_post st c y st2"
  using assms by (auto simp: handler_post_def same_identity_def)

text \<open>A handler either answers itself and returns 0, or returns -1 and leaves the answer to its caller.\<close>

definition handler_answer :: "tracker \<Rightarrow> client \<Rightarrow> int \<Rightarrow> tracker \<Rightarrow> bool" where
  "handler_answer st y r st' \<longleftrightarrow>
     (r = 0 \<and> (\<exists>msg. sent st' = sent st @ [(socket y, msg)])) \<or> (r = -1 \<and> st' = st)"

lemma parsed_answer:
  assumes "handler_post st c y st1" and "sent st1 = sent st"
  shows "\<exists>y1. load_client st1 c = Inr y1 \<and> handler_post st c y (write_ok st1 (socket y1)) \<and>
    handler_answer st y 0 (write_ok st1 (socket y1))"
proof -
  obtain y1 where "client_mem st1 c = Some y1" "socket y1 = socket y"
    using handler_post_socket [OF assms(1)] by blast
  then show ?thesis
    using assms by (auto simp: sent_write_ok handler_answer_def)
qed

lemma prot_announce_Inr:
  assumes inv: "tracker_inv st" and y: "client_mem st c = Some y" and e: "prot_announce st c req = Inr (r, st')"
  shows "handler_post st c y st' \<and> handler_answer st y r st'"
proof (cases "regex_exec announce_re req")
  case None
  then show ?thesis
    using e handler_post_refl [OF inv y] by (auto simp: prot_announce_def handler_answer_def)
next
  case (Some pm)
  let ?port = "word_of_int (atoi (drop (fst (pm ! 1)) req))"
  obtain st1 y1 where s1: "client_set_listening_port st c ?port = Inr st1" "tracker_inv st1" "same_files st st1"
      "st1 = store_client st c y1" "y1 = y\<lparr>listening_port := ?port, listen_addr_key := Some (listen_key (addr y) ?port)\<rparr>"
    using client_set_listening_port_spec [OF inv y, of ?port] by blast
  obtain st2 where s2: "seed_leech_match_and_parse st1 c req (tl (pm[1 := pm ! 0])) = Inr st2"
    and r: "rbind (load_client st2 c) (\<lambda>y. Inr (0, write_ok st2 (socket y))) = Inr (r, st')"
    using e s1(1) by (auto simp: prot_announce_def Some announce_match_and_parse_def rbind_eq_Inr_iff)
  have y1: "client_mem st1 c = Some y1" by (simp add: s1(4) store_client_frame)
  have "handler_post st c y st1"
    using s1(2) by (auto simp: handler_post_def s1(4,5) store_client_frame same_identity_def)
      (simp_all add: store_client_def)
  moreover have p2: "handler_post st1 c y1 st2" "sent st2 = sent st1" using seed_leech_Inr [OF s1(2) y1 s2] by auto
  ultimately have "handler_post st c y st2" using handler_post_trans y1 by blast
  moreover have "sent st2 = sent st" by (simp add: p2(2) s1(4) store_client_frame)
  ultimately show ?thesis using parsed_answer r by fastforce
qed

lemma prot_update_Inr:
  assumes inv: "tracker_inv st" and y: "client_mem st c = Some y" and e: "prot_update st c req = Inr (r, st')"
  shows "handler_post st c y st' \<and> handler_answer st y r st'"
proof (cases "regex_exec update_re req")
  case None
  then show ?thesis
    using e handler_post_refl [OF inv y] by (auto simp: prot_update_def handler_answer_def)
next
  case (Some pm)
  obtain st2 where s2: "seed_leech_match_and_parse st c req pm = Inr st2"
    and r: "rbind (load_client st2 c) (\<lambda>y. Inr (0, write_ok st2 (socket y))) = Inr (r, st')"
    using e by (auto simp: prot_update_def Some update_match_and_parse_def rbind_eq_Inr_iff)
  show ?thesis using parsed_answer [of st c y st2] seed_leech_Inr [OF inv y s2] r by fastforce
qed

lemma prot_look_Inr:
  assumes inv: "tracker_inv st" and y: "client_mem st c = Some y" and e: "prot_look st c req = Inr (r, st')"
  shows "handler_post st c y st' \<and> handler_answer st y r st'"
  using e handler_post_refl [OF inv y] y
  by (auto simp: prot_look_def handler_answer_def rbind_eq_Inr_iff socket_write_string_def split: option.splits)

lemma prot_getfile_Inr:
  assumes inv: "tracker_inv st" and y: "client_mem st c = Some y" and e: "prot_getfile st c req = Inr (r, st')"
  shows "handler_post st c y st' \<and> handler_answer st y r st'"
  using e handler_post_refl [OF inv y] y
  by (auto simp: prot_getfile_def Let_def handler_answer_def rbind_eq_Inr_iff socket_write_string_def split: if_splits)

lemmas handler_Inr = prot_announce_Inr prot_update_Inr prot_look_Inr prot_getfile_Inr

lemma run_handler_Inr:
  "tracker_inv st \<Longrightarrow> client_mem st c = Some y \<Longrightarrow> run_handler h st c v = Inr (r, st') \<Longrightarrow>
   handler_post st c y st' \<and> handler_answer st y r st'"
  by (cases h) (simp_all add: handler_Inr)

definition one_answer :: "tracker \<Rightarrow> client \<Rightarrow> tracker \<Rightarrow> bool" where
  "one_answer st y st' \<longleftrightarrow> (\<exists>msg. sent st' = sent st @ [(socket y, msg)])"

lemma negative_answer_post:
  "handler_post st c y st1 \<Longrightarrow> sent st1 = sent st \<Longrightarrow>
   handler_post st c y (negative_answer st1 (socket y)) \<and> one_answer st y (negative_answer st1 (socket y))"
  by (auto simp: sent_negative_answer one_answer_def)

lemma get_and_call_handler_Inr:
  assumes inv: "tracker_inv st" and y: "client_mem st c = Some y" and e: "get_and_call_handler st c name v = Inr st'"
  shows "handler_post st c y st' \<and> one_answer st y st'"
proof (cases "get_request_handler name")
  case None
  then have "st' = negative_answer st (socket y)" using e y by (simp add: get_and_call_handler_def)
  then show ?thesis using negative_answer_post [OF handler_post_refl [OF inv y]] by simp
next
  case (Some h)
  obtain r st1 where s1: "run_handler h st c v = Inr (r, st1)"
    and r: "(if r < 0 then rbind (load_client st1 c) (\<lambda>y. Inr (negative_answer st1 (socket y))) else Inr st1) = Inr st'"
    using e by (auto simp: get_and_call_handler_def Some rbind_eq_Inr_iff)
  from run_handler_Inr [OF inv y s1] have p: "handler_post st c y st1" "handler_answer st y r st1" by auto
  show ?thesis
  proof (cases "r = 0")
    case True
    then show ?thesis using p r by (auto simp: handler_answer_def one_answer_def)
  next
    case False
    then have "r = -1" "st1 = st" using p(2) by (auto simp: handler_answer_def)
    then show ?thesis using negative_answer_post [OF handler_post_refl [OF inv y]] r y by simp
  qed
qed

lemma handle_request_Inr:
  assumes inv: "tracker_inv st" and y: "client_mem st c = Some y" and e: "handle_request st c input = Inr st'"
  shows "tracker_inv st' \<and> one_answer st y st' \<and> dom (files st) \<subseteq> dom (files st') \<and>
    (\<forall>d. d \<noteq> c \<longrightarrow> client_mem st' d = client_mem st d) \<and>
    (if 1 < ref_count y then \<exists>z. client_mem st' c = Some z \<and> ref_count z = ref_count y - 1 \<and> can_rehear z \<and> socket z = socket y
     else client_mem st' c = None)"
proof -
  obtain rd buf where input: "input = (rd, buf)" by force
  have "\<exists>st2. handler_post st c y st2 \<and> one_answer st y st2 \<and>
      rbind (load_client st2 c) (\<lambda>y2. client_dec_ref (store_client st2 c (y2\<lparr>can_rehear := True\<rparr>)) (Some c)) = Inr st'"
  proof (cases "0 < rd \<and> scan_request (c_string buf) \<noteq> None")
    case True
    then obtain name v where sc: "scan_request (c_string buf) = Some (name, v)" by auto
    obtain st2 where "get_and_call_handler st c name v = Inr st2"
      and r: "rbind (load_client st2 c) (\<lambda>y2. client_dec_ref (store_client st2 c (y2\<lparr>can_rehear := True\<rparr>)) (Some c)) = Inr st'"
      using e y True sc by (auto simp: handle_request_def read_request_def input Let_def rbind_eq_Inr_iff)
    with get_and_call_handler_Inr [OF inv y] show ?thesis by blast
  next
    case False
    then have "rbind (load_client (negative_answer st (socket y)) c)
        (\<lambda>y2. client_dec_ref (store_client (negative_answer st (socket y)) c (y2\<lparr>can_rehear := True\<rparr>)) (Some c)) = Inr st'"
      using e y by (auto simp: handle_request_def read_request_def input Let_def split: if_splits option.splits)
    then show ?thesis using negative_answer_post [OF handler_post_refl [OF inv y] refl] by blast
  qed
  then obtain st2 where p: "handler_post st c y st2" "one_answer st y st2"
    and r: "rbind (load_client st2 c) (\<lambda>y2. client_dec_ref (store_client st2 c (y2\<lparr>can_rehear := True\<rparr>)) (Some c)) = Inr st'"
    by blast
  obtain y2 where y2: "client_mem st2 = (client_mem st)(c \<mapsto> y2)" "same_identity y y2"
    using p(1) by (auto simp: handler_post_def)
  have inv2: "tracker_inv st2" and df: "dom (files st) \<subseteq> dom (files st2)" using p(1) by (auto simp: handler_post_def)
  let ?y3 = "y2\<lparr>can_rehear := True\<rparr>"
  have y2c: "client_mem st2 c = Some y2" by (simp add: y2(1))
  define st3 where "st3 = store_client st2 c ?y3"
  have inv3: "tracker_inv st3"
    unfolding st3_def using tracker_inv_client [OF inv2 y2c] by (intro tracker_inv_upd [OF inv2 y2c]) simp_all
  have y3: "client_mem st3 c = Some ?y3" by (simp add: st3_def store_client_frame)
  have d: "client_dec_ref st3 (Some c) = Inr st'" using r y2c by (simp add: st3_def)
  have s: "tracker_inv st'" "same_files st3 st'" "sent st' = sent st3"
    "client_mem st' = (client_mem st3)(c := if 1 < ref_count ?y3 then Some (?y3\<lparr>ref_count := ref_count ?y3 - 1\<rparr>) else None)"
    using client_dec_ref_spec [OF inv3 y3] d by auto
  have "one_answer st y st'" using p(2) by (simp add: one_answer_def s(3) st3_def store_client_frame)
  moreover have "dom (files st) \<subseteq> dom (files st')" using df same_files_dom [OF s(2)] by (simp add: st3_def store_client_frame)
  moreover have "client_mem st' d = client_mem st d" if "d \<noteq> c" for d
    using that by (simp add: s(4) st3_def store_client_frame y2(1))
  moreover have "ref_count y2 = ref_count y" "socket y2 = socket y" using y2(2) by (auto simp: same_identity_def)
  ultimately show ?thesis using s(1) by (auto simp: s(4))
qed

section \<open>Properties\<close>

text \<open>
  The handler table knows exactly the four words of the protocol, compared exactly: any other
  word has no handler.
\<close>

theorem handler_of_word:
  assumes "CHR '' '' \<notin> set w" and "CHR 0x0A \<notin> set w" and "CHR 0x00 \<notin> set w"
  shows "get_request_handler w =
    (if w = ''announce'' then Some Prot_Announce else if w = ''update'' then Some Prot_Update
     else if w = ''look'' then Some Prot_Look else if w = ''getfile'' then Some Prot_Getfile else None)"
  using get_request_handler_word [OF assms] by (auto simp: handler_names_def)

lemma handler_of_word_witness:
  "get_request_handler ''look'' = Some Prot_Look \<and> get_request_handler ''Look'' = None"
  using handler_of_word [of "''look''"] handler_of_word [of "''Look''"] by simp



text \<open>
  C3: Handling a request that does not run into a fault writes exactly one answer to the socket of
  its client, whatever the request says, keeps the state consistent, gives the thread's reference
  back and leaves every other client alone.
\<close>

theorem request_one_answer:
  assumes "tracker_inv st" and "client_mem st c = Some y" and "handle_request st c input = Inr st'"
  shows "tracker_inv st' \<and> (\<exists>msg. sent st' = sent st @ [(socket y, msg)]) \<and>
    (\<forall>d. d \<noteq> c \<longrightarrow> client_mem st' d = client_mem st d) \<and>
    (if 1 < ref_count y
     then \<exists>z. client_mem st' c = Some z \<and> ref_count z = ref_count y - 1 \<and> can_rehear z
     else client_mem st' c = None)"
  using handle_request_Inr [OF assms] by (auto simp: one_answer_def split: if_splits)

lemma request_one_answer_witness:
  "\<exists>c st st' msg. client_get_or_create tracker_init (Some demo_peer) 4 = Inr (Some c, st) \<and>
    handle_request st c (-1, []) = Inr st' \<and> sent st' = [(4, msg)] \<and> client_mem st' c = None"
proof -
  obtain c st y where s: "client_get_or_create tracker_init (Some demo_peer) 4 = Inr (Some c, st)"
      "tracker_inv st" "client_mem st c = Some y" "ref_count y = 0" "sent st = []" "socket y = 4"
    using first_client by blast
  let ?st1 = "negative_answer st 4"
  have c1: "client_mem ?st1 c = Some y" "tracker_inv ?st1" using s(2,3) by (simp_all add: sent_negative_answer)
  have i2: "tracker_inv (store_client ?st1 c (y\<lparr>can_rehear := True\<rparr>))"
    using c1 tracker_inv_client [OF c1(2,1)] by (intro tracker_inv_upd [OF c1(2,1)]) simp_all
  have "client_mem (store_client ?st1 c (y\<lparr>can_rehear := True\<rparr>)) c = Some (y\<lparr>can_rehear := True\<rparr>)"
    by (simp add: store_client_def)
  from client_dec_ref_spec [OF i2 this] obtain st' where
    "client_dec_ref (store_client ?st1 c (y\<lparr>can_rehear := True\<rparr>)) (Some c) = Inr st'" by blast
  then have h: "handle_request st c (-1, []) = Inr st'"
    using s(3,6) c1(1) by (simp add: handle_request_def read_request_def)
  from request_one_answer [OF s(2,3) this] s(1,4,5,6) h show ?thesis by force
qed

end
