(* ===== verification/SocketRead.thy ===== *)
theory SocketRead
  imports Libc
begin

text \<open>
  \<open>socket_read_string\<close> of \<open>tracker/network.c\<close>: a growing buffer that the chunks delivered by
  \<open>read\<close> are appended to with \<open>strcat\<close>, until a chunk ends in a newline or a NUL byte.
\<close>

section \<open>Buffers\<close>

text \<open>Bytes of allocated memory; \<open>None\<close> is an uninitialised byte.\<close>

type_synonym buffer = "char option list"

fun c_strlen :: "buffer \<Rightarrow> nat result" where
  "c_strlen [] = Inl Out_Of_Bounds"
| "c_strlen (None # b) = Inl Uninitialised"
| "c_strlen (Some c # b) = (if c = CHR 0x00 then Inr 0 else rbind (c_strlen b) (\<lambda>n. Inr (Suc n)))"

definition c_bytes :: "string \<Rightarrow> string" where
  "c_bytes s = takeWhile (\<lambda>c. c \<noteq> CHR 0x00) s"

definition write_at :: "buffer \<Rightarrow> nat \<Rightarrow> string \<Rightarrow> buffer result" where
  "write_at b n s =
     (if n + length s \<le> length b then Inr (take n b @ map Some s @ drop (n + length s) b) else Inl Out_Of_Bounds)"

definition c_strcat :: "buffer \<Rightarrow> string \<Rightarrow> buffer result" where
  "c_strcat b s = rbind (c_strlen b) (\<lambda>n. write_at b n (c_bytes s @ [CHR 0x00]))"

definition c_realloc :: "buffer \<Rightarrow> nat \<Rightarrow> buffer" where
  "c_realloc b n = take n b @ replicate (n - length b) None"

definition byte_of :: "buffer \<Rightarrow> nat \<Rightarrow> char result" where
  "byte_of b i =
     (if i < length b then (case b ! i of None \<Rightarrow> Inl Uninitialised | Some c \<Rightarrow> Inr c) else Inl Out_Of_Bounds)"

section \<open>The function\<close>

definition heuristic_size :: nat where
  "heuristic_size = 3072"

text \<open>
  The reading loop over the chunks that \<open>read(sock, buf, 1000)\<close> delivers; when they are used up,
  \<open>read\<close> returns 0 or -1, and the function -1 (\<open>None\<close>). A chunk is never empty.
\<close>

fun read_loop :: "string list \<Rightarrow> buffer \<Rightarrow> nat \<Rightarrow> nat \<Rightarrow> (nat \<times> buffer) option result" where
  "read_loop [] str str_size str_bufsize = Inr None"
| "read_loop (buf # reads) str str_size str_bufsize =
     (let r = length buf;
          (str1, str_bufsize1) = (if str_bufsize < str_size + r then (c_realloc str (2 * str_bufsize), 2 * str_bufsize)
                              else (str, str_bufsize))
      in rbind (c_strcat str1 buf) (\<lambda>str2.
           if last buf \<noteq> CHR 0x00 \<and> last buf \<noteq> CHR 0x0A
           then read_loop reads str2 (str_size + r) str_bufsize1
           else Inr (Some (str_size + r, str2))))"

text \<open>\<open>while (str_size-1 >= 0 && str[str_size-1] == '\n')\<close>\<close>

fun strip_newlines :: "nat \<Rightarrow> buffer \<Rightarrow> (nat \<times> buffer) result" where
  "strip_newlines 0 str = Inr (0, str)"
| "strip_newlines (Suc n) str =
     rbind (byte_of str n) (\<lambda>c.
       if c = CHR 0x0A then strip_newlines n (str[n := Some (CHR 0x00)]) else Inr (Suc n, str))"

definition socket_read_string :: "string list \<Rightarrow> (int \<times> buffer option) result" where
  "socket_read_string reads =
     rbind (read_loop reads (replicate heuristic_size (Some (CHR 0x00))) 0 heuristic_size) (\<lambda>res.
       case res of
         None \<Rightarrow> Inr (-1, None)
       | Some (str_size, str) \<Rightarrow> rbind (strip_newlines str_size str) (\<lambda>(str_size', str'). Inr (int str_size', Some str')))"

section \<open>Contents\<close>

text \<open>The buffer holds the C string \<open>s\<close>.\<close>

definition holds :: "buffer \<Rightarrow> string \<Rightarrow> bool" where
  "holds b s \<longleftrightarrow> CHR 0x00 \<notin> set s \<and> (\<exists>r. b = map Some s @ Some (CHR 0x00) # r)"

lemma c_strlen_holds: "holds b s \<Longrightarrow> c_strlen b = Inr (length s)"
proof -
  have "CHR 0x00 \<notin> set s \<Longrightarrow> c_strlen (map Some s @ Some (CHR 0x00) # r) = Inr (length s)" for r
    by (induction s) auto
  then show "holds b s \<Longrightarrow> c_strlen b = Inr (length s)" by (auto simp: holds_def)
qed

lemma c_bytes_id: "CHR 0x00 \<notin> set s \<Longrightarrow> c_bytes s = s"
  unfolding c_bytes_def by (induction s) auto

lemma c_strcat_holds:
  assumes "holds b s" and "CHR 0x00 \<notin> set t"
  shows "length s + length t < length b \<Longrightarrow> \<exists>b'. c_strcat b t = Inr b' \<and> holds b' (s @ t) \<and> length b' = length b"
    and "length b \<le> length s + length t \<Longrightarrow> c_strcat b t = Inl Out_Of_Bounds"
proof -
  obtain r where b: "b = map Some s @ Some (CHR 0x00) # r" and s: "CHR 0x00 \<notin> set s"
    using assms(1) by (auto simp: holds_def)
  note cl = c_strlen_holds [OF assms(1)]
  {
    assume l: "length s + length t < length b"
    then have "c_strcat b t = Inr (map Some s @ map Some (t @ [CHR 0x00]) @ drop (length t) r)"
      by (simp add: c_strcat_def cl [unfolded b] c_bytes_id [OF assms(2)] write_at_def b)
    moreover have "holds (map Some s @ map Some (t @ [CHR 0x00]) @ drop (length t) r) (s @ t)"
      using s assms(2) by (auto simp: holds_def)
    ultimately show "\<exists>b'. c_strcat b t = Inr b' \<and> holds b' (s @ t) \<and> length b' = length b"
      using l by (auto simp: b)
  }
  show "length b \<le> length s + length t \<Longrightarrow> c_strcat b t = Inl Out_Of_Bounds"
    by (simp add: c_strcat_def c_strlen_holds [OF assms(1)] c_bytes_id [OF assms(2)] write_at_def)
qed

lemma c_realloc_holds: "holds b s \<Longrightarrow> length b \<le> n \<Longrightarrow> holds (c_realloc b n) s \<and> length (c_realloc b n) = n"
  by (auto simp: holds_def c_realloc_def)

text \<open>The sizes the buffer takes on while the chunks are appended.\<close>

fun buffer_sizes :: "string list \<Rightarrow> nat \<Rightarrow> nat \<Rightarrow> (nat \<times> nat) list" where
  "buffer_sizes [] str_size str_bufsize = []"
| "buffer_sizes (buf # reads) str_size str_bufsize =
     (let str_bufsize' = (if str_bufsize < str_size + length buf then 2 * str_bufsize else str_bufsize)
      in (str_size + length buf, str_bufsize') # buffer_sizes reads (str_size + length buf) str_bufsize')"

definition plain_chunk :: "string \<Rightarrow> bool" where
  "plain_chunk s \<longleftrightarrow> s \<noteq> [] \<and> length s \<le> 1000 \<and> CHR 0x00 \<notin> set s"

lemma chunk_step:
  assumes "holds str s" and "length str = m" and "1000 \<le> m" and "length s \<le> m" and "plain_chunk b"
  defines "m' \<equiv> if m < length s + length b then 2 * m else m"
    and "str1 \<equiv> if m < length s + length b then c_realloc str (2 * m) else str"
  shows "length s + length b \<le> m'" and "1000 \<le> m'"
    and "length s + length b \<noteq> m' \<Longrightarrow> \<exists>str2. c_strcat str1 b = Inr str2 \<and> holds str2 (s @ b) \<and> length str2 = m'"
    and "length s + length b = m' \<Longrightarrow> c_strcat str1 b = Inl Out_Of_Bounds"
proof -
  have h: "holds str1 s" "length str1 = m'"
    using c_realloc_holds [of str s "2 * m"] assms(1,2) by (auto simp: str1_def m'_def)
  show le: "length s + length b \<le> m'" and "1000 \<le> m'"
    using assms(3-5) by (auto simp: plain_chunk_def m'_def)
  have nb: "CHR 0x00 \<notin> set b" using assms(5) by (simp add: plain_chunk_def)
  show "length s + length b \<noteq> m' \<Longrightarrow> \<exists>str2. c_strcat str1 b = Inr str2 \<and> holds str2 (s @ b) \<and> length str2 = m'"
    using c_strcat_holds(1) [OF h(1) nb] h(2) le by auto
  show "length s + length b = m' \<Longrightarrow> c_strcat str1 b = Inl Out_Of_Bounds"
    using c_strcat_holds(2) [OF h(1) nb] h(2) by simp
qed

lemma plain_last: "plain_chunk b \<Longrightarrow> last b \<noteq> CHR 0x00"
  unfolding plain_chunk_def by (metis last_in_set)

definition fits :: "string list \<Rightarrow> nat \<Rightarrow> nat \<Rightarrow> bool" where
  "fits reads n m \<longleftrightarrow> list_all (\<lambda>(n, m). n \<noteq> m) (buffer_sizes reads n m)"

lemma fits_Cons: "fits (b # reads) n m \<longleftrightarrow>
    n + length b \<noteq> (if m < n + length b then 2 * m else m) \<and>
    fits reads (n + length b) (if m < n + length b then 2 * m else m)"
  by (simp add: fits_def Let_def)

lemma read_loop_spec:
  assumes "holds str s" and "length str = m" and "1000 \<le> m" and "length s \<le> m"
    and "list_all (\<lambda>b. plain_chunk b \<and> last b \<noteq> CHR 0x0A) reads" and "plain_chunk l" and "last l = CHR 0x0A"
  shows "if fits (reads @ [l]) (length s) m
    then \<exists>str'. read_loop (reads @ [l]) str (length s) m =
        Inr (Some (length (s @ concat reads @ l), str')) \<and> holds str' (s @ concat reads @ l)
    else read_loop (reads @ [l]) str (length s) m = Inl Out_Of_Bounds"
  using assms(1-5)
proof (induction reads arbitrary: str s m)
  case Nil
  note cs = chunk_step [OF Nil(1-4) assms(6)]
  show ?case
    using cs(3,4) assms(7) by (auto simp: Let_def fits_Cons fits_def)
next
  case (Cons b reads)
  have pb: "plain_chunk b" "last b \<noteq> CHR 0x0A" "list_all (\<lambda>b. plain_chunk b \<and> last b \<noteq> CHR 0x0A) reads"
    using Cons.prems(5) by auto
  note cs = chunk_step [OF Cons.prems(1-4) pb(1)]
  let ?m = "if m < length s + length b then 2 * m else m"
  show ?case
  proof (cases "length s + length b = ?m")
    case True
    then show ?thesis using cs(4) by (auto simp: Let_def fits_Cons)
  next
    case False
    then obtain str2 where s2: "c_strcat (if m < length s + length b then c_realloc str (2 * m) else str) b = Inr str2"
        "holds str2 (s @ b)" "length str2 = ?m"
      using cs(3) by blast
    have "length (s @ b) \<le> ?m" using cs(1) by simp
    from Cons.IH [OF s2(2,3) cs(2) this pb(3)] show ?thesis
      using False s2(1) pb(2) plain_last [OF pb(1)] by (auto simp: Let_def fits_Cons split: if_splits)
  qed
qed

section \<open>The line that is read\<close>

definition strip_end :: "string \<Rightarrow> string" where
  "strip_end s = rev (dropWhile (\<lambda>c. c = CHR 0x0A) (rev s))"

lemma strip_end_snoc: "strip_end (s @ [c]) = (if c = CHR 0x0A then strip_end s else s @ [c])"
  by (simp add: strip_end_def)

lemma strip_newlines_holds:
  "holds b s \<Longrightarrow> \<exists>b'. strip_newlines (length s) b = Inr (length (strip_end s), b') \<and> holds b' (strip_end s)"
proof (induction s arbitrary: b rule: rev_induct)
  case Nil
  then show ?case by (simp add: strip_end_def)
next
  case (snoc c s)
  obtain r where b: "b = map Some (s @ [c]) @ Some (CHR 0x00) # r" and s: "CHR 0x00 \<notin> set (s @ [c])"
    using snoc.prems by (auto simp: holds_def)
  have byte: "byte_of b (length s) = Inr c" by (simp add: b byte_of_def nth_append)
  show ?case
  proof (cases "c = CHR 0x0A")
    case True
    have "b[length s := Some (CHR 0x00)] = map Some s @ Some (CHR 0x00) # Some (CHR 0x00) # r"
      by (simp add: b list_update_append)
    then have "holds (b[length s := Some (CHR 0x00)]) s" using s unfolding holds_def by auto
    from snoc.IH [OF this] True byte show ?thesis by (simp add: strip_end_snoc)
  next
    case False
    then show ?thesis using byte snoc.prems by (simp add: strip_end_snoc)
  qed
qed

definition socket_lines :: "string list \<Rightarrow> string \<Rightarrow> bool" where
  "socket_lines reads l \<longleftrightarrow> list_all (\<lambda>b. plain_chunk b \<and> last b \<noteq> CHR 0x0A) reads \<and>
     plain_chunk l \<and> last l = CHR 0x0A"

lemma holds_initial: "holds (replicate heuristic_size (Some (CHR 0x00))) []"
  by (simp add: holds_def heuristic_size_def replicate_app_Cons_same [symmetric] numeral_eq_Suc)

lemma socket_read_string_fits:
  assumes "socket_lines reads l" and "fits (reads @ [l]) 0 heuristic_size"
  shows "\<exists>b. socket_read_string (reads @ [l]) = Inr (int (length (strip_end (concat reads @ l))), Some b) \<and>
    holds b (strip_end (concat reads @ l))"
proof -
  let ?b = "replicate heuristic_size (Some (CHR 0x00))"
  obtain str where "read_loop (reads @ [l]) ?b 0 heuristic_size = Inr (Some (length (concat reads @ l), str))"
      "holds str (concat reads @ l)"
    using read_loop_spec [OF holds_initial, of heuristic_size reads l] assms
    by (auto simp: socket_lines_def heuristic_size_def)
  moreover obtain str' where "strip_newlines (length (concat reads @ l)) str = Inr (length (strip_end (concat reads @ l)), str')"
      "holds str' (strip_end (concat reads @ l))"
    using strip_newlines_holds [OF calculation(2)] by blast
  ultimately show ?thesis by (simp add: socket_read_string_def)
qed

lemma socket_read_string_overflow:
  assumes "socket_lines reads l" and "\<not> fits (reads @ [l]) 0 heuristic_size"
  shows "socket_read_string (reads @ [l]) = Inl Out_Of_Bounds"
  using read_loop_spec [OF holds_initial, of heuristic_size reads l] assms
  by (auto simp: socket_lines_def heuristic_size_def socket_read_string_def)

lemma fits_short: "n + length (concat reads) < m \<Longrightarrow> fits reads n m"
proof (induction reads arbitrary: n)
  case (Cons b reads)
  then show ?case using Cons.IH [of "n + length b"] by (auto simp: fits_Cons)
qed (simp add: fits_def)

section \<open>Properties\<close>

text \<open>
  C27: A line that arrives in chunks, the newline at the end of the last one, is returned whole and
  without its trailing newlines, with its length, as long as it is shorter than the first buffer.
\<close>

theorem socket_read_string_line:
  assumes "socket_lines reads l" and "length (concat (reads @ [l])) < heuristic_size"
  shows "\<exists>b. socket_read_string (reads @ [l]) = Inr (int (length (strip_end (concat reads @ l))), Some b) \<and>
    holds b (strip_end (concat reads @ l))"
  using socket_read_string_fits [OF assms(1)] fits_short [of 0] assms(2) by simp

lemma socket_read_string_line_witness:
  "\<exists>b. socket_read_string [''look '', ''[]'' @ [CHR 0x0A]] = Inr (7, Some b) \<and> holds b ''look []''"
  using socket_read_string_line [of "[''look '']" "''[]'' @ [CHR 0x0A]"]
  by (simp add: socket_lines_def plain_chunk_def heuristic_size_def strip_end_def)

text \<open>
  C28: A line whose length, after some chunk, is exactly the size of the buffer (3072 bytes at
  first) is written past the end of it: the check that enlarges the buffer leaves no room for the
  terminating zero.
\<close>

theorem socket_read_string_off_by_one:
  assumes "socket_lines reads l" and "length (concat (reads @ [l])) = heuristic_size"
  shows "socket_read_string (reads @ [l]) = Inl Out_Of_Bounds"
proof -
  have f: "\<not> fits rs n m" if "n + length (concat rs) = m" "rs \<noteq> []" for rs n m
    using that
  proof (induction rs arbitrary: n)
    case (Cons b rs)
    show ?case
    proof (cases "rs = []")
      case True
      with Cons.prems show ?thesis by (simp add: fits_Cons)
    next
      case False
      with Cons show ?thesis by (simp add: fits_Cons)
    qed
  qed simp
  show ?thesis
    by (rule socket_read_string_overflow [OF assms(1)]) (rule f, use assms(2) in simp_all)
qed

lemma socket_read_string_off_by_one_witness:
  "socket_read_string ([replicate 1000 (CHR ''a''), replicate 1000 (CHR ''a''), replicate 1000 (CHR ''a'')] @
     [replicate 71 (CHR ''a'') @ [CHR 0x0A]]) = Inl Out_Of_Bounds"
  by (rule socket_read_string_off_by_one) (simp_all add: socket_lines_def plain_chunk_def heuristic_size_def)

end
