(* ===== verification/Network.thy ===== *)
theory Network
  imports Requests SocketRead
begin

text \<open>
  The poll loop of \<open>tracker/network.c\<close>: the two parallel arrays \<open>fds\<close> and \<open>clients\<close>, the
  reactions to poll events, and the threads it starts. The arrays are maps from slots; a slot
  without a value is allocated and not initialised.
\<close>

section \<open>State\<close>

record pollfd =
  fd :: int
  events :: "16 word"
  revents :: "16 word"

record net =
  nfds :: nat
  fds_buffer_size :: nat
  fds :: "nat \<Rightarrow> pollfd option"
  slot_clients :: "nat \<Rightarrow> cid option option"

definition POLLIN :: "16 word" where "POLLIN = 1"
definition POLLERR :: "16 word" where "POLLERR = 8"
definition POLLHUP :: "16 word" where "POLLHUP = 16"
definition POLLNVAL :: "16 word" where "POLLNVAL = 32"
definition POLLRDHUP :: "16 word" where "POLLRDHUP = 8192"

definition has_flags :: "16 word \<Rightarrow> 16 word \<Rightarrow> bool" where
  "has_flags w m \<longleftrightarrow> and w m \<noteq> 0"

definition poll_hangup :: "16 word" where
  "poll_hangup = or (or POLLHUP POLLRDHUP) (or POLLERR POLLNVAL)"

definition initial_peerfd_bufsize :: nat where
  "initial_peerfd_bufsize = 1000"

text \<open>The arrays as \<open>server_run\<close> allocates them, with the listener in the first slot.\<close>

definition net_init :: "int \<Rightarrow> net" where
  "net_init listener =
     \<lparr>nfds = 1, fds_buffer_size = initial_peerfd_bufsize,
      fds = [0 \<mapsto> \<lparr>fd = listener, events = POLLIN, revents = 0\<rparr>], slot_clients = Map.empty\<rparr>"

definition read_fd :: "net \<Rightarrow> nat \<Rightarrow> pollfd result" where
  "read_fd n i =
     (if fds_buffer_size n \<le> i then Inl Out_Of_Bounds
      else case fds n i of None \<Rightarrow> Inl Uninitialised | Some p \<Rightarrow> Inr p)"

definition read_slot :: "net \<Rightarrow> nat \<Rightarrow> cid option result" where
  "read_slot n i =
     (if fds_buffer_size n \<le> i then Inl Out_Of_Bounds
      else case slot_clients n i of None \<Rightarrow> Inl Uninitialised | Some c \<Rightarrow> Inr c)"

definition write_fd :: "net \<Rightarrow> nat \<Rightarrow> pollfd \<Rightarrow> net result" where
  "write_fd n i p =
     (if fds_buffer_size n \<le> i then Inl Out_Of_Bounds else Inr (n\<lparr>fds := (fds n)(i \<mapsto> p)\<rparr>))"

definition write_slot :: "net \<Rightarrow> nat \<Rightarrow> cid option \<Rightarrow> net result" where
  "write_slot n i c =
     (if fds_buffer_size n \<le> i then Inl Out_Of_Bounds else Inr (n\<lparr>slot_clients := (slot_clients n)(i \<mapsto> c)\<rparr>))"

section \<open>New connections\<close>

definition grow :: "net \<Rightarrow> net" where
  "grow n = (if fds_buffer_size n < nfds n + 1 then n\<lparr>fds_buffer_size := fds_buffer_size n * 2\<rparr> else n)"

definition add_new_client_to_fds :: "net \<Rightarrow> tracker \<Rightarrow> cid option \<Rightarrow> (net \<times> tracker) result" where
  "add_new_client_to_fds n st c =
     (let n1 = grow n
      in rbind (client_inc_ref st c) (\<lambda>st1.
         rbind (write_slot n1 (nfds n1) c) (\<lambda>n2.
         rbind (deref c) (\<lambda>c. rbind (load_client st1 c) (\<lambda>y.
         rbind (write_fd n2 (nfds n2) \<lparr>fd = socket y, events = or POLLIN POLLRDHUP, revents = 0\<rparr>) (\<lambda>n3.
           Inr (n3\<lparr>nfds := nfds n3 + 1\<rparr>, st1)))))))"

text \<open>
  \<open>accepted\<close> is what \<open>accept_connection\<close> returns, -1 for an error; \<open>peername\<close> the answer of
  \<open>getpeername\<close> for it.
\<close>

definition handle_new_connection ::
  "net \<Rightarrow> tracker \<Rightarrow> int \<Rightarrow> sockaddr_in option \<Rightarrow> (net \<times> tracker) result" where
  "handle_new_connection n st accepted peername =
     rbind (client_get_or_create st peername accepted) (\<lambda>(c, st1). add_new_client_to_fds n st1 c)"

section \<open>Events\<close>

definition start_server_reqhandler_thread :: "tracker \<Rightarrow> cid option \<Rightarrow> (tracker \<times> cid list) result" where
  "start_server_reqhandler_thread st c =
     (case c of
        Some d \<Rightarrow> rbind (client_inc_ref st c) (\<lambda>st1. Inr (st1, [d]))
      | None \<Rightarrow> Inr (st, []))"

text \<open>The body of the loop of \<open>handle_incoming_data\<close>: the last component collects the threads started.\<close>

definition rehear :: "net \<Rightarrow> tracker \<Rightarrow> nat \<Rightarrow> cid \<Rightarrow> (net \<times> tracker) result" where
  "rehear n st i c =
     rbind (load_client st c) (\<lambda>y.
       if can_rehear y
       then rbind (read_fd n i) (\<lambda>p.
            rbind (write_fd n i (p\<lparr>events := or POLLIN POLLRDHUP\<rparr>)) (\<lambda>n1.
              Inr (n1, store_client st c (y\<lparr>can_rehear := False\<rparr>))))
       else Inr (n, st))"

definition incoming_slot ::
  "net \<Rightarrow> tracker \<Rightarrow> nat \<Rightarrow> (net \<times> tracker \<times> cid list) result" where
  "incoming_slot n st i =
     rbind (read_fd n i) (\<lambda>p.
       if fd p < 0 then Inr (n, st, [])
       else rbind (read_slot n i) (\<lambda>c. rbind (deref c) (\<lambda>c'.
            rbind (rehear n st i c') (\<lambda>(n1, st1).
            rbind (read_fd n1 i) (\<lambda>p1.
              if has_flags (revents p1) poll_hangup
              then rbind (client_dec_ref st1 c) (\<lambda>st2.
                   rbind (write_slot n1 i None) (\<lambda>n2.
                   rbind (write_fd n2 i \<lparr>fd = -1, events = 0, revents = 0\<rparr>) (\<lambda>n3. Inr (n3, st2, []))))
              else if has_flags (revents p1) POLLIN
              then rbind (write_fd n1 i (p1\<lparr>events := POLLRDHUP, revents := 0\<rparr>)) (\<lambda>n2.
                   rbind (start_server_reqhandler_thread st1 c) (\<lambda>(st2, ths). Inr (n2, st2, ths)))
              else Inr (n1, st1, []))))))"

text \<open>The loop does not change \<open>nfds\<close>, so it ends.\<close>

lemma write_nfds:
  "write_fd n i p = Inr n' \<Longrightarrow> nfds n' = nfds n" "write_slot n i c = Inr n' \<Longrightarrow> nfds n' = nfds n"
  by (auto simp: write_fd_def write_slot_def split: if_splits)

lemma rehear_nfds: "rehear n st i c = Inr (n', st') \<Longrightarrow> nfds n' = nfds n"
  by (auto simp: rehear_def rbind_eq_Inr_iff dest: write_nfds split: if_splits)

lemma incoming_slot_nfds: "incoming_slot n st i = Inr (n', st', ths) \<Longrightarrow> nfds n' = nfds n"
  by (auto simp: incoming_slot_def rbind_eq_Inr_iff dest!: write_nfds rehear_nfds split: if_splits)

function incoming_from :: "nat \<Rightarrow> net \<Rightarrow> tracker \<Rightarrow> cid list \<Rightarrow> (net \<times> tracker \<times> cid list) result" where
  "incoming_from i n st ths =
     (if i < nfds n
      then rbind (incoming_slot n st i) (\<lambda>r. incoming_from (Suc i) (fst r) (fst (snd r)) (ths @ snd (snd r)))
      else Inr (n, st, ths))"
  by pat_completeness auto
termination
  by (relation "measure (\<lambda>(i, n, st, ths). nfds n - i)") (auto dest: incoming_slot_nfds)

declare incoming_from.simps [simp del]

definition handle_incoming_data :: "net \<Rightarrow> tracker \<Rightarrow> (net \<times> tracker \<times> cid list) result" where
  "handle_incoming_data n st = incoming_from 1 n st []"

section \<open>Closing the gaps\<close>

text \<open>
  \<open>clean_fds\<close>: the \<open>for\<close> and the \<open>while\<close> loop as one recursion; a slot that was filled from the
  end is looked at again.
\<close>

function clean_from :: "nat \<Rightarrow> net \<Rightarrow> net result" where
  "clean_from i n =
     (if i < nfds n
      then (case read_fd n i of
              Inl e \<Rightarrow> Inl e
            | Inr p \<Rightarrow>
                if fd p = -1
                then (if i = nfds n - 1
                      then rbind (write_fd n i (p\<lparr>fd := -2\<rparr>)) (\<lambda>n1. Inr (n1\<lparr>nfds := nfds n - 1\<rparr>))
                      else (case rbind (read_fd n (nfds n - 1)) (\<lambda>q. rbind (write_fd n i q) (\<lambda>n1.
                                 rbind (read_slot n1 (nfds n - 1)) (write_slot n1 i))) of
                              Inl e \<Rightarrow> Inl e
                            | Inr n1 \<Rightarrow> clean_from i (n1\<lparr>nfds := nfds n - 1\<rparr>)))
                else clean_from (Suc i) n)
      else Inr n)"
  by pat_completeness auto
termination by (relation "measure (\<lambda>(i, n). nfds n - i)") auto

declare clean_from.simps [simp del]

definition clean_fds :: "net \<Rightarrow> net result" where
  "clean_fds n = clean_from 1 n"

section \<open>One round of the loop of \<open>server_run\<close>\<close>

text \<open>What \<open>poll\<close> writes: the \<open>revents\<close> of every slot.\<close>

definition poll_result :: "net \<Rightarrow> (nat \<Rightarrow> 16 word) \<Rightarrow> net" where
  "poll_result n ev =
     n\<lparr>fds := (\<lambda>i. if i < nfds n then map_option (\<lambda>p. p\<lparr>revents := ev i\<rparr>) (fds n i) else fds n i)\<rparr>"

definition poll_round ::
  "net \<Rightarrow> tracker \<Rightarrow> (nat \<Rightarrow> 16 word) \<Rightarrow> int \<Rightarrow> sockaddr_in option \<Rightarrow> (net \<times> tracker \<times> cid list) result" where
  "poll_round n st ev accepted peername =
     (let n0 = poll_result n ev
      in rbind (read_fd n0 0) (\<lambda>p.
         rbind (if has_flags (revents p) POLLIN then handle_new_connection n0 st accepted peername
                else Inr (n0, st)) (\<lambda>(n1, st1).
         rbind (handle_incoming_data n1 st1) (\<lambda>(n2, st2, ths).
         rbind (clean_fds n2) (\<lambda>n3. Inr (n3, st2, ths))))))"

section \<open>The two arrays as a list of entries\<close>

definition entries :: "net \<Rightarrow> (pollfd \<times> cid option) list" where
  "entries n = map (\<lambda>i. (the (fds n i), the (slot_clients n i))) [1..<nfds n]"

text \<open>A slot is either in use, with a descriptor and its client, or given up.\<close>

definition entry_ok :: "pollfd \<times> cid option \<Rightarrow> bool" where
  "entry_ok e \<longleftrightarrow> (case snd e of None \<Rightarrow> fd (fst e) = -1 | Some c \<Rightarrow> 0 \<le> fd (fst e))"

definition net_inv :: "net \<Rightarrow> bool" where
  "net_inv n \<longleftrightarrow> 1 \<le> nfds n \<and> nfds n \<le> fds_buffer_size n \<and>
     (\<forall>i < nfds n. fds n i \<noteq> None) \<and> (\<forall>i \<in> {1..<nfds n}. slot_clients n i \<noteq> None) \<and>
     list_all entry_ok (entries n)"

definition slot_count :: "net \<Rightarrow> cid \<Rightarrow> nat" where
  "slot_count n c = count (mset (map snd (entries n))) (Some c)"

lemma length_entries [simp]: "length (entries n) = nfds n - 1"
  by (simp add: entries_def)

lemma nth_entries:
  assumes "1 \<le> i" and "i < nfds n"
  shows "entries n ! (i - 1) = (the (fds n i), the (slot_clients n i))"
proof -
  have "[1..<nfds n] ! (i - 1) = i" using assms by (subst nth_upt) auto
  moreover have "i - 1 < length [1..<nfds n]" using assms by simp
  ultimately show ?thesis by (simp only: entries_def nth_map)
qed

lemma net_inv_read:
  assumes "net_inv n" and "i < nfds n"
  shows "\<exists>p. fds n i = Some p \<and> read_fd n i = Inr p"
    and "1 \<le> i \<Longrightarrow> \<exists>c. slot_clients n i = Some c \<and> read_slot n i = Inr c"
proof -
  have "i < fds_buffer_size n" using assms by (simp add: net_inv_def)
  moreover have "fds n i \<noteq> None" using assms by (simp add: net_inv_def)
  ultimately show "\<exists>p. fds n i = Some p \<and> read_fd n i = Inr p" by (auto simp: read_fd_def)
  assume "1 \<le> i"
  then have "slot_clients n i \<noteq> None" using assms by (simp add: net_inv_def)
  then show "\<exists>c. slot_clients n i = Some c \<and> read_slot n i = Inr c"
    using \<open>i < fds_buffer_size n\<close> by (auto simp: read_slot_def)
qed

lemma net_inv_entry:
  assumes "net_inv n" and "1 \<le> i" and "i < nfds n"
  shows "entry_ok (the (fds n i), the (slot_clients n i))"
proof -
  have "list_all entry_ok (entries n)" using assms(1) by (simp add: net_inv_def)
  moreover have "i - 1 < length (entries n)" using assms(2,3) by simp
  ultimately have "entry_ok (entries n ! (i - 1))" unfolding list_all_length by blast
  then show ?thesis by (simp only: nth_entries [OF assms(2,3)])
qed

text \<open>Writing both halves of a slot is a list update.\<close>

lemma entries_upd:
  assumes "1 \<le> i" and "i < nfds n" and "nfds n' = nfds n"
    and "fds n' = (fds n)(i \<mapsto> p)" and "slot_clients n' = (slot_clients n)(i \<mapsto> c)"
  shows "entries n' = (entries n)[i - 1 := (p, c)]"
  by (rule nth_equalityI) (use assms in \<open>auto simp: entries_def nth_list_update\<close>)

lemma net_inv_upd:
  assumes "net_inv n" and "1 \<le> i" and "i < nfds n" and "nfds n' = nfds n" and "fds_buffer_size n' = fds_buffer_size n"
    and "fds n' = (fds n)(i \<mapsto> p)" and "slot_clients n' = (slot_clients n)(i \<mapsto> c)" and "entry_ok (p, c)"
  shows "net_inv n'"
proof -
  have "entries n' = (entries n)[i - 1 := (p, c)]" by (rule entries_upd [OF assms(2,3,4,6,7)])
  moreover have "list_all entry_ok ((entries n)[i - 1 := (p, c)])"
    using assms(1,8) by (auto simp: net_inv_def list_all_iff dest!: set_update_subset_insert [THEN subsetD])
  ultimately show ?thesis
    using assms(1,4-7) by (auto simp: net_inv_def)
qed

lemma count_upd:
  assumes "j < length xs"
  shows "count (mset (map snd (xs[j := (p, c)]))) a =
    count (mset (map snd xs)) a - (if snd (xs ! j) = a then 1 else 0) + (if c = a then 1 else 0)"
proof -
  have "map snd (xs[j := (p, c)]) = (map snd xs)[j := c]" by (simp add: map_update)
  then show ?thesis using assms by (simp add: mset_update)
qed

lemma count_entry_pos: "1 \<le> i \<Longrightarrow> i < nfds n \<Longrightarrow> slot_clients n i = Some (Some c) \<Longrightarrow> 0 < slot_count n c"
proof -
  assume i: "1 \<le> i" "i < nfds n" "slot_clients n i = Some (Some c)"
  then have "entries n ! (i - 1) = (the (fds n i), Some c)" by (simp only: nth_entries option.sel)
  moreover have "i - 1 < length (entries n)" using i by simp
  ultimately have "(the (fds n i), Some c) \<in> set (entries n)" by (metis nth_mem)
  then have "Some c \<in> snd ` set (entries n)" by force
  then show ?thesis by (simp add: slot_count_def count_greater_zero_iff)
qed

section \<open>Reference counts\<close>

text \<open>
  The reference count of a client is the number of slots and of running request threads that
  point to it, and no freed client has any.
\<close>

definition refs :: "net \<Rightarrow> cid multiset \<Rightarrow> cid \<Rightarrow> nat" where
  "refs n ths c = slot_count n c + count ths c"

definition ref_ok :: "client option \<Rightarrow> nat \<Rightarrow> bool" where
  "ref_ok y k \<longleftrightarrow> (case y of None \<Rightarrow> k = 0 | Some y \<Rightarrow> ref_count y = int k \<and> 0 < k)"

definition refs_ok :: "net \<Rightarrow> tracker \<Rightarrow> cid multiset \<Rightarrow> bool" where
  "refs_ok n st ths \<longleftrightarrow> (\<forall>c. ref_ok (client_mem st c) (refs n ths c))"

definition sockets_ok :: "tracker \<Rightarrow> bool" where
  "sockets_ok st \<longleftrightarrow> (\<forall>c y. client_mem st c = Some y \<longrightarrow> 0 \<le> socket y)"

definition server_inv :: "net \<Rightarrow> tracker \<Rightarrow> cid multiset \<Rightarrow> bool" where
  "server_inv n st ths \<longleftrightarrow> net_inv n \<and> tracker_inv st \<and> refs_ok n st ths \<and> sockets_ok st"

lemma refs_live: "refs_ok n st ths \<Longrightarrow> 0 < refs n ths c \<Longrightarrow> \<exists>y. client_mem st c = Some y"
  by (cases "client_mem st c") (auto simp: refs_ok_def ref_ok_def dest!: spec [of _ c])

lemma refs_Some: "refs_ok n st ths \<Longrightarrow> client_mem st c = Some y \<Longrightarrow>
    ref_count y = int (refs n ths c) \<and> 0 < refs n ths c"
  by (auto simp: refs_ok_def ref_ok_def dest!: spec [of _ c])

lemma server_inv_init: "server_inv (net_init l) tracker_init {#}"
proof -
  have "entries (net_init l) = []" by (simp add: entries_def net_init_def)
  then have "net_inv (net_init l)" "slot_count (net_init l) c = 0" for c
    by (simp_all add: net_inv_def slot_count_def) (simp_all add: net_init_def initial_peerfd_bufsize_def)
  then show ?thesis
    by (simp add: server_inv_def tracker_inv_init refs_ok_def ref_ok_def refs_def sockets_ok_def tracker_init_def)
      (use tracker_inv_init in \<open>simp add: tracker_init_def\<close>)
qed

text \<open>One reference more or less, matched by a slot or a thread.\<close>

lemma refs_inc:
  assumes "refs_ok n st ths"
    and "client_mem st c = None \<and> r = 0 \<or> (\<exists>y. client_mem st c = Some y \<and> ref_count y = r)"
    and "client_mem st' c = Some y'" and "ref_count y' = r + 1"
    and "\<And>d. d \<noteq> c \<Longrightarrow> client_mem st' d = client_mem st d"
    and "\<And>d. refs n' ths' d = refs n ths d + (if d = c then 1 else 0)"
  shows "refs_ok n' st' ths'"
  unfolding refs_ok_def
proof
  fix d
  show "ref_ok (client_mem st' d) (refs n' ths' d)"
  proof (cases "d = c")
    case True
    have "ref_ok (client_mem st c) (refs n ths c)" using assms(1) by (simp add: refs_ok_def)
    then have "r = int (refs n ths c)" using assms(2) by (auto simp: ref_ok_def)
    then show ?thesis using True assms(4) by (simp add: assms(3,6) ref_ok_def)
  next
    case False
    then show ?thesis using assms(1) by (simp add: assms(5,6) refs_ok_def)
  qed
qed

lemma refs_dec:
  assumes "refs_ok n st ths" and "client_mem st c = Some y"
    and "client_mem st' c = (if 1 < ref_count y then Some y' else None)" and "ref_count y' = ref_count y - 1"
    and "\<And>d. d \<noteq> c \<Longrightarrow> client_mem st' d = client_mem st d"
    and "\<And>d. refs n' ths' d = refs n ths d - (if d = c then 1 else 0)"
  shows "refs_ok n' st' ths'"
  unfolding refs_ok_def
proof
  fix d
  show "ref_ok (client_mem st' d) (refs n' ths' d)"
  proof (cases "d = c")
    case True
    have "ref_count y = int (refs n ths c)" "0 < refs n ths c" using refs_Some [OF assms(1,2)] by auto
    then show ?thesis using True assms(4,6) by (auto simp: assms(3) ref_ok_def of_nat_diff)
  next
    case False
    then show ?thesis using assms(1,5,6) by (simp add: refs_ok_def)
  qed
qed

section \<open>Each reaction keeps the invariant\<close>

lemma entries_append:
  assumes "1 \<le> nfds n" and "nfds n' = Suc (nfds n)" and "fds n' = (fds n)(nfds n \<mapsto> p)"
    and "slot_clients n' = (slot_clients n)(nfds n \<mapsto> c)"
  shows "entries n' = entries n @ [(p, c)]"
proof -
  have "[1..<Suc (nfds n)] = [1..<nfds n] @ [nfds n]" using assms(1) by simp
  then show ?thesis by (simp add: entries_def assms(2-4) del: upt_Suc)
qed

lemma handle_new_connection_inv:
  assumes inv: "server_inv n st ths" and a: "0 \<le> accepted"
  shows "\<exists>n' st'. handle_new_connection n st accepted (Some ad) = Inr (n', st') \<and> server_inv n' st' ths \<and>
    nfds n' = Suc (nfds n) \<and> files st' = files st \<and> sent st' = sent st"
proof -
  have ni: "net_inv n" and ti: "tracker_inv st" and ro: "refs_ok n st ths" and so: "sockets_ok st"
    using inv by (auto simp: server_inv_def)
  obtain c st1 y where s1: "client_get_or_create st (Some ad) accepted = Inr (Some c, st1)" "tracker_inv st1"
      "client_mem st1 = (client_mem st)(c \<mapsto> y)" "files st1 = files st" "sent st1 = sent st"
    and new: "client_mem st c = None \<and> listen_addr_key y = None \<and> socket y = accepted \<and> ref_count y = 0 \<or> client_mem st c = Some y"
    using client_get_or_create_spec [OF ti, of ad accepted] by blast
  have y1: "client_mem st1 c = Some y" by (simp add: s1(3))
  define y2 where "y2 = y\<lparr>ref_count := ref_count y + 1\<rparr>"
  obtain st2 where s2: "client_inc_ref st1 (Some c) = Inr st2" "tracker_inv st2" "same_files st1 st2" "sent st2 = sent st1"
      "client_mem st2 = (client_mem st1)(c \<mapsto> y2)"
    using client_inc_ref_spec [OF s1(2) y1] unfolding y2_def by blast
  have e2: "st2 = store_client st1 c y2" using s2(1) y1 by (simp add: client_inc_ref_def y2_def)
  define p where "p = \<lparr>fd = socket y, events = or POLLIN POLLRDHUP, revents = 0\<rparr>"
  define n' where "n' = (grow n)\<lparr>nfds := Suc (nfds n), fds := (fds n)(nfds n \<mapsto> p),
      slot_clients := (slot_clients n)(nfds n \<mapsto> Some c)\<rparr>"
  have sz: "nfds n < fds_buffer_size (grow n)" "nfds (grow n) = nfds n" "fds (grow n) = fds n"
      "slot_clients (grow n) = slot_clients n"
    using ni by (auto simp: grow_def net_inv_def)
  have y2s: "client_mem st2 c = Some y2" "socket y2 = socket y" by (simp_all add: s2(5) y2_def)
  have e: "handle_new_connection n st accepted (Some ad) = Inr (n', st2)"
    using sz s2(1) y2s
    by (simp add: handle_new_connection_def s1(1) add_new_client_to_fds_def Let_def write_slot_def write_fd_def
        n'_def p_def)
  have sock: "0 \<le> socket y" using new a so by (auto simp: sockets_ok_def)
  have en: "entries n' = entries n @ [(p, Some c)]"
    by (rule entries_append) (use ni in \<open>simp_all add: n'_def net_inv_def\<close>)
  have "list_all entry_ok (entries n')" using ni sock by (simp add: en net_inv_def entry_ok_def p_def)
  then have "net_inv n'"
    using ni sz(1) unfolding net_inv_def by (auto simp: n'_def less_Suc_eq)
  moreover have "refs n' ths d = refs n ths d + (if d = c then 1 else 0)" for d
    by (simp add: refs_def slot_count_def en)
  then have "refs_ok n' st2 ths"
    using new by (intro refs_inc [OF ro, of c "ref_count y" st2 y2]) (auto simp: s2(5) s1(3) y2_def)
  moreover have "sockets_ok st2"
    using so sock by (auto simp: sockets_ok_def s2(5) s1(3) y2_def)
  ultimately show ?thesis
    using e s2(2,4) s1(4,5) by (auto simp: server_inv_def n'_def e2 store_client_frame)
qed

lemma handle_new_connection_null:
  "handle_new_connection n st accepted None = Inl Null_Deref"
  by (simp add: handle_new_connection_def client_get_or_create_def add_new_client_to_fds_def Let_def client_inc_ref_def)

lemma write_fd_slot:
  "i < fds_buffer_size n \<Longrightarrow> write_fd n i p = Inr (n\<lparr>fds := (fds n)(i \<mapsto> p)\<rparr>)"
  "i < fds_buffer_size n \<Longrightarrow> write_slot n i c = Inr (n\<lparr>slot_clients := (slot_clients n)(i \<mapsto> c)\<rparr>)"
  by (simp_all add: write_fd_def write_slot_def)

lemma rehear_spec:
  assumes inv: "server_inv n st ths" and i: "1 \<le> i" "i < nfds n" and s: "slot_clients n i = Some (Some c)"
  shows "\<exists>n' st' y. rehear n st i c = Inr (n', st') \<and> server_inv n' st' ths \<and> nfds n' = nfds n \<and>
    fds_buffer_size n' = fds_buffer_size n \<and> slot_clients n' = slot_clients n \<and> client_mem st' c = Some y \<and>
    (\<exists>p p'. fds n i = Some p \<and> fds n' = (fds n)(i \<mapsto> p') \<and> fd p' = fd p \<and> revents p' = revents p)"
proof -
  have ni: "net_inv n" and ti: "tracker_inv st" and ro: "refs_ok n st ths" and so: "sockets_ok st"
    using inv by (auto simp: server_inv_def)
  obtain p where p: "fds n i = Some p" "read_fd n i = Inr p" using net_inv_read(1) [OF ni i(2)] by blast
  have "0 < refs n ths c" using count_entry_pos [OF i s] by (simp add: refs_def)
  then obtain y where y: "client_mem st c = Some y" using refs_live [OF ro] by blast
  have sz: "i < fds_buffer_size n" using ni i(2) by (simp add: net_inv_def)
  have pos: "0 \<le> fd p" using net_inv_entry [OF ni i] by (simp add: p s entry_ok_def)
  show ?thesis
  proof (cases "can_rehear y")
    case False
    then show ?thesis
      using inv y p(1) by (auto simp: rehear_def fun_upd_idem intro!: exI [of _ n] exI [of _ st] exI [of _ p])
  next
    case True
    define p' where "p' = p\<lparr>events := or POLLIN POLLRDHUP\<rparr>"
    define n' where "n' = n\<lparr>fds := (fds n)(i \<mapsto> p')\<rparr>"
    define y' where "y' = y\<lparr>can_rehear := False\<rparr>"
    define st' where "st' = store_client st c y'"
    have e: "rehear n st i c = Inr (n', st')"
      using True y p(2) by (simp add: rehear_def write_fd_slot [OF sz] n'_def p'_def st'_def y'_def)
    have sc: "slot_clients n' = (slot_clients n)(i \<mapsto> Some c)" using s by (auto simp: n'_def)
    have en: "entries n' = (entries n)[i - 1 := (p', Some c)]"
      by (rule entries_upd [OF i _ _ sc]) (simp_all add: n'_def)
    have ni': "net_inv n'"
      by (rule net_inv_upd [where p = p', OF ni i _ _ _ sc]) (use pos in \<open>simp_all add: n'_def entry_ok_def p'_def\<close>)
    have "snd (entries n ! (i - 1)) = Some c" by (simp only: nth_entries [OF i] s option.sel snd_conv)
    then have "map snd (entries n') = map snd (entries n)"
      using i by (simp add: en map_update list_update_same_conv)
    then have rf: "refs n' ths d = refs n ths d" for d by (simp add: refs_def slot_count_def)
    have cm: "client_mem st' = (client_mem st)(c \<mapsto> y')" by (simp add: st'_def store_client_frame)
    have "ref_ok (client_mem st' d) (refs n' ths d)" for d
      using ro y unfolding refs_ok_def rf cm by (cases "d = c") (auto simp: ref_ok_def y'_def dest: spec [of _ c])
    then have "refs_ok n' st' ths" by (simp add: refs_ok_def)
    moreover have "tracker_inv st'"
      unfolding st'_def using tracker_inv_client [OF ti y] by (intro tracker_inv_upd [OF ti y]) (simp_all add: y'_def)
    moreover have "sockets_ok st'" using so y by (auto simp: sockets_ok_def cm y'_def)
    ultimately have "server_inv n' st' ths" using ni' by (simp add: server_inv_def)
    moreover have "\<exists>p p'. fds n i = Some p \<and> fds n' = (fds n)(i \<mapsto> p') \<and> fd p' = fd p \<and> revents p' = revents p"
      by (intro exI [of _ p] exI [of _ p']) (simp add: p(1) n'_def p'_def)
    moreover have "client_mem st' c = Some y'" by (simp add: cm)
    ultimately show ?thesis using e by (intro exI [of _ n'] exI [of _ st'] exI [of _ y']) (simp add: n'_def)
  qed
qed

lemma incoming_slot_inv:
  assumes inv: "server_inv n st ths" and i: "1 \<le> i" "i < nfds n"
  shows "\<exists>n' st' new. incoming_slot n st i = Inr (n', st', new) \<and> server_inv n' st' (ths + mset new) \<and> nfds n' = nfds n"
proof -
  have ni: "net_inv n" using inv by (simp add: server_inv_def)
  obtain p where p: "fds n i = Some p" "read_fd n i = Inr p" using net_inv_read(1) [OF ni i(2)] by blast
  obtain s where s: "slot_clients n i = Some s" "read_slot n i = Inr s" using net_inv_read(2) [OF ni i(2,1)] by blast
  have eok: "entry_ok (p, s)" using net_inv_entry [OF ni i] by (simp add: p s)
  show ?thesis
  proof (cases "fd p < 0")
    case True
    then show ?thesis using inv by (simp add: incoming_slot_def p(2))
  next
    case False
    then obtain c where c: "s = Some c" using eok by (cases s) (auto simp: entry_ok_def)
    have sc: "slot_clients n i = Some (Some c)" by (simp add: s c)
    obtain n1 st1 y1 p1 where r: "rehear n st i c = Inr (n1, st1)" "server_inv n1 st1 ths" "nfds n1 = nfds n"
        "fds_buffer_size n1 = fds_buffer_size n" "slot_clients n1 = slot_clients n" "client_mem st1 c = Some y1"
        "fds n1 = (fds n)(i \<mapsto> p1)" "fd p1 = fd p" "revents p1 = revents p"
      using rehear_spec [OF inv i sc] p(1) by auto
    have ni1: "net_inv n1" and ti1: "tracker_inv st1" and ro1: "refs_ok n1 st1 ths" and so1: "sockets_ok st1"
      using r(2) by (auto simp: server_inv_def)
    have i1: "i < nfds n1" by (simp add: r(3) i(2))
    have sz: "i < fds_buffer_size n1" using ni1 i1 by (simp add: net_inv_def)
    have p1: "read_fd n1 i = Inr p1" using sz r(7) by (simp add: read_fd_def)
    have s1: "slot_clients n1 i = Some (Some c)" by (simp add: r(5) sc)
    have ei: "entries n1 ! (i - 1) = (p1, Some c)" by (simp only: nth_entries [OF i(1) i1] s1 r(7) fun_upd_same option.sel)
    have li: "i - 1 < length (entries n1)" using i(1) i1 by simp
    have pre: "incoming_slot n st i =
        (if has_flags (revents p1) poll_hangup
         then rbind (client_dec_ref st1 (Some c)) (\<lambda>st2.
              rbind (write_slot n1 i None) (\<lambda>n2.
              rbind (write_fd n2 i \<lparr>fd = -1, events = 0, revents = 0\<rparr>) (\<lambda>n3. Inr (n3, st2, []))))
         else if has_flags (revents p1) POLLIN
         then rbind (write_fd n1 i (p1\<lparr>events := POLLRDHUP, revents := 0\<rparr>)) (\<lambda>n2.
              rbind (start_server_reqhandler_thread st1 (Some c)) (\<lambda>(st2, ths). Inr (n2, st2, ths)))
         else Inr (n1, st1, []))"
      using False by (simp add: incoming_slot_def p(2) s(2) c r(1) p1)
    consider (hup) "has_flags (revents p1) poll_hangup"
      | (inp) "\<not> has_flags (revents p1) poll_hangup" "has_flags (revents p1) POLLIN"
      | (none) "\<not> has_flags (revents p1) poll_hangup" "\<not> has_flags (revents p1) POLLIN" by blast
    then show ?thesis
    proof cases
      case none
      then show ?thesis using pre r(2,3) by simp
    next
      case hup
      obtain st2 where s2: "client_dec_ref st1 (Some c) = Inr st2" "tracker_inv st2"
          "client_mem st2 = (client_mem st1)(c := if 1 < ref_count y1 then Some (y1\<lparr>ref_count := ref_count y1 - 1\<rparr>) else None)"
        using client_dec_ref_spec [OF ti1 r(6)] by blast
      define q where "q = \<lparr>fd = -1, events = 0, revents = 0 :: 16 word\<rparr>"
      define n3 where "n3 = n1\<lparr>slot_clients := (slot_clients n1)(i \<mapsto> None), fds := (fds n1)(i \<mapsto> q)\<rparr>"
      have e: "incoming_slot n st i = Inr (n3, st2, [])"
        using hup s2(1) sz by (simp add: pre write_fd_slot n3_def q_def)
      have en: "entries n3 = (entries n1)[i - 1 := (q, None)]"
        by (rule entries_upd [OF i(1) i1]) (simp_all add: n3_def)
      have ni3: "net_inv n3"
        by (rule net_inv_upd [where p = q and c = None, OF ni1 i(1) i1]) (simp_all add: n3_def entry_ok_def q_def)
      have "slot_count n3 d = slot_count n1 d - (if d = c then 1 else 0)" for d
        unfolding slot_count_def en count_upd [OF li] ei by simp
      then have rf: "refs n3 ths d = refs n1 ths d - (if d = c then 1 else 0)" for d
        using count_entry_pos [OF i(1) i1 s1] by (auto simp: refs_def)
      have "refs_ok n3 st2 ths"
        by (rule refs_dec [OF ro1 r(6) _ _ _ rf, where y' = "y1\<lparr>ref_count := ref_count y1 - 1\<rparr>"]) (simp_all add: s2(3))
      moreover have "sockets_ok st2" using so1 r(6) by (auto simp: sockets_ok_def s2(3) split: if_splits)
      ultimately show ?thesis using e ni3 s2(2) by (simp add: server_inv_def) (simp add: n3_def r(3))
    next
      case inp
      define y2 where "y2 = y1\<lparr>ref_count := ref_count y1 + 1\<rparr>"
      obtain st2 where s2: "client_inc_ref st1 (Some c) = Inr st2" "tracker_inv st2"
          "client_mem st2 = (client_mem st1)(c \<mapsto> y2)"
        using client_inc_ref_spec [OF ti1 r(6)] unfolding y2_def by blast
      define q where "q = p1\<lparr>events := POLLRDHUP, revents := 0\<rparr>"
      define n2 where "n2 = n1\<lparr>fds := (fds n1)(i \<mapsto> q)\<rparr>"
      have e: "incoming_slot n st i = Inr (n2, st2, [c])"
        using inp s2(1) by (simp add: pre write_fd_slot [OF sz] n2_def q_def start_server_reqhandler_thread_def)
      have sc2: "slot_clients n2 = (slot_clients n1)(i \<mapsto> Some c)" using s1 by (auto simp: n2_def)
      have en: "entries n2 = (entries n1)[i - 1 := (q, Some c)]"
        by (rule entries_upd [OF i(1) i1 _ _ sc2]) (simp_all add: n2_def)
      have ni2: "net_inv n2"
        by (rule net_inv_upd [where p = q, OF ni1 i(1) i1 _ _ _ sc2])
          (use False r(8) in \<open>simp_all add: n2_def entry_ok_def q_def\<close>)
      have "slot_count n2 d = slot_count n1 d" for d
      proof -
        have "slot_count n2 d = slot_count n1 d - (if c = d then 1 else 0) + (if c = d then 1 else 0)"
          unfolding slot_count_def en count_upd [OF li] ei by simp
        then show ?thesis using count_entry_pos [OF i(1) i1 s1] by (cases "c = d") simp_all
      qed
      then have rf: "refs n2 (ths + mset [c]) d = refs n1 ths d + (if d = c then 1 else 0)" for d
        by (simp add: refs_def)
      have "refs_ok n2 st2 (ths + mset [c])"
        by (rule refs_inc [OF ro1 _ _ _ _ rf, where r = "ref_count y1" and y' = y2]) (simp_all add: s2(3) y2_def r(6))
      moreover have "sockets_ok st2" using so1 r(6) by (auto simp: sockets_ok_def s2(3) y2_def)
      ultimately show ?thesis using e ni2 s2(2) by (simp add: server_inv_def) (simp add: n2_def r(3))
    qed
  qed
qed

lemma incoming_from_inv:
  assumes "server_inv n st (ths + mset started)" and "1 \<le> i"
  shows "\<exists>n' st' started'. incoming_from i n st started = Inr (n', st', started') \<and> server_inv n' st' (ths + mset started')"
  using assms
proof (induction i n st started rule: incoming_from.induct)
  case (1 i n st started)
  show ?case
  proof (cases "i < nfds n")
    case False
    then show ?thesis using "1.prems"(1) by (subst incoming_from.simps) auto
  next
    case True
    obtain n1 st1 new where s: "incoming_slot n st i = Inr (n1, st1, new)"
        "server_inv n1 st1 ((ths + mset started) + mset new)"
      using incoming_slot_inv [OF "1.prems"(1,2) True] by blast
    then have "server_inv n1 st1 (ths + mset (started @ new))" by (simp add: add.assoc)
    with "1.IH" [OF True s(1)] s(1) True show ?thesis
      by (subst incoming_from.simps) simp
  qed
qed

lemma handle_incoming_data_inv:
  "server_inv n st ths \<Longrightarrow>
   \<exists>n' st' started. handle_incoming_data n st = Inr (n', st', started) \<and> server_inv n' st' (ths + mset started)"
  using incoming_from_inv [of n st ths "[]" 1] by (simp add: handle_incoming_data_def)

section \<open>clean_fds\<close>

definition live_entry :: "pollfd \<times> cid option \<Rightarrow> bool" where
  "live_entry e \<longleftrightarrow> fd (fst e) \<noteq> -1"

lemma entries_last:
  assumes "nfds n' = nfds n - 1" and "fds n' = (fds n)(nfds n - 1 \<mapsto> p)" and "slot_clients n' = slot_clients n"
  shows "entries n' = butlast (entries n)"
proof (cases "nfds n \<le> 1")
  case True
  then show ?thesis by (simp add: entries_def assms(1))
next
  case False
  then have "[1..<nfds n] = [1..<nfds n - 1] @ [nfds n - 1]"
    using upt_Suc_append [of 1 "nfds n - 1"] by simp
  then show ?thesis by (simp add: entries_def assms)
qed

lemma entries_swap:
  assumes "1 \<le> i" and "i < nfds n - 1" and "nfds n' = nfds n - 1"
    and "fds n' = (fds n)(i \<mapsto> the (fds n (nfds n - 1)))"
    and "slot_clients n' = (slot_clients n)(i \<mapsto> the (slot_clients n (nfds n - 1)))"
  shows "entries n' = butlast ((entries n)[i - 1 := last (entries n)])"
proof -
  have up: "[1..<nfds n] = [1..<nfds n - 1] @ [nfds n - 1]"
    using upt_Suc_append [of 1 "nfds n - 1"] assms(1,2) by simp
  then have l: "last (entries n) = (the (fds n (nfds n - 1)), the (slot_clients n (nfds n - 1)))"
    by (simp add: entries_def)
  show ?thesis
    unfolding l by (rule nth_equalityI)
      (use assms in \<open>auto simp: nth_butlast entries_def nth_list_update simp del: upt_Suc\<close>)
qed

lemma butlast_swap:
  assumes "j < length xs - 1"
  shows "\<exists>us ms. xs = us @ xs ! j # ms @ [last xs] \<and> butlast (xs[j := last xs]) = us @ last xs # ms \<and> length us = j"
proof -
  have ne: "xs \<noteq> []" using assms by auto
  define ys where "ys = butlast xs"
  have xs: "xs = ys @ [last xs]" using ne by (simp add: ys_def)
  have j: "j < length ys" using assms by (simp add: ys_def)
  then have ys: "ys = take j ys @ ys ! j # drop (Suc j) ys" by (rule id_take_nth_drop)
  have "xs ! j = ys ! j" using xs j by (metis nth_append)
  moreover have "butlast (xs[j := last xs]) = ys[j := last xs]" using assms by (simp add: ys_def butlast_list_update)
  moreover have "ys[j := last xs] = take j ys @ last xs # drop (Suc j) ys" using j by (rule upd_conv_take_nth_drop)
  moreover have "xs = (take j ys @ ys ! j # drop (Suc j) ys) @ [last xs]" using xs ys by simp
  ultimately have "xs = take j ys @ xs ! j # drop (Suc j) ys @ [last xs] \<and>
      butlast (xs[j := last xs]) = take j ys @ last xs # drop (Suc j) ys \<and> length (take j ys) = j"
    using j by simp
  then show ?thesis by blast
qed

lemma clean_from_spec:
  assumes "net_inv n" and "1 \<le> i" and "list_all live_entry (take (i - 1) (entries n))"
  shows "\<exists>n'. clean_from i n = Inr n' \<and> net_inv n' \<and> list_all live_entry (entries n') \<and>
    mset (entries n') = mset (filter live_entry (entries n))"
  using assms
proof (induction i n rule: clean_from.induct)
  case (1 i n)
  note ni = "1.prems"(1) and i1 = "1.prems"(2)
  show ?case
  proof (cases "i < nfds n")
    case False
    then have "take (i - 1) (entries n) = entries n" by simp
    then have "list_all live_entry (entries n)" using "1.prems"(3) by simp
    moreover have "clean_from i n = Inr n" using False by (subst clean_from.simps) simp
    ultimately show ?thesis using ni by (simp add: list_all_iff filter_id_conv)
  next
    case True
    obtain p where p: "fds n i = Some p" "read_fd n i = Inr p" using net_inv_read(1) [OF ni True] by blast
    have ei: "entries n ! (i - 1) = (p, the (slot_clients n i))" by (simp only: nth_entries [OF i1 True] p option.sel)
    have li: "i - 1 < length (entries n)" using i1 True by simp
    show ?thesis
    proof (cases "fd p = -1")
      case alive: False
      have "take (Suc i - 1) (entries n) = take (i - 1) (entries n) @ [entries n ! (i - 1)]"
        using li i1 take_Suc_conv_app_nth [OF li] by simp
      moreover have "live_entry (entries n ! (i - 1))" unfolding ei live_entry_def using alive by simp
      ultimately have "list_all live_entry (take (Suc i - 1) (entries n))" using "1.prems"(3) by simp
      from "1.IH"(2) [OF True p(2) alive ni _ this] show ?thesis
        using True alive by (subst clean_from.simps) (simp add: p(2))
    next
      case dead: True
      have nl: "\<not> live_entry (entries n ! (i - 1))" unfolding ei live_entry_def using dead by simp
      have sz: "i < fds_buffer_size n" using ni True by (simp add: net_inv_def)
      show ?thesis
      proof (cases "i = nfds n - 1")
        case last: True
        define n' where "n' = n\<lparr>fds := (fds n)(nfds n - 1 \<mapsto> p\<lparr>fd := -2\<rparr>), nfds := nfds n - 1\<rparr>"
        have e: "clean_from i n = Inr n'"
          by (subst clean_from.simps)
            (simp only: True p(2) dead last [symmetric] if_True sum.case write_fd_slot [OF sz] rbind_Inr n'_def, simp)
        have en: "entries n' = butlast (entries n)" by (rule entries_last) (simp_all add: n'_def)
        have bl: "butlast (entries n) = take (i - 1) (entries n)"
          using last by (simp add: butlast_conv_take)
        have all: "list_all live_entry (entries n')" unfolding en bl using "1.prems"(3) .
        have "entries n = butlast (entries n) @ [entries n ! (i - 1)]"
          using li last by (metis append_butlast_last_id last_conv_nth length_entries list.size(3) not_less_zero)
        then have "filter live_entry (entries n) = filter live_entry (butlast (entries n))"
          using nl by (metis append_Nil2 filter.simps filter_append)
        then have fl: "filter live_entry (entries n) = entries n'"
          using all by (simp add: en list_all_iff filter_id_conv)
        have "list_all entry_ok (entries n')" using ni by (auto simp: net_inv_def en list_all_iff dest: in_set_butlastD)
        then have "net_inv n'" using ni i1 last by (auto simp: net_inv_def n'_def)
        then show ?thesis using e all fl by auto
      next
        case mid: False
        define m where "m = nfds n - 1"
        have m: "m < nfds n" "1 \<le> m" "i < m" using True i1 mid by (auto simp: m_def)
        obtain q where q: "fds n m = Some q" "read_fd n m = Inr q" using net_inv_read(1) [OF ni m(1)] by blast
        obtain s where s: "slot_clients n m = Some s" "read_slot n m = Inr s" using net_inv_read(2) [OF ni m(1,2)] by blast
        define n1 where "n1 = n\<lparr>fds := (fds n)(i \<mapsto> q), slot_clients := (slot_clients n)(i \<mapsto> s)\<rparr>"
        define n2 where "n2 = n1\<lparr>nfds := m\<rparr>"
        have rs: "read_slot (n\<lparr>fds := (fds n)(i \<mapsto> q)\<rparr>) m = Inr s"
          using s(2) by (auto simp: read_slot_def split: if_splits)
        have step: "rbind (read_fd n (nfds n - 1)) (\<lambda>q. rbind (write_fd n i q) (\<lambda>n1.
                        rbind (read_slot n1 (nfds n - 1)) (write_slot n1 i))) = Inr n1"
          unfolding m_def [symmetric] using sz rs by (simp add: q(2) write_fd_slot n1_def)
        have e: "clean_from i n = clean_from i n2"
          using True dead mid step by (subst clean_from.simps) (simp add: p(2) n2_def m_def)
        have en: "entries n2 = butlast ((entries n)[i - 1 := last (entries n)])"
          by (rule entries_swap) (use i1 m q s in \<open>simp_all add: n2_def n1_def m_def\<close>)
        have "i - 1 < length (entries n) - 1" using m i1 by (simp add: m_def)
        from butlast_swap [OF this] obtain us ms where us: "entries n = us @ entries n ! (i - 1) # ms @ [last (entries n)]"
            "entries n2 = us @ last (entries n) # ms" "length us = i - 1" unfolding en by blast
        have ms: "mset (filter live_entry (entries n2)) = mset (filter live_entry (entries n))"
          by (subst us(1), subst us(2)) (use nl in simp)
        have "take (i - 1) (entries n2) = us" using us(2,3) by simp
        moreover have "take (i - 1) (entries n) = us"
          by (subst us(1)) (simp only: us(3) [symmetric] append_eq_conv_conj [symmetric] append_take_drop_id take_append, simp)
        ultimately have tk: "list_all live_entry (take (i - 1) (entries n2))" using "1.prems"(3) by simp
        have "set (entries n2) \<subseteq> set (entries n)" by (subst us(1), subst us(2)) auto
        then have "list_all entry_ok (entries n2)" using ni by (auto simp: net_inv_def list_all_iff)
        then have ni2: "net_inv n2"
          using ni m i1 unfolding net_inv_def by (auto simp: n2_def n1_def)
        have n2: "n1\<lparr>nfds := nfds n - 1\<rparr> = n2" by (simp add: n2_def m_def)
        from "1.IH"(1) [OF True p(2) dead mid step, unfolded n2, OF ni2 i1 tk]
        show ?thesis unfolding e ms .
      qed
    qed
  qed
qed

lemma clean_fds_spec:
  assumes "net_inv n"
  shows "\<exists>n'. clean_fds n = Inr n' \<and> net_inv n' \<and> list_all live_entry (entries n') \<and>
    mset (entries n') = mset (filter live_entry (entries n))"
  using clean_from_spec [OF assms, of 1] by (simp add: clean_fds_def)

text \<open>Closing the gaps drops no client.\<close>

lemma clean_fds_inv:
  assumes "server_inv n st ths"
  shows "\<exists>n'. clean_fds n = Inr n' \<and> server_inv n' st ths \<and> list_all live_entry (entries n')"
proof -
  have ni: "net_inv n" using assms by (simp add: server_inv_def)
  obtain n' where n': "clean_fds n = Inr n'" "net_inv n'" "list_all live_entry (entries n')"
      "mset (entries n') = mset (filter live_entry (entries n))"
    using clean_fds_spec [OF ni] by blast
  have "slot_count n' c = slot_count n c" for c
  proof -
    have "entry_ok e \<Longrightarrow> snd e = Some c \<Longrightarrow> live_entry e" for e
      by (auto simp: entry_ok_def live_entry_def)
    then have "list_all entry_ok es \<Longrightarrow>
        count (mset (map snd (filter live_entry es))) (Some c) = count (mset (map snd es)) (Some c)" for es
      by (induction es) auto
    moreover have "list_all entry_ok (entries n)" using ni by (simp add: net_inv_def)
    ultimately have "count (mset (map snd (filter live_entry (entries n)))) (Some c) = slot_count n c"
      by (simp add: slot_count_def)
    moreover have "mset (map snd (entries n')) = mset (map snd (filter live_entry (entries n)))"
      unfolding mset_map n'(4) ..
    ultimately show ?thesis by (simp only: slot_count_def)
  qed
  then have "refs_ok n' st ths" using assms by (simp add: server_inv_def refs_ok_def refs_def)
  then show ?thesis using n' assms by (simp add: server_inv_def)
qed

section \<open>The server as a transition system\<close>

lemma poll_result_inv:
  assumes "server_inv n st ths"
  shows "server_inv (poll_result n ev) st ths"
proof -
  let ?n = "poll_result n ev"
  have ni: "net_inv n" using assms by (simp add: server_inv_def)
  have f: "fds ?n i = map_option (\<lambda>p. p\<lparr>revents := ev i\<rparr>) (fds n i)" if "i < nfds n" for i
    using that by (simp add: poll_result_def)
  have init: "fds n i \<noteq> None" if "i < nfds n" for i using ni that by (simp add: net_inv_def)
  have snds: "map snd (entries ?n) = map snd (entries n)"
    by (simp add: entries_def poll_result_def)
  have "entry_ok (entries ?n ! j)" if "j < nfds n - 1" for j
  proof -
    have b: "1 \<le> Suc j" "Suc j < nfds n" using that by auto
    have b': "Suc j < nfds ?n" using b by (simp add: poll_result_def)
    have "entries ?n ! j = (the (fds ?n (Suc j)), the (slot_clients ?n (Suc j)))"
      using nth_entries [OF b(1) b'] by simp
    moreover have "fd (the (fds ?n (Suc j))) = fd (the (fds n (Suc j)))"
      using init [OF b(2)] by (auto simp: f [OF b(2)])
    moreover have "slot_clients ?n = slot_clients n" by (simp add: poll_result_def)
    ultimately show ?thesis using net_inv_entry [OF ni b] by (simp add: entry_ok_def split: option.splits)
  qed
  then have "list_all entry_ok (entries ?n)" by (simp add: list_all_length poll_result_def)
  then have "net_inv ?n" using ni f by (auto simp: net_inv_def) (simp_all add: poll_result_def)
  moreover have "refs_ok ?n st ths"
    using assms by (simp add: server_inv_def refs_ok_def refs_def slot_count_def snds)
  ultimately show ?thesis using assms by (simp add: server_inv_def)
qed

text \<open>
  A round never faults, provided that \<open>getpeername\<close> succeeds on an accepted connection.
\<close>

lemma poll_round_inv:
  assumes inv: "server_inv n st ths" and a: "0 \<le> accepted"
  shows "\<exists>n' st' started. poll_round n st ev accepted (Some ad) = Inr (n', st', started) \<and>
    server_inv n' st' (ths + mset started) \<and> list_all live_entry (entries n')"
proof -
  let ?n = "poll_result n ev"
  have inv0: "server_inv ?n st ths" by (rule poll_result_inv [OF inv])
  then have ni0: "net_inv ?n" by (simp add: server_inv_def)
  then have "0 < nfds ?n" by (simp add: net_inv_def)
  then obtain p where p: "read_fd ?n 0 = Inr p" using net_inv_read(1) [OF ni0] by blast
  obtain n1 st1 where s1: "(if has_flags (revents p) POLLIN then handle_new_connection ?n st accepted (Some ad)
      else Inr (?n, st)) = Inr (n1, st1)" "server_inv n1 st1 ths"
    using handle_new_connection_inv [OF inv0 a, of ad] inv0 by (cases "has_flags (revents p) POLLIN") auto
  obtain n2 st2 started where s2: "handle_incoming_data n1 st1 = Inr (n2, st2, started)"
      "server_inv n2 st2 (ths + mset started)"
    using handle_incoming_data_inv [OF s1(2)] by blast
  obtain n3 where s3: "clean_fds n2 = Inr n3" "server_inv n3 st2 (ths + mset started)" "list_all live_entry (entries n3)"
    using clean_fds_inv [OF s2(2)] by blast
  have "poll_round n st ev accepted (Some ad) = Inr (n3, st2, started)"
    unfolding poll_round_def Let_def p rbind_Inr s1(1) prod.case s2(1) s3(1) ..
  with s3 show ?thesis by blast
qed

text \<open>The network thread and the request threads, whose runs are taken as atomic.\<close>

inductive server_step :: "net \<times> tracker \<times> cid multiset \<Rightarrow> net \<times> tracker \<times> cid multiset \<Rightarrow> bool" where
  round: "poll_round n st ev accepted peername = Inr (n', st', started) \<Longrightarrow>
    (peername = None \<or> 0 \<le> accepted) \<Longrightarrow> server_step (n, st, ths) (n', st', ths + mset started)"
| request: "c \<in># ths \<Longrightarrow> handle_request st c input = Inr st' \<Longrightarrow>
    server_step (n, st, ths) (n, st', ths - {#c#})"

inductive_cases server_stepE: "server_step s s'"

inductive reachable :: "net \<times> tracker \<times> cid multiset \<Rightarrow> bool" where
  start: "reachable (net_init l, tracker_init, {#})"
| step: "reachable s \<Longrightarrow> server_step s s' \<Longrightarrow> reachable s'"

lemma poll_round_None:
  assumes "server_inv n st ths" and r: "poll_round n st ev accepted None = Inr (n', st', started)"
  shows "poll_round n st ev 0 (Some ad) = Inr (n', st', started)"
proof -
  obtain p where p: "read_fd (poll_result n ev) 0 = Inr p"
    using r unfolding poll_round_def Let_def rbind_eq_Inr_iff by blast
  then have "\<not> has_flags (revents p) POLLIN"
    using r handle_new_connection_null by (auto simp: poll_round_def)
  with r p show ?thesis by (simp add: poll_round_def)
qed

lemma handle_request_server_inv:
  assumes inv: "server_inv n st ths" and c: "c \<in># ths" and e: "handle_request st c input = Inr st'"
  shows "server_inv n st' (ths - {#c#})"
proof -
  have ti: "tracker_inv st" and ro: "refs_ok n st ths" and so: "sockets_ok st" using inv by (auto simp: server_inv_def)
  have "0 < refs n ths c" using c by (simp add: refs_def)
  then obtain y where y: "client_mem st c = Some y" using refs_live [OF ro] by blast
  note h = handle_request_Inr [OF ti y e]
  have "refs_ok n st' (ths - {#c#})"
    unfolding refs_ok_def
  proof
    fix d
    show "ref_ok (client_mem st' d) (refs n (ths - {#c#}) d)"
    proof (cases "d = c")
      case True
      have "ref_count y = int (refs n ths c)" using refs_Some [OF ro y] by simp
      moreover have "refs n (ths - {#c#}) c = refs n ths c - 1" using c by (simp add: refs_def)
      ultimately show ?thesis using True h by (auto simp: ref_ok_def of_nat_diff split: if_splits)
    next
      case False
      then have "refs n (ths - {#c#}) d = refs n ths d" by (simp add: refs_def)
      then show ?thesis using False h ro by (simp add: refs_ok_def)
    qed
  qed
  moreover have "0 \<le> socket z" if "client_mem st' d = Some z" for d z
  proof (cases "d = c")
    case True
    then show ?thesis using h that so y by (auto simp: sockets_ok_def split: if_splits)
  next
    case False
    then show ?thesis using h that so by (auto simp: sockets_ok_def)
  qed
  ultimately show ?thesis using inv h by (auto simp: server_inv_def sockets_ok_def)
qed

lemma server_step_inv:
  "server_step s s' \<Longrightarrow> (\<lambda>(n, st, ths). server_inv n st ths) s \<Longrightarrow> (\<lambda>(n, st, ths). server_inv n st ths) s'"
proof (induction rule: server_step.induct)
  case (round n st ev accepted peername n' st' started ths)
  then have inv: "server_inv n st ths" by simp
  show ?case
  proof (cases peername)
    case None
    then show ?thesis
      using poll_round_inv [OF inv, of 0 ev] poll_round_None [OF inv] round(1) by fastforce
  next
    case (Some ad)
    then show ?thesis using poll_round_inv [OF inv, of accepted ev ad] round(1,2) by auto
  qed
next
  case (request c ths st input st' n)
  then show ?case using handle_request_server_inv by simp
qed

lemma reachable_inv: "reachable s \<Longrightarrow> (\<lambda>(n, st, ths). server_inv n st ths) s"
proof (induction rule: reachable.induct)
  case (start l)
  then show ?case by (simp add: server_inv_init)
next
  case (step s s')
  then show ?case using server_step_inv by blast
qed

section \<open>Properties\<close>



text \<open>
  A failed \<open>accept\<close> or \<open>getpeername\<close> is not handled: \<open>client_get_or_create\<close> returns a null
  pointer, and taking a reference to it follows that pointer.
\<close>

theorem new_connection_failed_lookup:
  "handle_new_connection n st accepted None = Inl Null_Deref"
  by (rule handle_new_connection_null)

text \<open>
  C26: \<open>clean_fds\<close> returns, and keeps exactly the slots in use, each as often as before: filling a
  gap from the end of the array loses no client and duplicates none.
\<close>

theorem clean_fds_keeps_live:
  assumes "net_inv n"
  shows "\<exists>n'. clean_fds n = Inr n' \<and> net_inv n' \<and> (\<forall>e \<in> set (entries n'). live_entry e) \<and>
    mset (entries n') = mset (filter live_entry (entries n)) \<and> nfds n' \<le> nfds n"
proof -
  obtain n' where s: "clean_fds n = Inr n'" "net_inv n'" "list_all live_entry (entries n')"
      "mset (entries n') = mset (filter live_entry (entries n))"
    using clean_fds_spec [OF assms] by blast
  have "length (entries n') \<le> length (entries n)"
    using arg_cong [OF s(4), of size] length_filter_le [of live_entry "entries n"] by (simp only: size_mset)
  moreover have "1 \<le> nfds n" "1 \<le> nfds n'" using assms s(2) by (simp_all add: net_inv_def)
  ultimately have "nfds n' \<le> nfds n" by simp
  with s show ?thesis by (auto simp: list_all_iff)
qed

lemma demo_reachable:
  "\<exists>n st started. poll_round (net_init 3) tracker_init (\<lambda>_. POLLIN) 4 (Some demo_peer) = Inr (n, st, started) \<and>
    reachable (n, st, mset started)"
proof -
  obtain n st started where s: "poll_round (net_init 3) tracker_init (\<lambda>_. POLLIN) 4 (Some demo_peer) = Inr (n, st, started)"
    using poll_round_inv [OF server_inv_init, of 4] by fastforce
  have "server_step (net_init 3, tracker_init, {#}) (n, st, {#} + mset started)"
    by (rule server_step.round [OF s]) simp
  with reachable.start have "reachable (n, st, {#} + mset started)" by (rule reachable.step)
  with s show ?thesis by auto
qed



lemma clean_fds_keeps_live_witness:
  "\<exists>n'. clean_fds \<lparr>nfds = 3, fds_buffer_size = 8,
        fds = [0 \<mapsto> \<lparr>fd = 3, events = 1, revents = 0\<rparr>, 1 \<mapsto> \<lparr>fd = -1, events = 0, revents = 0\<rparr>, 2 \<mapsto> \<lparr>fd = 5, events = 1, revents = 0\<rparr>],
        slot_clients = [1 \<mapsto> None, 2 \<mapsto> Some 7]\<rparr> = Inr n' \<and>
     mset (entries n') = {#(\<lparr>fd = 5, events = 1, revents = 0\<rparr>, Some 7)#} \<and> nfds n' \<le> 3"
proof -
  let ?n = "\<lparr>nfds = 3, fds_buffer_size = 8,
        fds = [0 \<mapsto> \<lparr>fd = 3, events = 1, revents = 0\<rparr>, 1 \<mapsto> \<lparr>fd = -1, events = 0, revents = 0\<rparr>, 2 \<mapsto> \<lparr>fd = 5, events = 1, revents = 0\<rparr>],
        slot_clients = [1 \<mapsto> None, 2 \<mapsto> Some 7]\<rparr> :: net"
  have e: "entries ?n = [(\<lparr>fd = -1, events = 0, revents = 0\<rparr>, None), (\<lparr>fd = 5, events = 1, revents = 0\<rparr>, Some 7)]"
    by (simp add: entries_def numeral_eq_Suc)
  have "net_inv ?n"
    unfolding net_inv_def e by (auto simp: entry_ok_def numeral_eq_Suc less_Suc_eq)
  from clean_fds_keeps_live [OF this] show ?thesis unfolding e by (auto simp: live_entry_def)
qed

end
