(* ===== verification/Socket_Setup.thy ===== *)
theory Socket_Setup
  imports Network
begin

text \<open>
  How both trackers come by their sockets: the calls that make the listener, accept and name connections, and close
  descriptors (\<open>tracker/network.c\<close>, \<open>tracker/util.c\<close>, \<open>tracker_cpp/common/network\<close>), over a model of the descriptors the
  system has open.
\<close>

section \<open>The system\<close>

record sock_state =
  bound :: "sockaddr_in option"
  remote :: "sockaddr_in option"
  listening :: bool
  reuse_addr :: bool
  no_delay :: bool
  non_blocking :: bool

text \<open>
  The open descriptors; for each call by its number whether it fails, the descriptor it hands out if it hands out one and
  the address at the other end if it accepts.
\<close>

record os =
  open_fds :: "nat \<Rightarrow> sock_state option"
  call_no :: nat
  refuse :: "nat \<Rightarrow> bool"
  give :: "nat \<Rightarrow> nat"
  peer_at :: "nat \<Rightarrow> sockaddr_in"

definition new_sock :: sock_state where
  "new_sock = \<lparr>bound = None, remote = None, listening = False, reuse_addr = False, no_delay = False, non_blocking = False\<rparr>"

definition sys_call :: "int \<Rightarrow> (os \<Rightarrow> os) \<Rightarrow> os \<Rightarrow> int \<times> os" where
  "sys_call r effect os =
     (let os' = os\<lparr>call_no := Suc (call_no os)\<rparr> in if refuse os (call_no os) then (-1, os') else (r, effect os'))"

definition set_fd :: "nat \<Rightarrow> sock_state \<Rightarrow> os \<Rightarrow> os" where
  "set_fd s x os = os\<lparr>open_fds := (open_fds os)(s \<mapsto> x)\<rparr>"

definition change_fd :: "nat \<Rightarrow> (sock_state \<Rightarrow> sock_state) \<Rightarrow> os \<Rightarrow> os" where
  "change_fd s f os = os\<lparr>open_fds := (open_fds os)(s := map_option f (open_fds os s))\<rparr>"

definition sys_socket :: "os \<Rightarrow> int \<times> os" where
  "sys_socket os = (let s = give os (call_no os) in sys_call (int s) (set_fd s new_sock) os)"

definition sys_setsockopt :: "nat \<Rightarrow> (sock_state \<Rightarrow> sock_state) \<Rightarrow> os \<Rightarrow> int \<times> os" where
  "sys_setsockopt s f os = sys_call 0 (change_fd s f) os"

definition sys_bind :: "nat \<Rightarrow> sockaddr_in \<Rightarrow> os \<Rightarrow> int \<times> os" where
  "sys_bind s si os = sys_call 0 (change_fd s (\<lambda>x. x\<lparr>bound := Some si\<rparr>)) os"

definition sys_listen :: "nat \<Rightarrow> os \<Rightarrow> int \<times> os" where
  "sys_listen s os = sys_call 0 (change_fd s (\<lambda>x. x\<lparr>listening := True\<rparr>)) os"

definition sys_connect :: "nat \<Rightarrow> sockaddr_in \<Rightarrow> os \<Rightarrow> int \<times> os" where
  "sys_connect s si os = sys_call 0 (change_fd s (\<lambda>x. x\<lparr>remote := Some si\<rparr>)) os"

definition sys_accept :: "nat \<Rightarrow> os \<Rightarrow> int \<times> os" where
  "sys_accept listener os =
     (let s = give os (call_no os); b = (case open_fds os listener of None \<Rightarrow> None | Some x \<Rightarrow> bound x)
      in sys_call (int s) (set_fd s (new_sock\<lparr>bound := b, remote := Some (peer_at os (call_no os))\<rparr>)) os)"

definition sys_dup :: "nat \<Rightarrow> os \<Rightarrow> int \<times> os" where
  "sys_dup s os =
     (let d = give os (call_no os) in sys_call (int d) (\<lambda>os. os\<lparr>open_fds := (open_fds os)(d := open_fds os s)\<rparr>) os)"

definition sys_nonblock :: "nat \<Rightarrow> os \<Rightarrow> os" where
  "sys_nonblock s os = snd (sys_call 0 (change_fd s (\<lambda>x. x\<lparr>non_blocking := True\<rparr>)) os)"

definition sys_close :: "nat \<Rightarrow> os \<Rightarrow> os" where
  "sys_close s os = os\<lparr>open_fds := (open_fds os)(s := None)\<rparr>"

text \<open>\<open>getsockname\<close> and \<open>getpeername\<close>: the address, if the call does not fail.\<close>

definition sys_name :: "(sock_state \<Rightarrow> sockaddr_in option) \<Rightarrow> nat \<Rightarrow> os \<Rightarrow> sockaddr_in option \<times> os" where
  "sys_name which s os =
     ((if refuse os (call_no os) then None
       else case open_fds os s of None \<Rightarrow> None | Some x \<Rightarrow> which x), os\<lparr>call_no := Suc (call_no os)\<rparr>)"

text \<open>The macro \<open>CHK\<close> of both trackers ends the program when a call fails.\<close>

definition chk :: "int \<times> os \<Rightarrow> (nat \<times> os) result" where
  "chk r = (if fst r < 0 then Inl Exits else Inr (nat (fst r), snd r))"

definition htons :: "16 word \<Rightarrow> 16 word" where
  "htons w = or (push_bit 8 w) (drop_bit 8 w)"

section \<open>The listener of the C tracker\<close>

definition make_listener_socket :: "32 word \<Rightarrow> 16 word \<Rightarrow> os \<Rightarrow> (nat \<times> os) result" where
  "make_listener_socket ad port os =
     rbind (chk (sys_socket os)) (\<lambda>(s, os).
     rbind (chk (sys_setsockopt s (\<lambda>x. x\<lparr>reuse_addr := True\<rparr>) os)) (\<lambda>(_, os).
     let si = \<lparr>s_addr = ad, sin_port = htons port\<rparr>
     in rbind (chk (sys_bind s si os)) (\<lambda>(_, os).
        rbind (chk (sys_listen s os)) (\<lambda>(_, os). Inr (s, os)))))"

definition accept_connection :: "nat \<Rightarrow> os \<Rightarrow> int \<times> os" where
  "accept_connection listener os = (let (s, os) = sys_accept listener os in if s < 0 then (-1, os) else (s, os))"

text \<open>The network thread's signals: which it blocks, and which have a handler and so interrupt a call.\<close>

record signals =
  blocked :: "int \<Rightarrow> bool"
  handled :: "int \<Rightarrow> bool"

definition SIGUSR1 :: int where "SIGUSR1 = 10"

definition block_all_signals_but_usr1 :: "signals \<Rightarrow> signals" where
  "block_all_signals_but_usr1 t = t\<lparr>blocked := (\<lambda>s. s \<noteq> SIGUSR1)\<rparr>"

definition install_network_signal_handler :: "signals \<Rightarrow> signals" where
  "install_network_signal_handler t = t\<lparr>handled := (handled t)(SIGUSR1 := True)\<rparr>"

definition interrupts :: "signals \<Rightarrow> int \<Rightarrow> bool" where
  "interrupts t sig \<longleftrightarrow> handled t sig \<and> \<not> blocked t sig"

text \<open>\<open>server_run\<close> up to its loop, which is \<open>poll_round\<close>.\<close>

definition server_run_start :: "32 word \<Rightarrow> 16 word \<Rightarrow> signals \<Rightarrow> os \<Rightarrow> (signals \<times> net \<times> os) result" where
  "server_run_start ad port t os =
     (let t = install_network_signal_handler (block_all_signals_but_usr1 t)
      in rbind (make_listener_socket ad port os) (\<lambda>(listener, os). Inr (t, net_init (int listener), os)))"

definition server_run_bind_any_addr :: "16 word \<Rightarrow> signals \<Rightarrow> os \<Rightarrow> (signals \<times> net \<times> os) result" where
  "server_run_bind_any_addr port = server_run_start 0 port"

text \<open>Given the result of \<open>poll\<close> and whether \<open>errno\<close> is \<open>EINTR\<close>: whether the loop goes on.\<close>

definition poll_checked :: "int \<Rightarrow> bool \<Rightarrow> unit result" where
  "poll_checked ret eintr = (if ret < 0 \<and> \<not> eintr then Inl Exits else Inr ())"

text \<open>Given the result of \<open>pthread_create\<close>, 0 or the number of the error.\<close>

definition start_detached_thread :: "int \<Rightarrow> unit result" where
  "start_detached_thread r = (if r < 0 then Inl Exits else Inr ())"

definition start_attached_thread :: "int \<Rightarrow> unit result" where
  "start_attached_thread r = (if r < 0 then Inl Exits else Inr ())"

section \<open>Sockets of the C++ tracker\<close>

text \<open>\<open>inet_aton\<close> is an argument. The address it does not understand stays 0 in \<open>makeListener\<close>, and uninitialised in \<open>connect\<close>.\<close>

definition sockaddr_to_string :: "sockaddr_in \<Rightarrow> string" where
  "sockaddr_to_string si = inet_ntop (s_addr si) @ '':'' @ dec (unat (ntohs (sin_port si)))"

definition make_listener :: "(string \<Rightarrow> 32 word option) \<Rightarrow> string \<Rightarrow> 16 word \<Rightarrow> os \<Rightarrow> (nat \<times> os) result" where
  "make_listener aton ad port os =
     rbind (chk (sys_socket os)) (\<lambda>(s, os).
     rbind (chk (sys_setsockopt s (\<lambda>x. x\<lparr>reuse_addr := True\<rparr>) os)) (\<lambda>(_, os).
     let si = \<lparr>s_addr = (case aton ad of None \<Rightarrow> 0 | Some a \<Rightarrow> a), sin_port = htons port\<rparr>
     in rbind (chk (sys_bind s si os)) (\<lambda>(_, os).
        rbind (chk (sys_listen s os)) (\<lambda>(_, os). Inr (s, os)))))"

definition sock_connect :: "(string \<Rightarrow> 32 word option) \<Rightarrow> string \<Rightarrow> 16 word \<Rightarrow> os \<Rightarrow> (nat \<times> os) result" where
  "sock_connect aton address port os =
     rbind (chk (sys_socket os)) (\<lambda>(s, os).
       case aton address of
         None \<Rightarrow> Inl Uninitialised
       | Some a \<Rightarrow> rbind (chk (sys_connect s \<lparr>s_addr = a, sin_port = htons port\<rparr> os)) (\<lambda>(_, os). Inr (s, os)))"

definition sock_accept :: "nat \<Rightarrow> os \<Rightarrow> int \<times> os" where
  "sock_accept listener os = sys_accept listener os"

record cpp_sock =
  sock_fd :: nat
  local_addr :: sockaddr_in
  remote_addr :: "sockaddr_in option"

definition new_socket :: "nat \<Rightarrow> os \<Rightarrow> (cpp_sock \<times> os) result" where
  "new_socket s os =
     (case sys_name bound s os of
        (None, os) \<Rightarrow> Inl Exits
      | (Some a, os) \<Rightarrow> Inr (\<lparr>sock_fd = s, local_addr = a, remote_addr = None\<rparr>, os))"

definition get_local_ip :: "cpp_sock \<Rightarrow> 32 word" where
  "get_local_ip x = s_addr (local_addr x)"

definition socket_to_string :: "cpp_sock \<Rightarrow> string" where
  "socket_to_string x = sockaddr_to_string (local_addr x)"

datatype socket_option = SO_TCP_NODELAY

definition set_option :: "cpp_sock \<Rightarrow> socket_option \<Rightarrow> os \<Rightarrow> os result" where
  "set_option x opt os =
     (case opt of SO_TCP_NODELAY \<Rightarrow>
        rbind (chk (sys_setsockopt (sock_fd x) (\<lambda>y. y\<lparr>no_delay := True\<rparr>) os)) (\<lambda>(_, os). Inr os))"

definition delete_socket :: "cpp_sock \<Rightarrow> os \<Rightarrow> os" where
  "delete_socket x os = sys_close (sock_fd x) os"

definition new_client_socket :: "nat \<Rightarrow> os \<Rightarrow> (cpp_sock \<times> os) result" where
  "new_client_socket s os =
     rbind (new_socket s os) (\<lambda>(x, os).
       case sys_name remote s os of
         (None, os) \<Rightarrow> Inl Exits
       | (Some a, os) \<Rightarrow> Inr (x\<lparr>remote_addr := Some a\<rparr>, os))"

definition new_client_socket_to ::
  "(string \<Rightarrow> 32 word option) \<Rightarrow> string \<Rightarrow> 16 word \<Rightarrow> os \<Rightarrow> (cpp_sock \<times> os) result" where
  "new_client_socket_to aton ad port os =
     rbind (sock_connect aton ad port os) (\<lambda>(s, os). rbind (new_socket s os) (\<lambda>(x, os).
       case sys_name remote (sock_fd x) os of
         (None, os) \<Rightarrow> Inl Exits
       | (Some a, os) \<Rightarrow> Inr (x\<lparr>remote_addr := Some a\<rparr>, os)))"

definition get_remote_ip :: "cpp_sock \<Rightarrow> 32 word result" where
  "get_remote_ip x = (case remote_addr x of None \<Rightarrow> Inl Uninitialised | Some a \<Rightarrow> Inr (s_addr a))"

definition new_server_socket :: "(string \<Rightarrow> 32 word option) \<Rightarrow> string \<Rightarrow> 16 word \<Rightarrow> os \<Rightarrow> (cpp_sock \<times> os) result" where
  "new_server_socket aton ad port os = rbind (make_listener aton ad port os) (\<lambda>(s, os). new_socket s os)"

definition new_p2p_listener :: "(string \<Rightarrow> 32 word option) \<Rightarrow> 16 word \<Rightarrow> os \<Rightarrow> (cpp_sock \<times> os) result" where
  "new_p2p_listener aton port os = new_server_socket aton ''0.0.0.0'' port os"

text \<open>The descriptor of a writer; the result of \<open>dup\<close> is not checked.\<close>

definition make_nonblocking_fd :: "nat \<Rightarrow> os \<Rightarrow> os" where
  "make_nonblocking_fd s os = sys_nonblock s os"

definition make_sock_fd :: "nat \<Rightarrow> os \<Rightarrow> int \<times> os" where
  "make_sock_fd sock os =
     (let (s, os) = sys_dup sock os; os = make_nonblocking_fd sock os
      in (s, if 0 \<le> s then make_nonblocking_fd (nat s) os else os))"

definition delete_socket_writer :: "nat \<Rightarrow> os \<Rightarrow> os" where
  "delete_socket_writer s os = sys_close s os"

section \<open>What they leave behind\<close>

lemma sys_call_simps:
  "refuse os (call_no os) \<Longrightarrow> fst (sys_call r f os) = -1"
  "\<not> refuse os (call_no os) \<Longrightarrow> sys_call r f os = (r, f (os\<lparr>call_no := Suc (call_no os)\<rparr>))"
  by (simp_all add: sys_call_def Let_def)

lemma chk_call:
  "0 \<le> r \<Longrightarrow> chk (sys_call r f os) =
     (if refuse os (call_no os) then Inl Exits else Inr (nat r, f (os\<lparr>call_no := Suc (call_no os)\<rparr>)))"
  by (simp add: chk_def sys_call_def Let_def)

definition listener_sock :: "32 word \<Rightarrow> 16 word \<Rightarrow> sock_state" where
  "listener_sock ad port = new_sock\<lparr>bound := Some \<lparr>s_addr = ad, sin_port = htons port\<rparr>, reuse_addr := True, listening := True\<rparr>"

text \<open>The program ends if one of the four calls fails; else there is one more descriptor, a listening socket.\<close>

lemma make_listener_socket_bound:
  "make_listener_socket ad port os =
    (if \<exists>i < 4. refuse os (call_no os + i) then Inl Exits
     else Inr (give os (call_no os),
       os\<lparr>open_fds := (open_fds os)(give os (call_no os) \<mapsto> listener_sock ad port), call_no := call_no os + 4\<rparr>))"
proof -
  have e: "(\<exists>i < 4. refuse os (call_no os + i)) \<longleftrightarrow> refuse os (call_no os) \<or> refuse os (Suc (call_no os)) \<or>
      refuse os (Suc (Suc (call_no os))) \<or> refuse os (Suc (Suc (Suc (call_no os))))"
    by (simp add: numeral_eq_Suc less_Suc_eq ex_disj_distrib conj_disj_distribR)
  show ?thesis unfolding e
    by (simp add: make_listener_socket_def sys_socket_def sys_setsockopt_def sys_bind_def sys_listen_def chk_call set_fd_def
        change_fd_def listener_sock_def Let_def) (simp add: new_sock_def numeral_eq_Suc)
qed

lemma make_listener_is_C: "make_listener aton ad = make_listener_socket (case aton ad of None \<Rightarrow> 0 | Some a \<Rightarrow> a)"
  by (rule ext)+ (simp add: make_listener_def make_listener_socket_def)

lemma sockaddr_to_string_is_C: "sockaddr_to_string = sockaddr_stringify"
  by (rule ext) (simp add: sockaddr_to_string_def sockaddr_stringify_def)

lemma ntohs_htons: "ntohs (htons w) = w"
  using ntohs_involution [of w] by (simp add: ntohs_def htons_def)

text \<open>What both say they listen on.\<close>

lemma listener_name: "map_option sockaddr_stringify (bound (listener_sock ad port)) = Some (inet_ntop ad @ '':'' @ dec (unat port))"
  by (simp add: listener_sock_def sockaddr_stringify_def ntohs_htons)

text \<open>Only \<open>SIGUSR1\<close> interrupts the network thread's calls.\<close>

lemma network_signals:
  "interrupts (install_network_signal_handler (block_all_signals_but_usr1 t)) sig \<longleftrightarrow> sig = SIGUSR1"
  by (simp add: interrupts_def install_network_signal_handler_def block_all_signals_but_usr1_def)

text \<open>\<open>pthread_create\<close> never returns a negative number: that it failed is never noticed.\<close>

lemma thread_failure_unnoticed: "0 \<le> r \<Longrightarrow> start_detached_thread r = Inr () \<and> start_attached_thread r = Inr ()"
  by (simp add: start_detached_thread_def start_attached_thread_def)

text \<open>A connection of the C++ tracker closes the descriptors it was given: that of \<open>accept\<close> and that of \<open>dup\<close>.\<close>

lemma connection_closes:
  assumes l: "open_fds os listener = Some x" "bound x \<noteq> None"
    and ok: "\<forall>n \<ge> call_no os. \<not> refuse os n" and a: "sock_accept listener os = (int s, os1)"
    and fr: "open_fds os s = None" "open_fds os (give os (call_no os + 3)) = None" "give os (call_no os + 3) \<noteq> s"
  shows "\<exists>y os2 d os3. new_client_socket s os1 = Inr (y, os2) \<and> make_sock_fd s os2 = (int d, os3) \<and>
    get_remote_ip y = Inr (s_addr (peer_at os (call_no os))) \<and>
    open_fds (delete_socket y (delete_socket_writer d os3)) = open_fds os"
proof -
  let ?n = "call_no os" and ?d = "give os (call_no os + 3)"
  obtain b where b: "bound x = Some b" using l(2) by blast
  have r: "\<not> refuse os ?n" "\<not> refuse os (Suc ?n)" "\<not> refuse os (Suc (Suc ?n))" "\<not> refuse os (Suc (Suc (Suc ?n)))"
    "\<not> refuse os (Suc (Suc (Suc (Suc ?n))))" "\<not> refuse os (Suc (Suc (Suc (Suc (Suc ?n)))))"
    using ok by simp_all
  let ?y = "new_sock\<lparr>bound := Some b, remote := Some (peer_at os ?n)\<rparr>"
  have s: "s = give os ?n" "os1 = os\<lparr>call_no := Suc ?n, open_fds := (open_fds os)(s \<mapsto> ?y)\<rparr>"
    using a r(1) l b by (auto simp: sock_accept_def sys_accept_def sys_call_simps(2) set_fd_def Let_def)
  have 3: "?n + 3 = Suc (Suc (Suc ?n))" by simp
  note fr' = fr(2,3) [unfolded 3]
  let ?c = "\<lparr>sock_fd = s, local_addr = b, remote_addr = Some (peer_at os ?n)\<rparr>"
  let ?os2 = "os\<lparr>call_no := Suc (Suc (Suc ?n)), open_fds := (open_fds os)(s \<mapsto> ?y)\<rparr>"
  have c: "new_client_socket s os1 = Inr (?c, ?os2)"
    using r by (simp add: new_client_socket_def new_socket_def sys_name_def s(2))
  obtain os3 where m: "make_sock_fd s ?os2 = (int (give os (Suc (Suc (Suc ?n)))), os3)"
    "open_fds os3 = (open_fds os)(s \<mapsto> ?y\<lparr>non_blocking := True\<rparr>, give os (Suc (Suc (Suc ?n))) \<mapsto> ?y\<lparr>non_blocking := True\<rparr>)"
    using r fr' by (auto simp: make_sock_fd_def sys_dup_def make_nonblocking_fd_def sys_nonblock_def sys_call_simps(2)
        change_fd_def Let_def fun_upd_twist)
  have "open_fds (delete_socket ?c (delete_socket_writer (give os (Suc (Suc (Suc ?n)))) os3)) = open_fds os"
    using fr(1) fr' by (simp add: delete_socket_def delete_socket_writer_def sys_close_def m(2) fun_upd_idem fun_upd_twist)
  with c m(1) show ?thesis by (auto simp: get_remote_ip_def)
qed

end
