(* ===== verification/Startup.thy ===== *)
theory Startup
  imports Config Socket_Setup
begin

text \<open>
  The start of the C tracker as a whole: \<open>main\<close> from the command line and the configuration file to the first round of
  the poll loop.
\<close>

text \<open>
  Given also the signals of the thread, the state of the system and what \<open>pthread_create\<close> returns for the thread of the
  prompt: the exit status, or what the loop of \<open>server_run\<close> starts from.
\<close>

definition run_main ::
  "(string \<Rightarrow> bool) \<Rightarrow> (char \<times> string) list \<Rightarrow> int \<Rightarrow> int \<times> string list \<Rightarrow> bool \<Rightarrow> (string \<Rightarrow> yaml_event list option) \<Rightarrow>
   int \<Rightarrow> int \<Rightarrow> int \<Rightarrow> signals \<Rightarrow> os \<Rightarrow> (int + signals \<times> net \<times> os) result" where
  "run_main access evs optind args initialized fopen p sid thread sig os =
     rbind (main_program access evs optind args initialized fopen p sid) (\<lambda>r. case r of
         Exit code \<Rightarrow> Inr (Inl code)
       | Serve port prompt \<Rightarrow>
           rbind (if prompt then start_detached_thread thread else Inr ()) (\<lambda>_.
           rbind (server_run_bind_any_addr port sig os) (\<lambda>s. Inr (Inr s))))"


definition demo_os :: os where
  "demo_os = \<lparr>open_fds = Map.empty, call_no = 0, refuse = (\<lambda>n. 4 \<le> n), give = (\<lambda>n. n + 3), peer_at = (\<lambda>_. \<lparr>s_addr = 0, sin_port = 0\<rparr>)\<rparr>"


end
