(* ===== verification/Prompt.thy ===== *)
theory Prompt
  imports Clients String2 Config
begin

text \<open>
  \<open>tracker/prompt.c\<close>: the commands of the console. What a command prints is its result; what
  \<open>readline\<close> returns is an argument, and the state of the tracker is the one the command finds.
\<close>

section \<open>Lines\<close>

definition is_white :: "string \<Rightarrow> bool" where
  "is_white str \<longleftrightarrow> list_all c_isblank str"

definition nl :: string where
  "nl = [CHR 0x0A]"

definition tab :: string where
  "tab = [CHR 0x09]"

section \<open>Help\<close>

definition get_command_help :: "string \<Rightarrow> string" where
  "get_command_help cmd =
     (let quit_str = tab @ ''No help for this command. Sorry.'' @ nl @ tab @ ''But this one should be rather obvious ;)''
      in if cmd = ''client'' then tab @ ''client list: print a list of connected client''
         else if cmd = ''file''
         then tab @ ''file list: print a list of known files'' @ nl @
              tab @ ''file peers filename: print peers for file '' @ [CHR 0x27] @ ''filename'' @ [CHR 0x27]
         else if cmd = ''help'' then tab @ ''help cmd: display the help for '' @ [CHR 0x27] @ ''cmd'' @ [CHR 0x27]
         else if cmd = ''quit'' then quit_str
         else if cmd = ''exit'' then quit_str
         else if cmd = ''peers''
         then ''No arguments: print the list of all peers'' @ nl @ ''With arguments: print peers for given file(s)''
         else tab @ ''No help for this command. Sorry.'')"

section \<open>Listings\<close>

definition client_line :: "nat \<Rightarrow> client \<Rightarrow> string" where
  "client_line i y = ''#'' @ dec i @ '': '' @ ip_stringify (s_addr (addr y)) @ '' listening on port '' @
     dec (unat (listening_port y)) @ nl"

definition file_line :: "nat \<Rightarrow> shared_file \<Rightarrow> string" where
  "file_line i x = ''#'' @ dec i @ '': '' @ filename x @ '' | '' @ md5_str x @ '' | '' @ dec (unat (flength x)) @ '' B | '' @
     dec (unat (piece_count x)) @ '' p | ps: '' @ dec (unat (piece_size x)) @ nl"

definition print_client_list :: "tracker \<Rightarrow> string result" where
  "print_client_list st =
     rbind (client_list st) (\<lambda>cl.
       let l = list_size cl
       in if l = 0 then Inr (''No clients.'' @ nl)
          else rbind
            (list_iter list_get
              (\<lambda>c (i, out). rbind (deref c) (\<lambda>c. rbind (load_client st c) (\<lambda>y. Inr (Suc i, out @ client_line i y))))
              1 l cl (1 :: nat, []))
            (\<lambda>(_, _, out). Inr out))"

definition print_file_list :: "tracker \<Rightarrow> string result" where
  "print_file_list st =
     rbind (file_list st) (\<lambda>cl.
       let l = list_size cl
       in if l = 0 then Inr (''No files.'' @ nl)
          else rbind
            (list_iter list_get
              (\<lambda>f (i, out). rbind (deref f) (\<lambda>f. rbind (load_file st f) (\<lambda>x. Inr (Suc i, out @ file_line i x))))
              1 l cl (1 :: nat, []))
            (\<lambda>(_, _, out). Inr out))"

definition print_peer_list :: "tracker \<Rightarrow> string \<Rightarrow> string result" where
  "print_peer_list st file_id =
     (case file_get_by_name st file_id of
        Some a \<Rightarrow>
          rbind (load_list st a) (\<lambda>l. rbind
            (list_iter list_get
              (\<lambda>f out. rbind (deref f) (\<lambda>f. rbind (file_print_peer_list st f) (\<lambda>s. Inr (out @ s))))
              1 (list_size l) l [])
            (\<lambda>(_, out). Inr out))
      | None \<Rightarrow>
          (case file_get_by_key st file_id of
             Some f \<Rightarrow> file_print_peer_list st f
           | None \<Rightarrow> Inr (''No such file: '' @ file_id @ nl)))"

section \<open>Commands\<close>

text \<open>\<open>command\<close> is the array of words with its length \<open>len\<close>.\<close>

definition prompt_command_client :: "tracker \<Rightarrow> string list \<Rightarrow> string result" where
  "prompt_command_client st command =
     (if 2 \<le> length command \<and> command ! 1 = ''list'' then print_client_list st
      else Inr (get_command_help ''client'' @ nl))"

definition prompt_command_peers :: "tracker \<Rightarrow> string list \<Rightarrow> string result" where
  "prompt_command_peers st command =
     (if length command = 1 then print_client_list st
      else fold_result (\<lambda>w out. rbind (print_peer_list st w) (\<lambda>s. Inr (out @ s))) (drop 1 command) [])"

definition prompt_command_file :: "tracker \<Rightarrow> string list \<Rightarrow> string result" where
  "prompt_command_file st command =
     (if 2 \<le> length command \<and> command ! 1 = ''list'' then print_file_list st
      else if 3 \<le> length command \<and> command ! 1 = ''peers'' then prompt_command_peers st (drop 1 command)
      else Inr (get_command_help ''file'' @ nl))"

definition prompt_command_help :: "string list \<Rightarrow> string" where
  "prompt_command_help command =
     (if 1 < length command
      then concat (map (\<lambda>w. w @ '':'' @ nl @ get_command_help w @ nl) (drop 1 command))
      else ''Press [tab][tab] (tabulation twice) to see a list of available commands'' @ nl @
           ''Run '' @ [CHR 0x27] @ ''help cmd'' @ [CHR 0x27] @ '' to get help on the given argument `cmd'' @ [CHR 0xC2, CHR 0xB4] @ nl)"

definition prompt_command_ls :: "tracker \<Rightarrow> string result" where
  "prompt_command_ls st =
     (let cmd = ['''', ''list'']
      in rbind (prompt_command_file st cmd) (\<lambda>a. rbind (prompt_command_client st cmd) (\<lambda>b.
           Inr (''File list:'' @ nl @ a @ nl @ ''Peer list:'' @ nl @ b))))"

text \<open>
  \<open>eval\<close>: whether to quit, what is printed, and the command passed to \<open>system\<close>. For a line
  without words \<open>string_split\<close> leaves a null pointer, and \<open>command[0]\<close> follows it.
\<close>

definition prompt_eval :: "tracker \<Rightarrow> string \<Rightarrow> (bool \<times> string \<times> string option) result" where
  "prompt_eval st command_str =
     (if command_str \<noteq> [] \<and> hd command_str = CHR ''!'' then Inr (False, [], Some (tl command_str))
      else rbind (string_split (Some command_str) '' '') (\<lambda>command.
        if command = [] then Inl Null_Deref
        else let cmd = command ! 0; show = (\<lambda>r. rbind r (\<lambda>out. Inr (False, out, None)))
          in if cmd = ''client'' then show (prompt_command_client st command)
             else if cmd = ''file'' then show (prompt_command_file st command)
             else if cmd = ''help'' then show (Inr (prompt_command_help command))
             else if cmd = ''ls'' then show (prompt_command_ls st)
             else if cmd = ''peers'' then show (prompt_command_peers st command)
             else if cmd = ''whoami'' then show (Inr (''tracker'' @ nl))
             else if cmd = ''quit'' \<or> cmd = ''exit'' then Inr (True, [], None)
             else show (Inr (''unknown command '' @ [CHR 0x27] @ cmd @ [CHR 0x27] @ ''.'' @ nl @
                             ''try the '' @ [CHR 0x27] @ ''help'' @ [CHR 0x27] @ '' command to get started!'' @ nl))))"

text \<open>Each line comes with the state it finds; the end of the list is the end of the input.\<close>

fun read_eval_loop :: "(tracker \<times> string) list \<Rightarrow> (string \<times> string list) result" where
  "read_eval_loop [] = Inr (''exiting ...'' @ nl, [])"
| "read_eval_loop ((st, command) # rest) =
     (if 0 < length command \<and> \<not> is_white command
      then rbind (prompt_eval st command) (\<lambda>(quit, out, sys).
             rbind (if quit then Inr (''exiting ...'' @ nl, []) else read_eval_loop rest) (\<lambda>(out', sys').
               Inr (out @ out', (case sys of None \<Rightarrow> [] | Some s \<Rightarrow> [s]) @ sys')))
      else read_eval_loop rest)"

definition command_prompt :: "string hash_table \<Rightarrow> (tracker \<times> string) list \<Rightarrow> (string \<times> string list) result" where
  "command_prompt options lines =
     (if option_daemonize options then Inr ([], [])
      else rbind (read_eval_loop lines) (\<lambda>(out, sys).
             Inr (''type '' @ [CHR 0x27] @ ''help'' @ [CHR 0x27] @ '' to get started!'' @ nl @ out, sys)))"

section \<open>Completion\<close>

definition completion_cmd :: "string list" where
  "completion_cmd = [''quit'', ''exit'', ''help'', ''client'', ''file'', ''peers'', ''ls'', ''whoami'']"

text \<open>
  \<open>my_generator\<close> with its static variables \<open>list_index\<close> and \<open>len\<close>; \<open>state\<close> is zero on the
  first call. The loop stops at the null pointer that ends the array.
\<close>

fun generator_loop :: "string \<Rightarrow> nat \<Rightarrow> nat \<Rightarrow> string list \<Rightarrow> string option \<times> nat" where
  "generator_loop text n list_index [] = (None, list_index)"
| "generator_loop text n list_index (name # names) =
     (if take n name = take n text then (Some name, Suc list_index)
      else generator_loop text n (Suc list_index) names)"

definition my_generator :: "string \<Rightarrow> int \<Rightarrow> nat \<times> nat \<Rightarrow> string option \<times> nat \<times> nat" where
  "my_generator text state static =
     (let (list_index, n) = (if state = 0 then (0, length text) else static);
          (name, list_index') = generator_loop text n list_index (drop list_index completion_cmd)
      in (name, list_index', n))"

text \<open>
  \<open>rl_completion_matches\<close> calls the generator until it returns the null pointer; the first
  argument bounds the number of calls.
\<close>

fun completion_matches :: "nat \<Rightarrow> string \<Rightarrow> int \<Rightarrow> nat \<times> nat \<Rightarrow> string list option" where
  "completion_matches 0 text state static = None"
| "completion_matches (Suc k) text state static =
     (case my_generator text state static of
        (None, _) \<Rightarrow> Some []
      | (Some name, static') \<Rightarrow> map_option ((#) name) (completion_matches k text 1 static'))"

definition my_completion :: "string \<Rightarrow> int \<Rightarrow> nat \<times> nat \<Rightarrow> string list option" where
  "my_completion text start static = (if start = 0 then completion_matches 9 text 0 static else Some [])"

lemma generator_loop_spec:
  "generator_loop text n i names =
     (case dropWhile (\<lambda>w. take n w \<noteq> take n text) names of
        [] \<Rightarrow> (None, i + length names)
      | w # r \<Rightarrow> (Some w, i + length names - length r))"
proof (induction names arbitrary: i)
  case (Cons name names)
  note IH = Cons.IH
  let ?P = "\<lambda>w. take n w \<noteq> take n text"
  show ?case
  proof (cases "dropWhile ?P names")
    case Nil
    with IH [of "Suc i"] show ?thesis by (simp add: Nil del: dropWhile_eq_Nil_conv)
  next
    case (Cons w r)
    have "length r \<le> length names" using length_dropWhile_le [of ?P names] Cons by simp
    with Cons IH [of "Suc i"] show ?thesis by simp
  qed
qed simp

lemma completion_matches_spec:
  assumes "length names < k" and "names = drop i completion_cmd" and "i \<le> 8"
    and "(state = 0 \<and> i = 0 \<and> n = length text) \<or> (state = 1 \<and> static = (i, n))" and "n = length text"
  shows "completion_matches k text state static = Some (filter (\<lambda>w. take n w = text) names)"
  using assms
proof (induction k arbitrary: names i state static)
  case 0
  then show ?case by simp
next
  case (Suc k)
  let ?P = "\<lambda>w. take n w \<noteq> take n text"
  have g: "my_generator text state static =
      (fst (generator_loop text n i names), snd (generator_loop text n i names), n)"
    using Suc.prems(2,4,5) by (auto simp: my_generator_def case_prod_beta Let_def)
  have tt: "take n text = text" using Suc.prems(5) by simp
  show ?case
  proof (cases "dropWhile ?P names")
    case Nil
    then have "filter (\<lambda>w. take n w = text) names = []" by (simp add: dropWhile_eq_Nil_conv filter_empty_conv tt)
    with g Nil show ?thesis by (simp add: generator_loop_spec)
  next
    case (Cons w r)
    define us where "us = takeWhile ?P names"
    have names: "names = us @ w # r" using Cons unfolding us_def by (metis takeWhile_dropWhile_id)
    have us: "\<forall>u \<in> set us. take n u \<noteq> text" unfolding us_def using set_takeWhileD [of _ ?P names] tt by fastforce
    have "\<not> ?P (hd (dropWhile ?P names))" by (rule hd_dropWhile) (simp only: Cons list.distinct not_False_eq_True)
    then have "take n w = take n text" unfolding Cons list.sel by blast
    then have w: "take n w = text" by (simp only: tt)
    define i' where "i' = i + length us + 1"
    have len: "length names = 8 - i" using Suc.prems(2) by (simp add: completion_cmd_def)
    have i': "i' \<le> 8" "i + length names - length r = i'" using len names Suc.prems(3) by (simp_all add: i'_def)
    have r: "r = drop i' completion_cmd"
    proof -
      have "drop (length us + 1) names = r" by (simp add: names)
      then show ?thesis unfolding Suc.prems(2) by (simp add: i'_def ac_simps)
    qed
    have "length r < k" using Suc.prems(1) names by simp
    from Suc.IH [OF this r i'(1), of 1 "(i', n)"] Suc.prems(5)
    have rec: "completion_matches k text 1 (i', n) = Some (filter (\<lambda>w. take n w = text) r)" by simp
    have "generator_loop text n i names = (Some w, i')"
      by (simp add: generator_loop_spec Cons i'(2) [symmetric])
    then show ?thesis using g rec us w by (simp add: names filter_empty_conv)
  qed
qed

section \<open>No command faults\<close>

lemma fold_result_total:
  assumes "\<And>x s. x \<in> set xs \<Longrightarrow> \<exists>s'. f x s = Inr s'"
  shows "\<exists>s'. fold_result f xs s = Inr s'"
  using assms
proof (induction xs arbitrary: s)
  case (Cons x xs)
  obtain s1 where "f x s = Inr s1" using Cons.prems [of x s] by auto
  moreover obtain s' where "fold_result f xs s1 = Inr s'" using Cons.IH Cons.prems by force
  ultimately show ?case by simp
qed simp

text \<open>Iterating a step that always succeeds over the elements of a list.\<close>

lemma list_iter_total:
  assumes "list_rel l xs" and "\<And>x s. x \<in> set xs \<Longrightarrow> \<exists>s'. f (Some x) s = Inr s'"
  shows "\<exists>l' s'. list_iter list_get f 1 (list_size l) l s = Inr (l', s')"
proof -
  obtain l' where "list_iter list_get f 1 (list_size l) l s = rbind (fold_result f (map Some xs) s) (\<lambda>s'. Inr (l', s'))"
    using li.iter_all [OF assms(1), of f s] by blast
  moreover obtain s' where "fold_result f (map Some xs) s = Inr s'"
    using fold_result_total [of "map Some xs" f s] assms(2) by auto
  ultimately show ?thesis by simp
qed

definition peers_live :: "tracker \<Rightarrow> bool" where
  "peers_live st \<longleftrightarrow> (\<forall>f k c. peers st f k = Some c \<longrightarrow> client_mem st c \<noteq> None)"

lemma peers_ok_live: "peers_ok st \<Longrightarrow> peers_live st"
  by (force simp: peers_ok_def peers_live_def)

lemma append_peer_fold:
  "(\<forall>(k, c) \<in> set al. client_mem st c \<noteq> None) \<Longrightarrow>
   \<exists>r. fold (\<lambda>(k, c). append_peer st c) al (Inr (b, s)) = Inr r"
proof (induction al arbitrary: b s)
  case (Cons kc al)
  obtain k c y where "kc = (k, c)" "client_mem st c = Some y" using Cons.prems by (cases kc) auto
  with Cons show ?case by (auto simp: append_peer_def)
qed simp

lemma file_print_peer_list_total:
  assumes "files_inv st" and "peers_live st" and x: "files st f = Some x"
  shows "\<exists>s. file_print_peer_list st f = Inr s"
proof -
  have "\<forall>(k, c) \<in> set (ht_alist (fclients x)). client_mem st c \<noteq> None"
  proof -
    have "client_mem st c \<noteq> None" if "(k, c) \<in> set (ht_alist (fclients x))" for k c
    proof -
      have "peers st f k = Some c"
        using that ht_map_mem [OF files_inv_map [OF assms(1) x]] x by (simp add: peers_def)
      with assms(2) show ?thesis unfolding peers_live_def by blast
    qed
    then show ?thesis by blast
  qed
  from append_peer_fold [OF this, of True "[]"] obtain r where
    "fold (\<lambda>(k, c). append_peer st c) (ht_alist (fclients x)) (Inr (True, [])) = Inr r" by blast
  then show ?thesis using x by (cases r) (simp add: file_print_peer_list_def ht_for_each_alist)
qed

lemma print_client_list_total:
  assumes "clients_inv st"
  shows "\<exists>s. print_client_list st = Inr s"
proof -
  obtain l where l: "client_list st = Inr l" "list_rel l (rev (map snd (ht_alist (clients st))))"
    using ht_to_list_rel [of "clients st"] by (auto simp: client_list_def)
  have "\<exists>y. client_mem st c = Some y" if "c \<in> set (rev (map snd (ht_alist (clients st))))" for c
    using that assms by (auto simp: clients_inv_def)
  then have "\<exists>l' s'. list_iter list_get
      (\<lambda>c (i, out). rbind (deref c) (\<lambda>c. rbind (load_client st c) (\<lambda>y. Inr (Suc i, out @ client_line i y))))
      1 (list_size l) l (1 :: nat, []) = Inr (l', s')"
    by (intro list_iter_total [OF l(2)]) fastforce
  then show ?thesis by (auto simp: print_client_list_def l(1) Let_def)
qed

lemma print_file_list_total:
  assumes "files_inv st"
  shows "\<exists>s. print_file_list st = Inr s"
proof -
  obtain l where l: "file_list st = Inr l" "list_rel l (rev (map snd (ht_alist (file_by_hash st))))"
    using file_list_rel(1) [OF assms] by blast
  have "\<exists>x. files st f = Some x" if "f \<in> set (rev (map snd (ht_alist (file_by_hash st))))" for f
    using that file_list_rel(3) [OF assms] by auto
  then have "\<exists>l' s'. list_iter list_get
      (\<lambda>f (i, out). rbind (deref f) (\<lambda>f. rbind (load_file st f) (\<lambda>x. Inr (Suc i, out @ file_line i x))))
      1 (list_size l) l (1 :: nat, []) = Inr (l', s')"
    by (intro list_iter_total [OF l(2)]) fastforce
  then show ?thesis by (auto simp: print_file_list_def l(1) Let_def)
qed

lemma print_peer_list_total:
  assumes inv: "files_inv st" and "peers_live st"
  shows "\<exists>s. print_peer_list st w = Inr s"
proof (cases "file_get_by_name st w")
  case None
  then show ?thesis
    using file_print_peer_list_total [OF assms] file_get_by_key_Some [OF inv, of w]
    by (auto simp: print_peer_list_def split: option.splits)
next
  case (Some a)
  then obtain l fs where l: "name_lists st a = Some l" "list_rel l fs" "set fs = named (files st) w"
    using file_get_by_name_spec [OF inv, of w] by auto
  have "\<exists>x. files st f = Some x" if "f \<in> set fs" for f
    using that l(3) by (auto simp: named_def)
  then have "\<exists>l' s'. list_iter list_get
      (\<lambda>f out. rbind (deref f) (\<lambda>f. rbind (file_print_peer_list st f) (\<lambda>s. Inr (out @ s)))) 1 (list_size l) l [] = Inr (l', s')"
    by (intro list_iter_total [OF l(2)]) (use file_print_peer_list_total [OF assms] in force)
  then show ?thesis by (auto simp: print_peer_list_def Some l(1))
qed

lemma prompt_command_peers_total:
  assumes "tracker_inv st" and "peers_live st"
  shows "\<exists>s. prompt_command_peers st command = Inr s"
proof -
  have i: "files_inv st" "clients_inv st" using assms(1) by (simp_all add: tracker_inv_def)
  have "\<exists>s. fold_result (\<lambda>w out. rbind (print_peer_list st w) (\<lambda>s. Inr (out @ s))) ws out = Inr s" for ws out
    by (rule fold_result_total) (metis print_peer_list_total [OF i(1) assms(2)] rbind_Inr)
  then show ?thesis using print_client_list_total [OF i(2)] by (simp add: prompt_command_peers_def)
qed

lemma prompt_commands_total:
  assumes "tracker_inv st" and "peers_live st"
  shows "\<exists>s. prompt_command_client st command = Inr s" and "\<exists>s. prompt_command_file st command = Inr s"
    and "\<exists>s. prompt_command_ls st = Inr s"
proof -
  have i: "files_inv st" "clients_inv st" using assms(1) by (simp_all add: tracker_inv_def)
  show c: "\<exists>s. prompt_command_client st command = Inr s" for command
    using print_client_list_total [OF i(2)] by (simp add: prompt_command_client_def)
  show f: "\<exists>s. prompt_command_file st command = Inr s" for command
    using print_file_list_total [OF i(1)] prompt_command_peers_total [OF assms] by (simp add: prompt_command_file_def)
  show "\<exists>s. prompt_command_ls st = Inr s"
    using c [of "['''', ''list'']"] f [of "['''', ''list'']"] by (auto simp: prompt_command_ls_def Let_def)
qed

lemma tokens_not_white:
  assumes "\<not> is_white s"
  shows "tokens '' '' s \<noteq> []"
proof
  assume e: "tokens '' '' s = []"
  obtain c where c: "c \<in> set s" "\<not> c_isblank c" using assms by (auto simp: is_white_def list_all_iff)
  have "c \<noteq> CHR '' ''" using c(2) by (auto simp: c_isblank_def)
  have "\<exists>f \<in> set (String2.fields (\<lambda>c. c \<in> set '' '') s). c \<in> set f"
    using c(1) \<open>c \<noteq> CHR '' ''\<close>
    by (induction s) (auto split: list.splits)
  then show False using e by (auto simp: tokens_def filter_empty_conv)
qed

lemma prompt_eval_total:
  assumes "tracker_inv st" and "peers_live st" and "\<not> is_white line"
  shows "\<exists>q out sys. prompt_eval st line = Inr (q, out, sys)"
proof -
  note t = prompt_commands_total [OF assms(1,2)] prompt_command_peers_total [OF assms(1,2)]
  have ne: "tokens '' '' line \<noteq> []" by (rule tokens_not_white [OF assms(3)])
  define ws where "ws = tokens '' '' line"
  obtain a b d e where "prompt_command_client st ws = Inr a" "prompt_command_file st ws = Inr b"
      "prompt_command_ls st = Inr d" "prompt_command_peers st ws = Inr e"
    using t by metis
  with ne show ?thesis
    by (auto simp: prompt_eval_def string_split_tokens ws_def [symmetric] Let_def)
qed

section \<open>Properties\<close>



text \<open>
  Completing the first word offers exactly the commands that start with the text, in the order
  of the table, whatever the static variables of the generator held before.
\<close>

theorem completion_offers_prefixes:
  "my_completion text start static =
     (if start = 0 then Some (filter (prefix text) [''quit'', ''exit'', ''help'', ''client'', ''file'', ''peers'', ''ls'', ''whoami''])
      else Some [])"
proof -
  have "(take (length text) w = text) = prefix text w" for w by (metis append_eq_conv_conj prefix_def take_is_prefix)
  then show ?thesis
    using completion_matches_spec [of completion_cmd 9 0 0 "length text" "text" static]
    by (simp add: my_completion_def completion_cmd_def)
qed

end
