(* ===== verification/Support.thy ===== *)
theory Support
  imports SocketRead
begin

text \<open>
  Small helpers of \<open>cutil\<close> and \<open>tracker\<close>: error values in pointers (\<open>cutil/err.h\<close>), prefixed paths
  (\<open>cutil/data.c\<close>), error messages (\<open>cutil/error.c\<close>), MD5 digests (\<open>cutil/md5.c\<close>) and
  \<open>int_stringify\<close> (\<open>tracker/util.c\<close>). The digest functions of OpenSSL are arguments.
\<close>

section \<open>Error values in pointers\<close>

text \<open>A pointer is its 64-bit address; \<open>long\<close> has 64 bits, \<open>int\<close> 32.\<close>

definition max_errno :: "64 word" where
  "max_errno = 4095"

definition is_err_value :: "64 word \<Rightarrow> bool" where
  "is_err_value x \<longleftrightarrow> - max_errno \<le> x"

definition err_ptr :: "64 word \<Rightarrow> 64 word" where
  "err_ptr error = error"

definition ptr_err :: "64 word \<Rightarrow> 64 word" where
  "ptr_err ptr = ptr"

definition is_err :: "64 word \<Rightarrow> bool" where
  "is_err ptr = is_err_value ptr"

definition is_err_or_null :: "64 word \<Rightarrow> bool" where
  "is_err_or_null ptr \<longleftrightarrow> ptr = 0 \<or> is_err_value ptr"

definition err_cast :: "64 word \<Rightarrow> 64 word" where
  "err_cast ptr = ptr"

definition ptr_err_or_zero :: "64 word \<Rightarrow> 32 word" where
  "ptr_err_or_zero ptr = (if is_err ptr then ucast (ptr_err ptr) else 0)"

lemma is_err_iff: "is_err x \<longleftrightarrow> 2 ^ 64 - 4095 \<le> unat x"
  by (simp add: is_err_def is_err_value_def max_errno_def word_le_nat_alt)

section \<open>Prefixed paths\<close>

text \<open>The buffer has exactly the size of both strings with the terminating zero.\<close>

definition rz_prefix_path :: "string \<Rightarrow> string \<Rightarrow> buffer result" where
  "rz_prefix_path pre path =
     (let len = 1 + length pre + length path
      in rbind (write_at (replicate len None) 0 (pre @ [CHR 0x00])) (\<lambda>prefixed_path. c_strcat prefixed_path path))"

text \<open>What \<open>fopen\<close> is given: the string up to the zero, and the mode.\<close>

definition rz_open_prefixed :: "(string \<Rightarrow> string \<Rightarrow> 'f option) \<Rightarrow> string \<Rightarrow> string \<Rightarrow> string \<Rightarrow> 'f option result" where
  "rz_open_prefixed fopen pre path mode =
     rbind (rz_prefix_path pre path) (\<lambda>full_path. rbind (c_strlen full_path) (\<lambda>n.
       Inr (fopen (map the (take n full_path)) mode)))"

definition rz_open_resource :: "(string \<Rightarrow> string \<Rightarrow> 'f option) \<Rightarrow> string \<Rightarrow> string \<Rightarrow> 'f option result" where
  "rz_open_resource fopen path mode = rz_open_prefixed fopen ''.'' path mode"

definition rz_open_config :: "(string \<Rightarrow> string \<Rightarrow> 'f option) \<Rightarrow> string \<Rightarrow> string \<Rightarrow> 'f option result" where
  "rz_open_config fopen path mode = rz_open_prefixed fopen ''.'' path mode"

lemma rz_prefix_path_holds:
  assumes "CHR 0x00 \<notin> set pre" and "CHR 0x00 \<notin> set path"
  shows "\<exists>b. rz_prefix_path pre path = Inr b \<and> holds b (pre @ path) \<and> length b = 1 + length pre + length path"
proof -
  let ?b = "map Some (pre @ [CHR 0x00]) @ replicate (length path) None"
  have w: "write_at (replicate (1 + length pre + length path) None) 0 (pre @ [CHR 0x00]) = Inr ?b"
    by (simp add: write_at_def)
  have "holds ?b pre" using assms(1) by (simp add: holds_def)
  moreover have "length pre + length path < length ?b" by simp
  ultimately obtain b where "c_strcat ?b path = Inr b" "holds b (pre @ path)" "length b = length ?b"
    using c_strcat_holds(1) [OF _ assms(2)] by blast
  with w show ?thesis unfolding rz_prefix_path_def Let_def by simp
qed

section \<open>Messages\<close>

text \<open>\<open>rz_error\<close> and \<open>rz_debug\<close> print the place and the formatted message to the standard error stream.\<close>

definition esc :: "string \<Rightarrow> string" where
  "esc s = [CHR 0x1B] @ ''['' @ s @ ''m''"

definition rz_error :: "string \<Rightarrow> int \<Rightarrow> string \<Rightarrow> string \<Rightarrow> string" where
  "rz_error filename line pretty_function str =
     esc ''31;1'' @ ''ERROR: '' @ filename @ esc ''32'' @ '':'' @ esc ''31;1'' @ dec_int line @ esc ''32'' @ ''|'' @
     esc ''31;1'' @ pretty_function @ '':'' @ esc ''0'' @ '' '' @ str"

definition rz_debug :: "string \<Rightarrow> int \<Rightarrow> string \<Rightarrow> string \<Rightarrow> string" where
  "rz_debug filename line pretty_function str =
     esc ''6;30;43'' @ ''DEBUG:'' @ esc ''0;31;1'' @ '' '' @ filename @ esc ''32'' @ '':'' @ esc ''31;1'' @ dec_int line @
     esc ''32'' @ ''|'' @ esc ''31;1'' @ pretty_function @ '':'' @ esc ''0'' @ '' '' @ str"

definition int_stringify :: "32 word \<Rightarrow> string" where
  "int_stringify i = dec_int (sint i)"

section \<open>Digests\<close>

text \<open>The digest as OpenSSL offers it: a context, its update by a block and the final bytes.\<close>

record 'ctx md5_api =
  MD5_Init :: 'ctx
  MD5_Update :: "'ctx \<Rightarrow> 8 word list \<Rightarrow> 'ctx"
  MD5_Final :: "'ctx \<Rightarrow> 8 word list"

definition md5_digest_length :: nat where
  "md5_digest_length = 16"

text \<open>\<open>blocks\<close> is what the successive calls of \<open>fread\<close> return; \<open>None\<close> stands for a null argument and -1.\<close>

definition md5_hash_file :: "'ctx md5_api \<Rightarrow> 8 word list list option \<Rightarrow> int \<times> 8 word list option" where
  "md5_hash_file api f =
     (case f of
        None \<Rightarrow> (-1, None)
      | Some blocks \<Rightarrow> (0, Some (MD5_Final api (foldl (MD5_Update api) (MD5_Init api) (takeWhile (\<lambda>b. b \<noteq> []) blocks)))))"

text \<open>The loop over a buffer in steps of 1024 bytes.\<close>

function md5_loop :: "'ctx md5_api \<Rightarrow> 8 word list \<Rightarrow> 'ctx \<Rightarrow> 'ctx" where
  "md5_loop api data ctx =
     (if data = [] then ctx
      else let bytes = min 1024 (length data) in md5_loop api (drop bytes data) (MD5_Update api ctx (take bytes data)))"
  by pat_completeness auto
termination by (relation "measure (\<lambda>(api, data, ctx). length data)") auto

declare md5_loop.simps [simp del]

text \<open>For the empty buffer the function returns 0 and leaves the digest as it is, uninitialised in its caller.\<close>

definition md5_hash_buf :: "'ctx md5_api \<Rightarrow> 8 word list option \<Rightarrow> int \<times> 8 word list option" where
  "md5_hash_buf api buf =
     (case buf of
        None \<Rightarrow> (-1, None)
      | Some data \<Rightarrow> if data = [] then (0, None) else (0, Some (MD5_Final api (md5_loop api data (MD5_Init api)))))"

definition hex_digit :: "nat \<Rightarrow> char" where
  "hex_digit n = (if n < 10 then char_of (48 + n) else char_of (87 + n))"

text \<open>\<open>sprintf(.., "%02x", byte)\<close>\<close>

definition hex_byte :: "8 word \<Rightarrow> string" where
  "hex_byte w = [hex_digit (unat w div 16), hex_digit (unat w mod 16)]"

definition md5_asprint :: "8 word list \<Rightarrow> string" where
  "md5_asprint md5_hash = concat (map (\<lambda>i. hex_byte (md5_hash ! i)) [0..<md5_digest_length])"

text \<open>Both \<open>_str_\<close> functions print the digest array; if nothing was stored in it, its bytes are undefined.\<close>

definition md5_print :: "int \<times> 8 word list option \<Rightarrow> (int \<times> string option) result" where
  "md5_print r =
     (case r of (ret, md5_hash) \<Rightarrow>
        if ret < 0 then Inr (ret, None)
        else (case md5_hash of None \<Rightarrow> Inl Uninitialised | Some h \<Rightarrow> Inr (0, Some (md5_asprint h))))"

definition md5_str_hash_file :: "'ctx md5_api \<Rightarrow> 8 word list list option \<Rightarrow> (int \<times> string option) result" where
  "md5_str_hash_file api f = md5_print (md5_hash_file api f)"

definition md5_str_hash_buf :: "'ctx md5_api \<Rightarrow> 8 word list option \<Rightarrow> (int \<times> string option) result" where
  "md5_str_hash_buf api buf = md5_print (md5_hash_buf api buf)"

text \<open>Updating by a block is updating by its parts, the documented contract of the digest.\<close>

definition streaming :: "'ctx md5_api \<Rightarrow> bool" where
  "streaming api \<longleftrightarrow> (\<forall>c a b. MD5_Update api (MD5_Update api c a) b = MD5_Update api c (a @ b)) \<and>
     (\<forall>c. MD5_Update api c [] = c)"

lemma streaming_foldl: "streaming api \<Longrightarrow> foldl (MD5_Update api) c bs = MD5_Update api c (concat bs)"
  by (induction bs arbitrary: c) (simp_all add: streaming_def)

lemma md5_loop_streaming:
  assumes "streaming api"
  shows "md5_loop api data c = MD5_Update api c data"
  using assms
proof (induction api data c rule: md5_loop.induct)
  case (1 api data ctx)
  let ?b = "min 1024 (length data)"
  show ?case
  proof (cases "data = []")
    case True
    with 1(2) show ?thesis by (simp add: md5_loop.simps [of api "[]"] streaming_def)
  next
    case False
    then have "md5_loop api data ctx = md5_loop api (drop ?b data) (MD5_Update api ctx (take ?b data))"
      by (simp add: md5_loop.simps [of api data] Let_def)
    also have "\<dots> = MD5_Update api (MD5_Update api ctx (take ?b data)) (drop ?b data)"
      by (rule 1(1) [OF False refl 1(2)])
    also have "\<dots> = MD5_Update api ctx data" using 1(2) by (simp add: streaming_def)
    finally show ?thesis .
  qed
qed

lemma hex_digits_differ: "\<forall>m\<in>set [0..<16]. \<forall>n\<in>set [0..<16]. hex_digit m = hex_digit n \<longrightarrow> m = n"
  by code_simp

lemma hex_byte_inj: "hex_byte v = hex_byte w \<Longrightarrow> v = w"
proof -
  assume h: "hex_byte v = hex_byte w"
  have b: "unat v < 256" "unat w < 256" using unsigned_less [of v] unsigned_less [of w] by simp_all
  have "unat v div 16 = unat w div 16" "unat v mod 16 = unat w mod 16"
    using h b hex_digits_differ by (auto simp: hex_byte_def less_mult_imp_div_less)
  then have "unat v = unat w" by (metis div_mult_mod_eq)
  then show "v = w" by (rule word_unat_eq_iff [THEN iffD2])
qed

lemma md5_asprint_eq: "length h = 16 \<Longrightarrow> md5_asprint h = concat (map hex_byte h)"
  using map_nth [of h] by (metis (no_types, lifting) md5_asprint_def md5_digest_length_def map_map comp_def map_eq_conv)

lemma hex_byte_len: "length (hex_byte w) = 2"
  by (simp add: hex_byte_def)

lemma concat_hex_inj: "length g = length h \<Longrightarrow> concat (map hex_byte g) = concat (map hex_byte h) \<Longrightarrow> g = h"
proof (induction g h rule: list_induct2)
  case (Cons x xs y ys)
  have "hex_byte x = hex_byte y" "concat (map hex_byte xs) = concat (map hex_byte ys)"
    using Cons.prems append_eq_append_conv [of "hex_byte x" "hex_byte y"] by (simp_all add: hex_byte_len)
  with Cons.IH show ?case by (simp add: hex_byte_inj)
qed simp

lemma takeWhile_full: "[] \<notin> set bs \<Longrightarrow> takeWhile (\<lambda>b. b \<noteq> []) (bs @ [[]]) = bs"
  by (induction bs) auto

section \<open>Properties\<close>

text \<open>C35: The digest of a file does not depend on how the reads cut it, and is the one of a buffer with the same
  contents if that is not empty; for the empty file it is defined, for the empty buffer the characters printed are
  uninitialised memory. Different digests are printed as different strings.\<close>
theorem md5_file_is_buf:
  assumes st: "streaming api" and len: "\<forall>c. length (MD5_Final api c) = 16" and ne: "[] \<notin> set blocks"
  shows "md5_str_hash_file api (Some (blocks @ [[]])) =
           Inr (0, Some (md5_asprint (MD5_Final api (MD5_Update api (MD5_Init api) (concat blocks))))) \<and>
    md5_str_hash_buf api (Some (concat blocks)) =
      (if blocks = [] then Inl Uninitialised else md5_str_hash_file api (Some (blocks @ [[]]))) \<and>
    (md5_asprint (MD5_Final api c) = md5_asprint (MD5_Final api d) \<longleftrightarrow> MD5_Final api c = MD5_Final api d)"
proof (intro conjI)
  show f: "md5_str_hash_file api (Some (blocks @ [[]])) =
      Inr (0, Some (md5_asprint (MD5_Final api (MD5_Update api (MD5_Init api) (concat blocks)))))"
    unfolding md5_str_hash_file_def md5_hash_file_def md5_print_def
    by (simp add: takeWhile_full [OF ne] streaming_foldl [OF st])
  have "concat blocks = [] \<longleftrightarrow> blocks = []" using ne by (cases blocks) auto
  then show "md5_str_hash_buf api (Some (concat blocks)) =
      (if blocks = [] then Inl Uninitialised else md5_str_hash_file api (Some (blocks @ [[]])))"
    unfolding f md5_str_hash_buf_def md5_hash_buf_def md5_print_def by (simp add: md5_loop_streaming [OF st])
  show "md5_asprint (MD5_Final api c) = md5_asprint (MD5_Final api d) \<longleftrightarrow> MD5_Final api c = MD5_Final api d"
    using len by (auto simp: md5_asprint_eq intro: concat_hex_inj)
qed

text \<open>A digest of the right shape: the first sixteen bytes of what was hashed, filled up with zeros.\<close>

definition demo_md5 :: "8 word list md5_api" where
  "demo_md5 = \<lparr>MD5_Init = [], MD5_Update = (@), MD5_Final = (\<lambda>c. take 16 (c @ replicate 16 0))\<rparr>"

lemma md5_file_is_buf_witness:
  "md5_str_hash_buf demo_md5 (Some [1, 2, 255]) = md5_str_hash_file demo_md5 (Some ([[1], [2, 255]] @ [[]]))"
proof -
  have "streaming demo_md5" by (simp add: streaming_def demo_md5_def)
  moreover have "\<forall>c. length (MD5_Final demo_md5 c) = 16" by (simp add: demo_md5_def min_def)
  moreover have "[] \<notin> set [[1 :: 8 word], [2, 255]]" by simp
  ultimately show ?thesis using md5_file_is_buf [of demo_md5 "[[1], [2, 255]]" "[]" "[]"] by simp
qed

end
