(* ===== verification/Uthash_More.thy ===== *)
theory Uthash_More
  imports Uthash
begin

text \<open>
  The macros of \<open>cutil/uthash.h\<close> the tracker does not call: the other hash functions, the Bloom filter,
  replacement, selection, clearing, the size of a table and the merge sort of the application order.
\<close>

section \<open>Hash functions\<close>

text \<open>The bytes of a key; every function ends with the bucket number \<open>hash_to_bkt\<close> of its value.\<close>

definition key_bytes :: "string \<Rightarrow> u32 list" where
  "key_bytes key = map of_char key"

definition hash_ber :: "string \<Rightarrow> u32" where
  "hash_ber key = foldl (\<lambda>hashv b. (push_bit 5 hashv + hashv) + b) 0 (key_bytes key)"

definition hash_sax :: "string \<Rightarrow> u32" where
  "hash_sax key = foldl (\<lambda>hashv b. hashv XOR (push_bit 5 hashv + drop_bit 2 hashv + b)) 0 (key_bytes key)"

definition hash_fnv :: "string \<Rightarrow> u32" where
  "hash_fnv key = foldl (\<lambda>hashv b. (hashv XOR b) * 16777619) 2166136261 (key_bytes key)"

definition hash_oat :: "string \<Rightarrow> u32" where
  "hash_oat key =
     (let hashv = foldl (\<lambda>hashv b. let hashv = hashv + b; hashv = hashv + push_bit 10 hashv
                                   in hashv XOR drop_bit 6 hashv) 0 (key_bytes key);
          hashv = hashv + push_bit 3 hashv;
          hashv = hashv XOR drop_bit 11 hashv
      in hashv + push_bit 15 hashv)"

text \<open>Hsieh's function takes four bytes a round and the one to three left over apart.\<close>

definition get16bits :: "u32 \<Rightarrow> u32 \<Rightarrow> u32" where
  "get16bits d0 d1 = push_bit 8 d1 + d0"

fun sfh_loop :: "u32 list \<Rightarrow> u32 \<Rightarrow> u32" where
  "sfh_loop (a # b # c # d # ks) hashv =
     (let hashv = hashv + get16bits a b;
          tmp = push_bit 11 (get16bits c d) XOR hashv;
          hashv = push_bit 16 hashv XOR tmp
      in sfh_loop ks (hashv + drop_bit 11 hashv))"
| "sfh_loop [a, b, c] hashv =
     (let hashv = hashv + get16bits a b;
          hashv = hashv XOR push_bit 16 hashv;
          hashv = hashv XOR push_bit 18 c
      in hashv + drop_bit 11 hashv)"
| "sfh_loop [a, b] hashv =
     (let hashv = hashv + get16bits a b;
          hashv = hashv XOR push_bit 11 hashv
      in hashv + drop_bit 17 hashv)"
| "sfh_loop [a] hashv =
     (let hashv = hashv + a;
          hashv = hashv XOR push_bit 10 hashv
      in hashv + drop_bit 1 hashv)"
| "sfh_loop [] hashv = hashv"

definition hash_sfh :: "string \<Rightarrow> u32" where
  "hash_sfh key =
     (let hashv = sfh_loop (key_bytes key) 0xcafebabe;
          hashv = hashv XOR push_bit 3 hashv;
          hashv = hashv + drop_bit 5 hashv;
          hashv = hashv XOR push_bit 4 hashv;
          hashv = hashv + drop_bit 17 hashv;
          hashv = hashv XOR push_bit 25 hashv
      in hashv + drop_bit 6 hashv)"

text \<open>Murmur's function, with the block read of little-endian machines (\<open>MUR_GETBLOCK\<close> on x86).\<close>

definition mur_rotl32 :: "u32 \<Rightarrow> nat \<Rightarrow> u32" where
  "mur_rotl32 x r = push_bit r x OR drop_bit (32 - r) x"

definition mur_getblock :: "u32 \<Rightarrow> u32 \<Rightarrow> u32 \<Rightarrow> u32 \<Rightarrow> u32" where
  "mur_getblock a b c d = a OR push_bit 8 b OR push_bit 16 c OR push_bit 24 d"

definition mur_fmix :: "u32 \<Rightarrow> u32" where
  "mur_fmix h =
     (let h = h XOR drop_bit 16 h; h = h * 0x85ebca6b; h = h XOR drop_bit 13 h; h = h * 0xc2b2ae35
      in h XOR drop_bit 16 h)"

definition mur_scramble :: "u32 \<Rightarrow> u32" where
  "mur_scramble k1 = mur_rotl32 (k1 * 0xcc9e2d51) 15 * 0x1b873593"

fun mur_loop :: "u32 list \<Rightarrow> u32 \<Rightarrow> u32" where
  "mur_loop (a # b # c # d # ks) h1 =
     mur_loop ks (mur_rotl32 (h1 XOR mur_scramble (mur_getblock a b c d)) 13 * 5 + 0xe6546b64)"
| "mur_loop [a, b, c] h1 = h1 XOR mur_scramble (push_bit 16 c XOR push_bit 8 b XOR a)"
| "mur_loop [a, b] h1 = h1 XOR mur_scramble (push_bit 8 b XOR a)"
| "mur_loop [a] h1 = h1 XOR mur_scramble a"
| "mur_loop [] h1 = h1"

definition hash_mur :: "string \<Rightarrow> u32" where
  "hash_mur key = mur_fmix (mur_loop (key_bytes key) 0xf88d5353 XOR of_nat (length key))"

lemma hash_fnv_test: "hash_fnv '''' = 0x811c9dc5" "hash_fnv ''a'' = 0xe40c292c" "hash_fnv ''foobar'' = 0xbf9cf968"
  by code_simp+

section \<open>The Bloom filter\<close>

record bloom =
  bloom_bv :: "8 word list"
  bloom_nbits :: nat

definition hash_bloom_bitlen :: "nat \<Rightarrow> nat" where
  "hash_bloom_bitlen nbits = 2 ^ nbits"

definition hash_bloom_bytelen :: "nat \<Rightarrow> nat" where
  "hash_bloom_bytelen nbits = hash_bloom_bitlen nbits div 8 + (if hash_bloom_bitlen nbits mod 8 \<noteq> 0 then 1 else 0)"

definition hash_bloom_make :: "nat \<Rightarrow> bloom" where
  "hash_bloom_make nbits = \<lparr>bloom_bv = replicate (hash_bloom_bytelen nbits) 0, bloom_nbits = nbits\<rparr>"

text \<open>An index outside the bit vector is a fault.\<close>

definition hash_bloom_bitset :: "8 word list \<Rightarrow> nat \<Rightarrow> 8 word list result" where
  "hash_bloom_bitset bv idx =
     (if idx div 8 < length bv then Inr (bv[idx div 8 := bv ! (idx div 8) OR push_bit (idx mod 8) 1]) else Inl Out_Of_Bounds)"

definition hash_bloom_bittest :: "8 word list \<Rightarrow> nat \<Rightarrow> bool result" where
  "hash_bloom_bittest bv idx =
     (if idx div 8 < length bv then Inr (bv ! (idx div 8) AND push_bit (idx mod 8) 1 \<noteq> 0) else Inl Out_Of_Bounds)"

definition bloom_index :: "nat \<Rightarrow> u32 \<Rightarrow> nat" where
  "bloom_index nbits hashv = unat (hashv AND ucast (push_bit nbits (1 :: 64 word) - 1))"

definition hash_bloom_add :: "bloom \<Rightarrow> u32 \<Rightarrow> bloom result" where
  "hash_bloom_add tbl hashv =
     rbind (hash_bloom_bitset (bloom_bv tbl) (bloom_index (bloom_nbits tbl) hashv)) (\<lambda>bv. Inr (tbl\<lparr>bloom_bv := bv\<rparr>))"

definition hash_bloom_test :: "bloom \<Rightarrow> u32 \<Rightarrow> bool result" where
  "hash_bloom_test tbl hashv = hash_bloom_bittest (bloom_bv tbl) (bloom_index (bloom_nbits tbl) hashv)"

lemma bloom_index_less:
  assumes "nbits \<le> 32" shows "bloom_index nbits hashv < 2 ^ nbits"
proof -
  have "ucast (push_bit nbits (1 :: 64 word) - 1) = (mask nbits :: u32)"
    using assms by (intro bit_word_eqI) (auto simp: push_bit_eq_mult mask_eq_decr_exp [symmetric] bit_simps)
  then have "bloom_index nbits hashv = unat (take_bit nbits hashv)"
    by (simp add: bloom_index_def take_bit_eq_mask)
  then show ?thesis by (simp add: unsigned_take_bit_eq)
qed

lemma bloom_index_byte:
  assumes "nbits \<le> 32" shows "bloom_index nbits hashv div 8 < hash_bloom_bytelen nbits"
proof -
  have "m div 8 < n div 8 + (if n mod 8 \<noteq> 0 then 1 else 0)" if "m < n" for m n :: nat
    using that by (auto simp: less_mult_imp_div_less)
  then show ?thesis
    using bloom_index_less [OF assms] by (simp add: hash_bloom_bytelen_def hash_bloom_bitlen_def)
qed

definition bloom_ok :: "bloom \<Rightarrow> bool" where
  "bloom_ok b \<longleftrightarrow> bloom_nbits b \<le> 32 \<and> length (bloom_bv b) = hash_bloom_bytelen (bloom_nbits b)"

lemma bloom_set_test:
  assumes "i div 8 < length bv" and "hash_bloom_bitset bv i = Inr bv'"
  shows "hash_bloom_bittest bv' i = Inr True"
    and "hash_bloom_bittest bv j = Inr True \<Longrightarrow> hash_bloom_bittest bv' j = Inr True"
proof -
  have bv': "bv' = bv[i div 8 := bv ! (i div 8) OR push_bit (i mod 8) 1]"
    using assms by (simp add: hash_bloom_bitset_def)
  have t: "(w :: 8 word) AND push_bit n 1 \<noteq> 0 \<longleftrightarrow> bit w n" for w and n :: nat
    by (simp only: bit_iff_and_push_bit_not_eq_0)
  have b: "bit ((w :: 8 word) OR push_bit (k mod 8) 1) n \<longleftrightarrow> bit w n \<or> n = k mod 8" for w n and k :: nat
    by (auto simp: bit_simps)
  have l: "length bv' = length bv" by (simp add: bv')
  have n: "bv' ! k = (if k = i div 8 then bv ! (i div 8) OR push_bit (i mod 8) 1 else bv ! k)" for k
    using assms(1) by (simp add: bv' nth_list_update)
  show "hash_bloom_bittest bv' i = Inr True"
    using assms(1) unfolding hash_bloom_bittest_def l n t b if_P [OF refl] by simp
  show "hash_bloom_bittest bv' j = Inr True" if h: "hash_bloom_bittest bv j = Inr True"
  proof -
    have "j div 8 < length bv \<and> bit (bv ! (j div 8)) (j mod 8)"
      using h unfolding hash_bloom_bittest_def t by (auto split: if_splits)
    then have "j div 8 < length bv' \<and> bit (bv' ! (j div 8)) (j mod 8)" unfolding l n by (auto simp: b simp del: push_bit_of_1)
    then show ?thesis unfolding hash_bloom_bittest_def t by simp
  qed
qed

lemma bloom_add_spec:
  assumes "bloom_ok b"
  shows "\<exists>b'. hash_bloom_add b h = Inr b' \<and> bloom_ok b' \<and> hash_bloom_test b' h = Inr True \<and>
     (\<forall>g. hash_bloom_test b g = Inr True \<longrightarrow> hash_bloom_test b' g = Inr True)"
proof -
  let ?i = "bloom_index (bloom_nbits b) h"
  have i: "?i div 8 < length (bloom_bv b)"
    using assms bloom_index_byte by (simp add: bloom_ok_def)
  then obtain bv where bv: "hash_bloom_bitset (bloom_bv b) ?i = Inr bv" "length bv = length (bloom_bv b)"
    by (simp add: hash_bloom_bitset_def)
  then have "hash_bloom_add b h = Inr (b\<lparr>bloom_bv := bv\<rparr>)" by (simp add: hash_bloom_add_def)
  then show ?thesis
    using bv assms bloom_set_test [OF i bv(1)] by (simp add: bloom_ok_def hash_bloom_test_def)
qed

section \<open>Replacement, clearing and size\<close>

definition hash_replace :: "'a ut_table option \<Rightarrow> nat \<Rightarrow> string \<Rightarrow> 'a \<Rightarrow> 'a ut_table option \<times> 'a entry option" where
  "hash_replace head a key data =
     (let replaced = hash_find head key;
          head = (case replaced of None \<Rightarrow> head | Some e \<Rightarrow> hash_delete head e)
      in (hash_add head a key data, replaced))"

definition hash_clear :: "'a ut_table option \<Rightarrow> 'a ut_table option" where
  "hash_clear head = None"

text \<open>Sizes of the structures where pointers have 8 bytes and \<open>unsigned\<close> 4; without a Bloom filter.\<close>

definition hash_overhead :: "'a ut_table option \<Rightarrow> nat" where
  "hash_overhead head = (case head of None \<Rightarrow> 0 | Some t \<Rightarrow> num_items t * 56 + num_buckets t * 16 + 64)"

lemma hash_replace_inv:
  assumes "hash_inv head" and "\<forall>e \<in> set (hash_entries head). entry_id e \<noteq> a"
  shows "hash_inv (fst (hash_replace head a key data)) \<and>
    hash_entries (fst (hash_replace head a key data)) =
      (case hash_find head key of None \<Rightarrow> hash_entries head | Some e \<Rightarrow> remove1 e (hash_entries head)) @
      [\<lparr>entry_id = a, entry_key = key, entry_data = data, entry_hashv = hash_jen key\<rparr>]"
proof (cases "hash_find head key")
  case None
  with hash_add_inv [OF assms, of key data] show ?thesis by (simp add: hash_replace_def Let_def)
next
  case (Some e)
  have e: "e \<in> set (hash_entries head)" using hash_find_SomeD [OF assms(1) Some] by simp
  note d = hash_delete_inv [OF assms(1) e]
  then have "\<forall>e' \<in> set (hash_entries (hash_delete head e)). entry_id e' \<noteq> a"
    using assms(2) by (auto dest: notin_set_remove1)
  with hash_add_inv [of "hash_delete head e" a key data] d show ?thesis
    by (simp add: hash_replace_def Let_def Some)
qed

section \<open>Selection\<close>

text \<open>
  The entries of \<open>src\<close> in the order of its buckets. The first becomes the head and the tail of a new table, and the
  tail is never moved; in a table that had entries the new ones are in the buckets but linked to no one. The state is
  the table and the tail, if the macro sets it.
\<close>

definition hash_select_elt ::
  "bool \<Rightarrow> 'a entry \<Rightarrow> 'a ut_table option \<times> 'a entry option \<Rightarrow> 'a ut_table option \<times> 'a entry option" where
  "hash_select_elt linked e st =
     (let (dst, tail) = st;
          (t, tail) = (case dst of None \<Rightarrow> (hash_make_table, Some e) | Some t \<Rightarrow> (t, tail));
          t = hash_add_to_bkt t (hash_to_bkt (entry_hashv e) (num_buckets t)) e
      in (Some (t\<lparr>num_items := num_items t + 1, app_order := (if linked then app_order t @ [e] else app_order t)\<rparr>), tail))"

definition hash_select ::
  "('a entry \<Rightarrow> bool) \<Rightarrow> 'a ut_table option \<Rightarrow> 'a ut_table option \<Rightarrow> 'a ut_table option \<times> 'a entry option" where
  "hash_select cond src dst =
     (case src of
        None \<Rightarrow> (dst, None)
      | Some s \<Rightarrow>
          fold (hash_select_elt (dst = None)) (filter cond (concat (map hh_chain (buckets s)))) (dst, None))"

lemma hash_add_to_bkt_order: "app_order (hash_add_to_bkt t bkt e) = app_order t"
  by (simp add: hash_add_to_bkt_def Let_def hash_expand_buckets_def case_prod_beta)

lemma hash_select_elt_entries:
  "hash_entries (fst (hash_select_elt True e st)) = hash_entries (fst st) @ [e]"
  by (cases st; cases "fst st")
    (simp_all add: hash_select_elt_def Let_def hash_entries_def hash_add_to_bkt_order hash_make_table_def)

lemma hash_select_fold:
  "hash_entries (fst (fold (hash_select_elt True) es st)) = hash_entries (fst st) @ es"
  by (induction es arbitrary: st) (simp_all add: hash_select_elt_entries)

lemma hash_select_tail:
  "fst st \<noteq> None \<Longrightarrow> snd (fold (hash_select_elt linked) es st) = snd st"
proof (induction es arbitrary: st)
  case (Cons e es)
  have "fst (hash_select_elt linked e st) \<noteq> None" "snd (hash_select_elt linked e st) = snd st"
    using Cons.prems by (cases st; auto simp: hash_select_elt_def Let_def)+
  with Cons.IH show ?case by simp
qed simp

text \<open>All selected entries reach the new table, but the tail stays at the first of them.\<close>

lemma hash_select_entries:
  assumes "table_core s" and "filter cond (concat (map hh_chain (buckets s))) = e # es"
  shows "mset (hash_entries (fst (hash_select cond (Some s) None))) = filter_mset cond (mset (app_order s))"
    and "snd (hash_select cond (Some s) None) = Some e"
proof -
  have "hash_entries (fst (hash_select cond (Some s) None)) = filter cond (concat (map hh_chain (buckets s)))"
    by (simp only: hash_select_def option.case simp_thms hash_select_fold) (simp add: hash_entries_def)
  then show "mset (hash_entries (fst (hash_select cond (Some s) None))) = filter_mset cond (mset (app_order s))"
    using table_core_chains [OF assms(1)] by (simp only: mset_filter)
  have "fst (hash_select_elt True e (None, None)) \<noteq> None" "snd (hash_select_elt True e (None, None)) = Some e"
    by (simp_all add: hash_select_elt_def Let_def)
  then show "snd (hash_select cond (Some s) None) = Some e"
    using hash_select_tail [of "hash_select_elt True e (None, None)" True es] by (simp add: hash_select_def assms(2))
qed

section \<open>Sorting\<close>

text \<open>
  \<open>HASH_SRT\<close> relinks the application order bottom-up. A handle pointer is the list of the handles from it on; links
  are only rewritten behind \<open>p\<close> and \<open>q\<close>. The merge emits from the run at \<open>p\<close>, of which \<open>psize\<close> handles are left, and
  from the run at \<open>q\<close>, of at most \<open>qsize\<close>; it returns what it emitted, newest first, and where \<open>q\<close> stands.
  (A null \<open>p\<close> with a positive \<open>psize\<close> never occurs; it emits nothing.)
\<close>

function srt_merge ::
  "('a \<Rightarrow> 'a \<Rightarrow> int) \<Rightarrow> nat \<Rightarrow> 'a list \<Rightarrow> nat \<Rightarrow> 'a list \<Rightarrow> 'a list \<Rightarrow> 'a list \<times> 'a list" where
  "srt_merge cmpfcn psize p qsize q emitted =
     (if 0 < psize \<or> 0 < qsize \<and> q \<noteq> []
      then if psize = 0 then srt_merge cmpfcn psize p (qsize - 1) (tl q) (hd q # emitted)
           else if qsize = 0 \<or> q = []
           then case p of
                  [] \<Rightarrow> srt_merge cmpfcn (psize - 1) p qsize q emitted
                | e # p' \<Rightarrow> srt_merge cmpfcn (psize - 1) p' qsize q (e # emitted)
           else case p of
                  [] \<Rightarrow> srt_merge cmpfcn (psize - 1) p qsize q emitted
                | e # p' \<Rightarrow>
                    if cmpfcn e (hd q) \<le> 0 then srt_merge cmpfcn (psize - 1) p' qsize q (e # emitted)
                    else srt_merge cmpfcn psize p (qsize - 1) (tl q) (hd q # emitted)
      else (emitted, q))"
  by pat_completeness auto
termination by (relation "measure (\<lambda>(cmpfcn, psize, p, qsize, q, emitted). psize + qsize)") auto

declare srt_merge.simps [simp del]

text \<open>The \<open>for\<close> loop that moves \<open>q\<close> past the first run and counts its handles.\<close>

fun srt_run :: "nat \<Rightarrow> nat \<Rightarrow> 'a list \<Rightarrow> nat \<times> 'a list" where
  "srt_run 0 psize q = (psize, q)"
| "srt_run (Suc i) psize q = (if tl q = [] then (psize + 1, []) else srt_run i (psize + 1) (tl q))"

lemma srt_run_drop: "0 < n \<Longrightarrow> q \<noteq> [] \<Longrightarrow> srt_run n ps q = (ps + min n (length q), drop n q)"
proof (induction n arbitrary: ps q)
  case (Suc n)
  show ?case
  proof (cases "tl q = []")
    case True
    with Suc.prems(2) show ?thesis by (cases q) auto
  next
    case False
    with Suc show ?thesis by (cases n; cases q) auto
  qed
qed simp

text \<open>With \<open>psize\<close> handles at \<open>p\<close> the loop is the usual merge, preferring \<open>p\<close> on ties.\<close>

fun merge_lists :: "('a \<Rightarrow> 'a \<Rightarrow> int) \<Rightarrow> 'a list \<Rightarrow> 'a list \<Rightarrow> 'a list" where
  "merge_lists cmp [] ys = ys"
| "merge_lists cmp xs [] = xs"
| "merge_lists cmp (x # xs) (y # ys) =
     (if cmp x y \<le> 0 then x # merge_lists cmp xs (y # ys) else y # merge_lists cmp (x # xs) ys)"

lemma merge_lists_Nil2 [simp]: "merge_lists cmp xs [] = xs"
  by (cases xs) simp_all

lemma srt_merge_lists:
  "psize \<le> length p \<Longrightarrow> srt_merge cmp psize p qsize q out =
     (rev (merge_lists cmp (take psize p) (take qsize q)) @ out, drop qsize q)"
proof (induction cmp psize p qsize q out rule: srt_merge.induct)
  case (1 cmp psize p qsize q out)
  consider (none) "psize = 0" "qsize = 0 \<or> q = []" | (q) j y q' where "psize = 0" "qsize = Suc j" "q = y # q'"
    | (p) i x p' where "psize = Suc i" "p = x # p'" "qsize = 0 \<or> q = []"
    | (both) i x p' j y q' where "psize = Suc i" "p = x # p'" "qsize = Suc j" "q = y # q'"
    using 1(7) by (cases psize; cases p; cases qsize; cases q) auto
  then show ?case
  proof cases
    case none
    then show ?thesis by (subst srt_merge.simps) auto
  next
    case q
    with 1(1) show ?thesis by (subst srt_merge.simps) simp
  next
    case p
    with 1(3) 1(7) show ?thesis by (subst srt_merge.simps) auto
  next
    case both
    with 1(5,6) 1(7) show ?thesis by (subst srt_merge.simps) auto
  qed
qed

text \<open>One pass over the list with runs of \<open>insize\<close>; \<open>nmerges\<close> counts the merges.\<close>

function srt_pass :: "('a \<Rightarrow> 'a \<Rightarrow> int) \<Rightarrow> nat \<Rightarrow> 'a list \<Rightarrow> 'a list \<Rightarrow> nat \<Rightarrow> 'a list \<times> nat" where
  "srt_pass cmpfcn i p emitted nmerges =
     (if p = [] then (emitted, nmerges)
      else let insize = 2 ^ i;
               (psize, q) = srt_run insize 0 p;
               (emitted, q) = srt_merge cmpfcn psize p insize q emitted
           in srt_pass cmpfcn i q emitted (nmerges + 1))"
  by pat_completeness auto
termination
  by (relation "measure (\<lambda>(cmpfcn, i, p, emitted, nmerges). length p)") (auto simp: srt_run_drop srt_merge_lists)

declare srt_pass.simps [simp del]

lemma srt_pass_Nil: "srt_pass cmp i [] out m = (out, m)"
  by (simp add: srt_pass.simps)

lemma srt_pass_step:
  "p \<noteq> [] \<Longrightarrow> srt_pass cmp i p out m =
     srt_pass cmp i (drop (2 ^ i) (drop (2 ^ i) p))
       (rev (merge_lists cmp (take (2 ^ i) p) (take (2 ^ i) (drop (2 ^ i) p))) @ out) (m + 1)"
  by (subst srt_pass.simps, cases "2 ^ i \<le> length p") (simp_all add: srt_run_drop srt_merge_lists min_def Let_def)

lemma length_merge_lists: "length (merge_lists cmp xs ys) = length xs + length ys"
  by (induction cmp xs ys rule: merge_lists.induct) auto

lemma length_srt_pass:
  "length (fst (srt_pass cmp i p out m)) = length out + length p \<and>
   (m + 1 < snd (srt_pass cmp i p out m) \<longrightarrow> 2 ^ (i + 1) < length p)"
proof (induction "length p" arbitrary: p out m rule: less_induct)
  case less
  show ?case
  proof (cases "p = []")
    case True
    then show ?thesis by (simp add: srt_pass_Nil)
  next
    case False
    let ?q = "drop (2 ^ i) (drop (2 ^ i) p)"
    let ?o = "rev (merge_lists cmp (take (2 ^ i) p) (take (2 ^ i) (drop (2 ^ i) p))) @ out"
    have "length ?q < length p" using False by (cases p) auto
    note IH = less [OF this, of ?o "m + 1"]
    have l: "length ?o + length ?q = length out + length p"
      by (simp add: length_merge_lists)
    have "?q \<noteq> [] \<Longrightarrow> 2 ^ (i + 1) < length p" by simp
    moreover have "?q = [] \<Longrightarrow> snd (srt_pass cmp i ?q ?o (m + 1)) = m + 1" by (simp only: srt_pass_Nil snd_conv)
    ultimately show ?thesis
      unfolding srt_pass_step [OF False] using IH l by (cases "?q = []") simp_all
  qed
qed

function srt_loop :: "('a \<Rightarrow> 'a \<Rightarrow> int) \<Rightarrow> nat \<Rightarrow> 'a list \<Rightarrow> 'a list" where
  "srt_loop cmpfcn i l =
     (case srt_pass cmpfcn i l [] 0 of (emitted, nmerges) \<Rightarrow>
        if nmerges \<le> 1 then rev emitted else srt_loop cmpfcn (i + 1) (rev emitted))"
  by pat_completeness auto
termination
proof (relation "measure (\<lambda>(cmpfcn, i, l). length l - 2 ^ i)", simp)
  fix cmp :: "'a \<Rightarrow> 'a \<Rightarrow> int" and i l out m
  assume "(out, m) = srt_pass cmp i l [] 0" and "\<not> m \<le> 1"
  then have "length out = length l" "2 ^ (i + 1) < length l"
    using length_srt_pass [of cmp i l "[]" 0] by (auto simp del: power_Suc dest: sym)
  then show "((cmp, i + 1, rev out), (cmp, i, l)) \<in> measure (\<lambda>(cmpfcn, i, l). length l - 2 ^ i)"
    using diff_less_mono2 [of "2 ^ i" "2 ^ (i + 1)" "length l"] by simp
qed

declare srt_loop.simps [simp del]

text \<open>The size of the runs is an \<open>unsigned\<close> of the code: here it does not wrap, as for fewer than \<open>2 ^ 31\<close> entries.\<close>

definition hash_srt :: "('a entry \<Rightarrow> 'a entry \<Rightarrow> int) \<Rightarrow> 'a ut_table option \<Rightarrow> 'a ut_table option" where
  "hash_srt cmpfcn head =
     (case head of None \<Rightarrow> None | Some t \<Rightarrow> Some (t\<lparr>app_order := srt_loop cmpfcn 0 (app_order t)\<rparr>))"

subsection \<open>The sort is the stable sort\<close>

lemma set_merge_lists: "set (merge_lists cmp us vs) = set us \<union> set vs"
  by (induction cmp us vs rule: merge_lists.induct) auto

lemma merge_lists_stable:
  fixes key :: "'a \<Rightarrow> 'k :: linorder"
  shows "(\<And>a b. cmp a b \<le> 0 \<longleftrightarrow> key a \<le> key b) \<Longrightarrow> sorted (map key xs) \<Longrightarrow> sorted (map key ys) \<Longrightarrow>
    sorted (map key (merge_lists cmp xs ys)) \<and> mset (merge_lists cmp xs ys) = mset xs + mset ys \<and>
    (\<forall>c. filter (\<lambda>x. key x = c) (merge_lists cmp xs ys) = filter (\<lambda>x. key x = c) xs @ filter (\<lambda>x. key x = c) ys)"
proof (induction cmp xs ys rule: merge_lists.induct)
  case (3 cmp x xs y ys)
  show ?case
  proof (cases "key x \<le> key y")
    case True
    with 3 show ?thesis by (auto simp: set_merge_lists)
  next
    case False
    then have "filter (\<lambda>z. key z = key y) (x # xs) = []" using 3(4) by (auto simp: filter_empty_conv)
    with False 3 show ?thesis by (auto simp: set_merge_lists)
  qed
qed simp_all

lemma merge_sort_key:
  fixes key :: "'a \<Rightarrow> 'k :: linorder"
  assumes cmp: "\<And>a b. cmp a b \<le> 0 \<longleftrightarrow> key a \<le> key b"
  shows "merge_lists cmp (sort_key key xs) (sort_key key ys) = sort_key key (xs @ ys)"
proof (rule properties_for_sort_key [symmetric])
  note m = merge_lists_stable [of cmp key, OF cmp sorted_sort_key sorted_sort_key, of xs ys]
  show "mset (merge_lists cmp (sort_key key xs) (sort_key key ys)) = mset (xs @ ys)" using m by simp
  show "sorted (map key (merge_lists cmp (sort_key key xs) (sort_key key ys)))" using m by simp
  have eq: "filter (\<lambda>x. key k = key x) zs = filter (\<lambda>x. key x = key k) zs" for k and zs :: "'a list"
    by (rule filter_cong) auto
  show "filter (\<lambda>x. key k = key x) (merge_lists cmp (sort_key key xs) (sort_key key ys)) =
      filter (\<lambda>x. key k = key x) (xs @ ys)" for k
    unfolding eq using m by (simp add: sort_key_stable)
qed

text \<open>The list sorted in blocks of \<open>2 ^ i\<close>, what a pass finds and leaves.\<close>

function block_sort :: "('a \<Rightarrow> 'k :: linorder) \<Rightarrow> nat \<Rightarrow> 'a list \<Rightarrow> 'a list" where
  "block_sort key i xs = (if xs = [] then [] else sort_key key (take (2 ^ i) xs) @ block_sort key i (drop (2 ^ i) xs))"
  by pat_completeness auto
termination by (relation "measure (\<lambda>(key, i, xs). length xs)") auto

declare block_sort.simps [simp del]

lemma block_sort_Nil [simp]: "block_sort key i [] = []"
  by (simp add: block_sort.simps)

lemma length_block_sort: "length (block_sort key i xs) = length xs"
proof (induction key i xs rule: block_sort.induct)
  case (1 key i xs)
  then show ?case by (cases "xs = []") (simp_all add: block_sort.simps [of key i xs])
qed

lemma block_sort_short: "length xs \<le> 2 ^ i \<Longrightarrow> block_sort key i xs = sort_key key xs"
  by (cases "xs = []") (simp_all add: block_sort.simps [of key i xs])

lemma block_sort_one: "block_sort key 0 xs = xs"
proof (induction xs)
  case (Cons x xs)
  then show ?case by (simp add: block_sort.simps [of key 0 "x # xs"])
qed simp

lemma block_sort_take: "take (2 ^ i) (block_sort key i xs) = sort_key key (take (2 ^ i) xs)"
  and block_sort_drop: "drop (2 ^ i) (block_sort key i xs) = block_sort key i (drop (2 ^ i) xs)"
proof -
  have "take (2 ^ i) (block_sort key i xs) = sort_key key (take (2 ^ i) xs) \<and>
      drop (2 ^ i) (block_sort key i xs) = block_sort key i (drop (2 ^ i) xs)"
  proof (cases "length xs \<le> 2 ^ i")
    case True
    then show ?thesis by (simp add: block_sort_short)
  next
    case False
    then have "xs \<noteq> []" by auto
    then have "block_sort key i xs = sort_key key (take (2 ^ i) xs) @ block_sort key i (drop (2 ^ i) xs)"
      by (simp add: block_sort.simps [of key i xs])
    moreover have "length (sort_key key (take (2 ^ i) xs)) = 2 ^ i" using False by simp
    ultimately show ?thesis by simp
  qed
  then show "take (2 ^ i) (block_sort key i xs) = sort_key key (take (2 ^ i) xs)"
    and "drop (2 ^ i) (block_sort key i xs) = block_sort key i (drop (2 ^ i) xs)" by blast+
qed

lemma block_sort_double:
  "xs \<noteq> [] \<Longrightarrow> block_sort key (i + 1) xs =
     sort_key key (take (2 ^ i) xs @ take (2 ^ i) (drop (2 ^ i) xs)) @ block_sort key (i + 1) (drop (2 ^ i) (drop (2 ^ i) xs))"
  by (subst block_sort.simps) (simp add: take_add mult_2)

lemma srt_pass_block:
  fixes key :: "'a \<Rightarrow> 'k :: linorder"
  assumes cmp: "\<And>a b. cmp a b \<le> 0 \<longleftrightarrow> key a \<le> key b"
  shows "fst (srt_pass cmp i (block_sort key i xs) out m) = rev (block_sort key (i + 1) xs) @ out"
proof (induction "length xs" arbitrary: xs out m rule: less_induct)
  case less
  show ?case
  proof (cases "xs = []")
    case True
    then show ?thesis by (simp add: srt_pass_Nil)
  next
    case False
    let ?rest = "drop (2 ^ i) (drop (2 ^ i) xs)"
    have ne: "block_sort key i xs \<noteq> []" using False length_block_sort [of key i xs] by auto
    have "length ?rest < length xs" using False by (cases xs) auto
    note IH = less [OF this]
    have "fst (srt_pass cmp i (block_sort key i xs) out m) =
        fst (srt_pass cmp i (block_sort key i ?rest)
          (rev (sort_key key (take (2 ^ i) xs @ take (2 ^ i) (drop (2 ^ i) xs))) @ out) (m + 1))"
      unfolding srt_pass_step [OF ne] block_sort_take block_sort_drop merge_sort_key [OF cmp] by (rule refl)
    also have "\<dots> = rev (block_sort key (i + 1) xs) @ out"
      unfolding IH block_sort_double [OF False] by simp
    finally show ?thesis .
  qed
qed

lemma srt_pass_count:
  "p \<noteq> [] \<Longrightarrow> m + 1 \<le> snd (srt_pass cmp i p out m) \<and> (2 ^ (i + 1) < length p \<longrightarrow> m + 2 \<le> snd (srt_pass cmp i p out m))"
proof (induction "length p" arbitrary: p out m rule: less_induct)
  case less
  let ?q = "drop (2 ^ i) (drop (2 ^ i) p)"
  let ?o = "rev (merge_lists cmp (take (2 ^ i) p) (take (2 ^ i) (drop (2 ^ i) p))) @ out"
  have l: "length ?q < length p" using less(2) by (cases p) auto
  show ?case
  proof (cases "?q = []")
    case True
    then have "\<not> 2 ^ (i + 1) < length p" by simp
    with True show ?thesis unfolding srt_pass_step [OF less(2)] True srt_pass_Nil by simp
  next
    case False
    with less(1) [OF l False, of "m + 1" ?o] show ?thesis unfolding srt_pass_step [OF less(2)] by simp
  qed
qed

lemma srt_loop_block:
  fixes key :: "'a \<Rightarrow> 'k :: linorder"
  assumes cmp: "\<And>a b. cmp a b \<le> 0 \<longleftrightarrow> key a \<le> key b"
  shows "srt_loop cmp i (block_sort key i xs) = sort_key key xs"
proof (induction "length xs - 2 ^ i" arbitrary: i rule: less_induct)
  case less
  obtain out m where p: "srt_pass cmp i (block_sort key i xs) [] 0 = (out, m)" by fastforce
  have out: "rev out = block_sort key (i + 1) xs"
    using srt_pass_block [of cmp key i xs "[]" 0, OF cmp] p by simp
  show ?case
  proof (cases "m \<le> 1")
    case True
    have "length xs \<le> 2 ^ (i + 1)"
    proof (cases "xs = []")
      case False
      then have "block_sort key i xs \<noteq> []" using length_block_sort [of key i xs] by auto
      from srt_pass_count [OF this, of 0 cmp i "[]"] p True show ?thesis
        by (auto simp: length_block_sort)
    qed simp
    then have "rev out = sort_key key xs" unfolding out by (rule block_sort_short)
    with p True show ?thesis by (simp add: srt_loop.simps [of cmp i "block_sort key i xs"])
  next
    case False
    then have "2 ^ (i + 1) < length xs"
      using length_srt_pass [of cmp i "block_sort key i xs" "[]" 0] p by (simp add: length_block_sort)
    then have "length xs - 2 ^ (i + 1) < length xs - 2 ^ i"
      using diff_less_mono2 [of "2 ^ i" "2 ^ (i + 1)" "length xs"] by simp
    from less [OF this] p out False show ?thesis by (simp add: srt_loop.simps [of cmp i "block_sort key i xs"])
  qed
qed

section \<open>Properties\<close>



text \<open>C37: The Bloom filter has no false negatives: with up to 32 bits every byte touched is inside the vector, and after
  any additions the test of each added value succeeds.\<close>
theorem bloom_no_false_negative:
  assumes "nbits \<le> 32"
  shows "\<exists>b. fold_result (\<lambda>h b. hash_bloom_add b h) hs (hash_bloom_make nbits) = Inr b \<and>
    (\<forall>h \<in> set hs. hash_bloom_test b h = Inr True)"
proof -
  have "bloom_ok b0 \<Longrightarrow> \<exists>b. fold_result (\<lambda>h b. hash_bloom_add b h) hs b0 = Inr b \<and> bloom_ok b \<and>
      (\<forall>g. g \<in> set hs \<or> hash_bloom_test b0 g = Inr True \<longrightarrow> hash_bloom_test b g = Inr True)" for b0
  proof (induction hs arbitrary: b0)
    case (Cons h hs)
    obtain b1 where b1: "hash_bloom_add b0 h = Inr b1" "bloom_ok b1" "hash_bloom_test b1 h = Inr True"
      "\<forall>g. hash_bloom_test b0 g = Inr True \<longrightarrow> hash_bloom_test b1 g = Inr True"
      using bloom_add_spec [OF Cons.prems] by blast
    from Cons.IH [OF b1(2)] b1(1,3,4) show ?case by auto
  qed simp
  moreover have "bloom_ok (hash_bloom_make nbits)"
    using assms by (simp add: bloom_ok_def hash_bloom_make_def)
  ultimately show ?thesis by blast
qed

lemma bloom_no_false_negative_witness:
  "\<exists>b. fold_result (\<lambda>h b. hash_bloom_add b h) [0xdeadbeef, 7] (hash_bloom_make 10) = Inr b \<and>
    hash_bloom_test b 0xdeadbeef = Inr True \<and> hash_bloom_test b 7 = Inr True"
  using bloom_no_false_negative [of 10 "[0xdeadbeef, 7]"] by auto

end
