(* ===== verification/Uthash_Blocks.thy ===== *)
theory Uthash_Blocks
  imports Uthash_More
begin

text \<open>
  What \<open>cutil/uthash.h\<close> does with the bytes in memory: the block reads of Murmur's function on machines that cannot read
  a word at any address, and keys that are the representation of a number or a pointer.
\<close>

section \<open>Memory\<close>

text \<open>
  Three kinds of machine: those of Intel, which read words anywhere, and others, with the highest or the lowest byte of a
  word first. On these reading a word is a fault unless its address is a multiple of four.
\<close>

type_synonym u64 = "64 word"
type_synonym memory = "u64 \<Rightarrow> 8 word"

datatype machine = Intel | Big_Endian | Little_Endian

definition le32 :: "8 word \<Rightarrow> 8 word \<Rightarrow> 8 word \<Rightarrow> 8 word \<Rightarrow> u32" where
  "le32 a b c d = mur_getblock (ucast a) (ucast b) (ucast c) (ucast d)"

definition word_bytes :: "machine \<Rightarrow> memory \<Rightarrow> u64 \<Rightarrow> u32" where
  "word_bytes mc m p =
     (if mc = Big_Endian then le32 (m (p + 3)) (m (p + 2)) (m (p + 1)) (m p)
      else le32 (m p) (m (p + 1)) (m (p + 2)) (m (p + 3)))"

definition load32 :: "machine \<Rightarrow> memory \<Rightarrow> u64 \<Rightarrow> u32 result" where
  "load32 mc m p = (if mc \<noteq> Intel \<and> p AND 3 \<noteq> 0 then Inl Bus_Error else Inr (word_bytes mc m p))"

section \<open>Block reads\<close>

definition mur_plus0_aligned :: "u64 \<Rightarrow> bool" where
  "mur_plus0_aligned p \<longleftrightarrow> p AND 3 = 0"

definition mur_plus1_aligned :: "u64 \<Rightarrow> bool" where
  "mur_plus1_aligned p \<longleftrightarrow> p AND 3 = 1"

definition mur_plus2_aligned :: "u64 \<Rightarrow> bool" where
  "mur_plus2_aligned p \<longleftrightarrow> p AND 3 = 2"

definition wp :: "u64 \<Rightarrow> u64" where
  "wp p = p AND NOT 3"

text \<open>The pieces of two neighbouring words, \<open>*WP(p)\<close> and \<open>*(WP(p)+1)\<close>.\<close>

definition mur_three_one :: "machine \<Rightarrow> u32 \<Rightarrow> u32 \<Rightarrow> u32" where
  "mur_three_one mc x y =
     (if mc = Big_Endian then push_bit 8 (x AND 0x00ffffff) OR drop_bit 24 (y AND 0xff000000)
      else drop_bit 8 (x AND 0xffffff00) OR push_bit 24 (y AND 0x000000ff))"

definition mur_two_two :: "machine \<Rightarrow> u32 \<Rightarrow> u32 \<Rightarrow> u32" where
  "mur_two_two mc x y =
     (if mc = Big_Endian then push_bit 16 (x AND 0x0000ffff) OR drop_bit 16 (y AND 0xffff0000)
      else drop_bit 16 (x AND 0xffff0000) OR push_bit 16 (y AND 0x0000ffff))"

definition mur_one_three :: "machine \<Rightarrow> u32 \<Rightarrow> u32 \<Rightarrow> u32" where
  "mur_one_three mc x y =
     (if mc = Big_Endian then push_bit 24 (x AND 0x000000ff) OR drop_bit 8 (y AND 0xffffff00)
      else drop_bit 24 (x AND 0xff000000) OR push_bit 8 (y AND 0x00ffffff))"

text \<open>\<open>MUR_GETBLOCK(p,i)\<close>. The index does not occur in the branches for a pointer that is not aligned.\<close>

definition mur_getblock_at :: "machine \<Rightarrow> memory \<Rightarrow> u64 \<Rightarrow> int \<Rightarrow> u32 result" where
  "mur_getblock_at mc m p i =
     (if mc = Intel \<or> mur_plus0_aligned p then load32 mc m (p + 4 * of_int i)
      else rbind (load32 mc m (wp p)) (\<lambda>x. rbind (load32 mc m (wp p + 4)) (\<lambda>y.
        Inr (if mur_plus1_aligned p then mur_three_one mc x y
             else if mur_plus2_aligned p then mur_two_two mc x y
             else mur_one_three mc x y))))"

lemma bit_ucast8: "bit (ucast (a :: 8 word) :: u32) n \<longleftrightarrow> bit a n"
  by (auto simp: bit_simps dest: bit_imp_le_length)

lemma bit_le32:
  "bit (le32 a b c d) n \<longleftrightarrow> bit a n \<or> 8 \<le> n \<and> bit b (n - 8) \<or> 16 \<le> n \<and> bit c (n - 16) \<or> 24 \<le> n \<and> bit d (n - 24)"
  by (auto simp: le32_def mur_getblock_def bit_simps bit_ucast8 dest: bit_imp_le_length)

lemma byte_masks:
  "(0x00ffffff :: u32) = mask 24" "(0x0000ffff :: u32) = mask 16" "(0x000000ff :: u32) = mask 8"
  "(0xff000000 :: u32) = push_bit 24 (mask 8)" "(0xffff0000 :: u32) = push_bit 16 (mask 16)"
  "(0xffffff00 :: u32) = push_bit 8 (mask 24)"
  by (simp_all add: mask_eq_exp_minus_1)

lemma le32_pieces:
  "mur_three_one Little_Endian (le32 a b c d) (le32 e f g h) = le32 b c d e"
  "mur_two_two Little_Endian (le32 a b c d) (le32 e f g h) = le32 c d e f"
  "mur_one_three Little_Endian (le32 a b c d) (le32 e f g h) = le32 d e f g"
  "mur_three_one Big_Endian (le32 d c b a) (le32 h g f e) = le32 e d c b"
  "mur_two_two Big_Endian (le32 d c b a) (le32 h g f e) = le32 f e d c"
  "mur_one_three Big_Endian (le32 d c b a) (le32 h g f e) = le32 g f e d"
  unfolding mur_three_one_def mur_two_two_def mur_one_three_def byte_masks
  by (rule bit_word_eqI, auto simp: bit_simps bit_le32 dest: bit_imp_le_length)+

section \<open>The hash of a key in memory\<close>

text \<open>
  \<open>HASH_MUR\<close>: the loop counts \<open>_mur_i\<close> up to zero from \<open>p\<close>, the end of the last whole block; \<open>n\<close> is \<open>-_mur_i\<close>. Keys
  are shorter than \<open>2 ^ 31\<close> bytes.
\<close>

primrec mur_blocks :: "machine \<Rightarrow> memory \<Rightarrow> u64 \<Rightarrow> nat \<Rightarrow> u32 \<Rightarrow> u32 result" where
  "mur_blocks mc m p 0 h1 = Inr h1"
| "mur_blocks mc m p (Suc n) h1 =
     rbind (mur_getblock_at mc m p (- int (Suc n))) (\<lambda>k1.
       mur_blocks mc m p n (mur_rotl32 (h1 XOR mur_scramble k1) 13 * 5 + 0xe6546b64))"

definition mur_tail :: "memory \<Rightarrow> u64 \<Rightarrow> nat \<Rightarrow> u32 \<Rightarrow> u32" where
  "mur_tail m t r h1 =
     (let k1 = 0;
          k1 = (if r = 3 then k1 XOR push_bit 16 (ucast (m (t + 2))) else k1);
          k1 = (if 2 \<le> r then k1 XOR push_bit 8 (ucast (m (t + 1))) else k1);
          k1 = (if 1 \<le> r then k1 XOR ucast (m t) else k1)
      in if 1 \<le> r then h1 XOR mur_scramble k1 else h1)"

definition hash_mur_at :: "machine \<Rightarrow> memory \<Rightarrow> u64 \<Rightarrow> nat \<Rightarrow> u32 result" where
  "hash_mur_at mc m key keylen =
     (let nblocks = keylen div 4; p = key + of_nat (4 * nblocks)
      in rbind (mur_blocks mc m p nblocks 0xf88d5353) (\<lambda>h1.
           Inr (mur_fmix (mur_tail m p (keylen mod 4) h1 XOR of_nat keylen))))"

subsection \<open>Addresses\<close>

lemma and_3: "(p :: u64) AND 3 = take_bit 2 p"
proof -
  have "(3 :: u64) = mask 2" by (simp add: mask_eq_exp_minus_1)
  then show ?thesis by (simp only: take_bit_eq_mask)
qed

lemma unat_and_3: "unat ((p :: u64) AND 3) = unat p mod 4"
  by (simp add: and_3 take_bit_eq_mod unat_mod_distrib)

lemma aligned_plus: "(p + 4 * k :: u64) AND 3 = p AND 3"
proof -
  have "unat (p + 4 * k) mod 4 = (unat p + 4 * unat k) mod 4"
    by (simp add: unat_word_ariths mod_mod_cancel mod_simps)
  then show ?thesis by (simp add: word_unat_eq_iff unat_and_3)
qed

lemma wp_mask: "wp p = p AND NOT (mask 2)"
  by (simp add: wp_def mask_eq_exp_minus_1)

lemma wp_plus: "wp p + (p AND 3) = p"
proof -
  have "wp p AND take_bit 2 p = 0" unfolding wp_mask by (rule bit_word_eqI) (auto simp: bit_simps)
  then have "wp p + take_bit 2 p = wp p OR take_bit 2 p" by (rule disjunctive_add_eq_or)
  also have "\<dots> = p" unfolding wp_mask by (rule bit_word_eqI) (auto simp: bit_simps)
  finally show ?thesis unfolding and_3 .
qed

lemma wp_aligned: "wp p AND 3 = 0" "(wp p + 4) AND 3 = 0"
proof -
  have "take_bit 2 (wp p) = 0" unfolding wp_mask by (rule bit_word_eqI) (auto simp: bit_simps)
  then show 1: "wp p AND 3 = 0" unfolding and_3 .
  show "(wp p + 4) AND 3 = 0" using aligned_plus [of "wp p" 1] 1 by simp
qed

lemma and_3_cases: "(p :: u64) AND 3 = 0 \<or> p AND 3 = 1 \<or> p AND 3 = 2 \<or> p AND 3 = 3"
proof -
  have "unat (p AND 3) < 4" by (simp add: unat_and_3)
  then have "unat (p AND 3) \<in> {0, 1, 2, 3}" by auto
  then show ?thesis by (auto simp: word_unat_eq_iff)
qed

subsection \<open>What a block read yields\<close>

lemma mur_getblock_aligned:
  "mc = Intel \<or> p AND 3 = 0 \<Longrightarrow> mur_getblock_at mc m p i = Inr (word_bytes mc m (p + 4 * of_int i))"
  using aligned_plus [of p "of_int i"] by (auto simp: mur_getblock_at_def mur_plus0_aligned_def load32_def)

text \<open>Two aligned words are put together to the word at the pointer, whatever the index.\<close>

lemma mur_getblock_misaligned:
  assumes "mc \<noteq> Intel" and "p AND 3 \<noteq> 0"
  shows "mur_getblock_at mc m p i = Inr (word_bytes mc m p)"
proof -
  have l: "load32 mc m (wp p) = Inr (word_bytes mc m (wp p))" "load32 mc m (wp p + 4) = Inr (word_bytes mc m (wp p + 4))"
    by (simp_all add: load32_def wp_aligned)
  have mc: "mc = Big_Endian \<or> mc = Little_Endian" using assms(1) by (cases mc) simp_all
  consider (1) "p AND 3 = 1" | (2) "p AND 3 = 2" | (3) "p AND 3 = 3" using and_3_cases [of p] assms(2) by blast
  then show ?thesis
  proof cases
    case 1
    then have p: "p = wp p + 1" using wp_plus [of p] by simp
    have "mur_getblock_at mc m p i = Inr (mur_three_one mc (word_bytes mc m (wp p)) (word_bytes mc m (wp p + 4)))"
      using assms 1 l by (simp add: mur_getblock_at_def mur_plus0_aligned_def mur_plus1_aligned_def)
    also have "\<dots> = Inr (word_bytes mc m (wp p + 1))" using mc by (auto simp: word_bytes_def le32_pieces add_ac)
    finally show ?thesis using p by simp
  next
    case 2
    then have p: "p = wp p + 2" using wp_plus [of p] by simp
    have "mur_getblock_at mc m p i = Inr (mur_two_two mc (word_bytes mc m (wp p)) (word_bytes mc m (wp p + 4)))"
      using assms 2 l by (simp add: mur_getblock_at_def mur_plus0_aligned_def mur_plus1_aligned_def mur_plus2_aligned_def)
    also have "\<dots> = Inr (word_bytes mc m (wp p + 2))" using mc by (auto simp: word_bytes_def le32_pieces add_ac)
    finally show ?thesis using p by simp
  next
    case 3
    then have p: "p = wp p + 3" using wp_plus [of p] by simp
    have "mur_getblock_at mc m p i = Inr (mur_one_three mc (word_bytes mc m (wp p)) (word_bytes mc m (wp p + 4)))"
      using assms 3 l by (simp add: mur_getblock_at_def mur_plus0_aligned_def mur_plus1_aligned_def mur_plus2_aligned_def)
    also have "\<dots> = Inr (word_bytes mc m (wp p + 3))" using mc by (auto simp: word_bytes_def le32_pieces add_ac)
    finally show ?thesis using p by simp
  qed
qed

lemma mur_blocks_misaligned:
  assumes "mc \<noteq> Intel" and "p AND 3 \<noteq> 0"
  shows "mur_blocks mc m p n h =
    Inr (((\<lambda>h1. mur_rotl32 (h1 XOR mur_scramble (word_bytes mc m p)) 13 * 5 + 0xe6546b64) ^^ n) h)"
  by (induction n arbitrary: h) 
    (simp_all add: mur_getblock_misaligned [OF assms] funpow_Suc_right o_def del: funpow.simps(2))

subsection \<open>Aligned keys\<close>

definition mem_bytes :: "memory \<Rightarrow> u64 \<Rightarrow> nat \<Rightarrow> u32 list" where
  "mem_bytes m p n = map (\<lambda>i. ucast (m (p + of_nat i))) [0..<n]"

definition mem_holds :: "memory \<Rightarrow> u64 \<Rightarrow> string \<Rightarrow> bool" where
  "mem_holds m p k \<longleftrightarrow> (\<forall>i < length k. m (p + of_nat i) = of_char (k ! i))"

lemma ucast_of_char: "ucast (of_char c :: 8 word) = (of_char c :: u32)"
proof -
  have "(of_char c :: nat) < 256" by (rule nat_of_char_less_256)
  then have "unat (of_nat (of_char c) :: 8 word) = of_char c" by (simp add: unat_of_nat)
  then have "ucast (of_nat (of_char c) :: 8 word) = (of_nat (of_char c) :: u32)" by (simp add: word_unat_eq_iff unsigned_ucast_eq unat_of_nat take_bit_eq_mod)
  then show ?thesis by (simp only: of_nat_of_char)
qed

lemma mem_holds_bytes: "mem_holds m p k \<Longrightarrow> key_bytes k = mem_bytes m p (length k)"
  by (intro nth_equalityI) (simp_all add: key_bytes_def mem_bytes_def mem_holds_def ucast_of_char)

lemma mem_bytes_four:
  "mem_bytes m p (4 + n) = ucast (m p) # ucast (m (p + 1)) # ucast (m (p + 2)) # ucast (m (p + 3)) # mem_bytes m (p + 4) n"
proof -
  have "[0..<4 + n] = [0, 1, 2, 3] @ map (\<lambda>i. i + 4) [0..<n]"
    by (simp only: upt_add_eq_append [OF le0] map_add_upt) (simp add: upt_rec add.commute)
  then show ?thesis by (simp add: mem_bytes_def add_ac)
qed

lemma mur_blocks_loop:
  assumes "mc \<noteq> Big_Endian" and "mc = Intel \<or> p AND 3 = 0" and r: "r < 4"
  shows "\<exists>h1. mur_blocks mc m p n h = Inr h1 \<and> mur_loop (mem_bytes m (p - 4 * of_nat n) (4 * n + r)) h = mur_tail m p r h1"
proof (induction n arbitrary: h)
  case 0
  have "r = 0 \<or> r = 1 \<or> r = 2 \<or> r = 3" using r by linarith
  then show ?case by (auto simp: mem_bytes_def mur_tail_def numeral_eq_Suc xor.assoc)
next
  case (Suc n)
  let ?q = "p - 4 * of_nat (Suc n)"
  have q: "?q + 4 = p - 4 * of_nat n" "p + 4 * of_int (- int (Suc n)) = ?q" by (simp_all add: algebra_simps)
  have l: "4 * Suc n + r = 4 + (4 * n + r)" by simp
  have "mur_getblock_at mc m p (- int (Suc n)) = Inr (word_bytes mc m ?q)"
    unfolding mur_getblock_aligned [OF assms(2)] q(2) ..
  with Suc.IH assms(1) show ?case
    unfolding l mem_bytes_four q(1) by (simp add: word_bytes_def le32_def)
qed

lemma hash_mur_aligned:
  assumes "mem_holds m key k" and "mc \<noteq> Big_Endian" and "mc = Intel \<or> key AND 3 = 0"
  shows "hash_mur_at mc m key (length k) = Inr (hash_mur k)"
proof -
  let ?n = "length k div 4" and ?r = "length k mod 4"
  let ?p = "key + of_nat (4 * ?n)"
  have p: "mc = Intel \<or> ?p AND 3 = 0" using assms(3) aligned_plus [of key "of_nat ?n"] by simp
  have "?r < 4" by simp
  from mur_blocks_loop [OF assms(2) p this, of m ?n "0xf88d5353"] obtain h1 where
    h1: "mur_blocks mc m ?p ?n 0xf88d5353 = Inr h1"
      "mur_loop (mem_bytes m (?p - 4 * of_nat ?n) (4 * ?n + ?r)) 0xf88d5353 = mur_tail m ?p ?r h1" by blast
  have "?p - 4 * of_nat ?n = key" "4 * ?n + ?r = length k" by simp_all
  with h1 show ?thesis by (simp add: hash_mur_at_def hash_mur_def mem_holds_bytes [OF assms(1)] Let_def)
qed

section \<open>Misaligned keys\<close>

text \<open>The same key at an address that is no multiple of four: its hash depends on what happens to be behind it.\<close>

lemma hash_mur_at_misaligned:
  assumes "mc \<noteq> Intel" and "key AND 3 \<noteq> 0" and p: "p = key + of_nat (4 * (keylen div 4))"
  shows "hash_mur_at mc m key keylen =
    Inr (mur_fmix (mur_tail m p (keylen mod 4)
      (((\<lambda>h1. mur_rotl32 (h1 XOR mur_scramble (word_bytes mc m p)) 13 * 5 + 0xe6546b64) ^^ (keylen div 4)) 0xf88d5353) XOR
        of_nat keylen))"
proof -
  have "p AND 3 \<noteq> 0" using assms(2) aligned_plus [of key "of_nat (keylen div 4)"] by (simp add: p)
  note b = mur_blocks_misaligned [OF assms(1) this]
  show ?thesis unfolding hash_mur_at_def Let_def p [symmetric] b rbind_Inr ..
qed

lemma hash_mur_same_key_differs:
  "hash_mur_at Little_Endian (\<lambda>_. 0) 1 4 \<noteq> hash_mur_at Little_Endian ((\<lambda>_. 0)(5 := 1)) 1 4"
proof -
  have h: "hash_mur_at Little_Endian m 1 4 =
      Inr (mur_fmix ((mur_rotl32 (0xf88d5353 XOR mur_scramble (word_bytes Little_Endian m 5)) 13 * 5 + 0xe6546b64) XOR 4))" for m
    using hash_mur_at_misaligned [of Little_Endian 1 5 4 m] by (simp add: mur_tail_def)
  have "mur_fmix ((mur_rotl32 (0xf88d5353 XOR mur_scramble 0) 13 * 5 + 0xe6546b64) XOR 4) \<noteq>
      mur_fmix ((mur_rotl32 (0xf88d5353 XOR mur_scramble 1) 13 * 5 + 0xe6546b64) XOR 4)"
    by code_simp
  moreover have "word_bytes Little_Endian (\<lambda>_. 0) 5 = 0" "word_bytes Little_Endian ((\<lambda>_. 0)(5 := 1)) 5 = 1"
    by (simp_all add: word_bytes_def le32_def mur_getblock_def)
  ultimately show ?thesis unfolding h by simp
qed



section \<open>Keys that are numbers\<close>

text \<open>
  \<open>HASH_FIND_INT\<close> and its kin hash the representation of the key field: four bytes for an \<open>int\<close>, eight for a pointer,
  the lowest first. \<open>HASH_FIND_STR\<close> and its kin are the general macros with \<open>strlen\<close>.
\<close>

definition rep_key :: "nat \<Rightarrow> 'a::len word \<Rightarrow> string" where
  "rep_key n w = map (\<lambda>i. char_of (unat (drop_bit (8 * i) w))) [0..<n]"

definition hash_find_str :: "'a ut_table option \<Rightarrow> string \<Rightarrow> 'a entry option" where
  "hash_find_str head findstr = hash_find head findstr"

definition hash_add_str :: "'a ut_table option \<Rightarrow> nat \<Rightarrow> string \<Rightarrow> 'a \<Rightarrow> 'a ut_table option" where
  "hash_add_str head a strfield data = hash_add head a strfield data"

definition hash_replace_str :: "'a ut_table option \<Rightarrow> nat \<Rightarrow> string \<Rightarrow> 'a \<Rightarrow> 'a ut_table option \<times> 'a entry option" where
  "hash_replace_str head a strfield data = hash_replace head a strfield data"

definition hash_find_int :: "'a ut_table option \<Rightarrow> u32 \<Rightarrow> 'a entry option" where
  "hash_find_int head findint = hash_find head (rep_key 4 findint)"

definition hash_add_int :: "'a ut_table option \<Rightarrow> nat \<Rightarrow> u32 \<Rightarrow> 'a \<Rightarrow> 'a ut_table option" where
  "hash_add_int head a intfield data = hash_add head a (rep_key 4 intfield) data"

definition hash_replace_int :: "'a ut_table option \<Rightarrow> nat \<Rightarrow> u32 \<Rightarrow> 'a \<Rightarrow> 'a ut_table option \<times> 'a entry option" where
  "hash_replace_int head a intfield data = hash_replace head a (rep_key 4 intfield) data"

definition hash_find_ptr :: "'a ut_table option \<Rightarrow> u64 \<Rightarrow> 'a entry option" where
  "hash_find_ptr head findptr = hash_find head (rep_key 8 findptr)"

definition hash_add_ptr :: "'a ut_table option \<Rightarrow> nat \<Rightarrow> u64 \<Rightarrow> 'a \<Rightarrow> 'a ut_table option" where
  "hash_add_ptr head a ptrfield data = hash_add head a (rep_key 8 ptrfield) data"

definition hash_replace_ptr :: "'a ut_table option \<Rightarrow> nat \<Rightarrow> u64 \<Rightarrow> 'a \<Rightarrow> 'a ut_table option \<times> 'a entry option" where
  "hash_replace_ptr head a ptrfield data = hash_replace head a (rep_key 8 ptrfield) data"

text \<open>\<open>HASH_EMIT_KEY\<close>: the bytes written, the length in four and the key.\<close>

definition hash_emit_key :: "string \<Rightarrow> string" where
  "hash_emit_key key = rep_key 4 (of_nat (length key) :: u32) @ key"

lemma rep_key_eq_iff:
  fixes v w :: "'a::len word"
  assumes "LENGTH('a) \<le> 8 * n"
  shows "rep_key n v = rep_key n w \<longleftrightarrow> v = w"
proof
  assume eq: "rep_key n v = rep_key n w"
  show "v = w"
  proof (rule bit_word_eqI)
    fix k assume k: "k < LENGTH('a)"
    then have i: "k div 8 < n" using assms by linarith
    from arg_cong [OF eq, of "\<lambda>xs. xs ! (k div 8)"] i have
      "(char_of (unat (drop_bit (8 * (k div 8)) v)) :: char) = char_of (unat (drop_bit (8 * (k div 8)) w))"
      by (simp add: rep_key_def)
    then have "take_bit 8 (unat (drop_bit (8 * (k div 8)) v)) = take_bit 8 (unat (drop_bit (8 * (k div 8)) w))"
      by (metis char_of_eq_iff)
    from arg_cong [OF this, of "\<lambda>x. bit x (k mod 8)"] show "bit v k \<longleftrightarrow> bit w k"
      by (simp add: bit_simps bit_unsigned_iff k)
  qed
qed simp

lemma hash_find_distinct:
  assumes "hash_inv head" and "distinct (map entry_key (hash_entries head))"
  shows "hash_find head k = Some e \<longleftrightarrow> e \<in> set (hash_entries head) \<and> entry_key e = k"
proof -
  have "e = e'" if "e \<in> set (hash_entries head)" "e' \<in> set (hash_entries head)" "entry_key e = entry_key e'" for e e'
    using assms(2) that by (auto simp: distinct_map dest: inj_onD)
  then show ?thesis using hash_find_spec [OF assms(1), of k] by (auto split: option.splits)
qed

text \<open>A table with numbers as keys, kept by replacement, is a map from numbers.\<close>

lemma hash_replace_rep:
  assumes i: "hash_inv head" and d: "distinct (map entry_key (hash_entries head))"
    and f: "\<forall>e \<in> set (hash_entries head). entry_id e \<noteq> a"
  shows "hash_inv (fst (hash_replace head a key x)) \<and>
    distinct (map entry_key (hash_entries (fst (hash_replace head a key x)))) \<and>
    map_option entry_data (hash_find (fst (hash_replace head a key x)) k) =
      (if k = key then Some x else map_option entry_data (hash_find head k))"
proof -
  let ?e = "\<lparr>entry_id = a, entry_key = key, entry_data = x, entry_hashv = hash_jen key\<rparr>"
  let ?h = "fst (hash_replace head a key x)"
  let ?es = "filter (\<lambda>e. entry_key e \<noteq> key) (hash_entries head)"
  have es: "(case hash_find head key of None \<Rightarrow> hash_entries head | Some e \<Rightarrow> remove1 e (hash_entries head)) = ?es"
  proof (cases "hash_find head key")
    case None
    then have "\<forall>e \<in> set (hash_entries head). entry_key e \<noteq> key" using hash_find_None_iff [OF i] by blast
    then have "?es = hash_entries head" by (simp only: filter_id_conv)
    with None show ?thesis by simp
  next
    case (Some e)
    then have e: "e \<in> set (hash_entries head)" "entry_key e = key" using hash_find_distinct [OF i d] by blast+
    have "distinct (hash_entries head)" using d by (simp add: distinct_map)
    then have "remove1 e (hash_entries head) = filter (\<lambda>x. e \<noteq> x) (hash_entries head)" 
      by (simp add: distinct_remove1_removeAll removeAll_filter_not_eq)
    also have "\<dots> = ?es" by (rule filter_cong) (use e d in \<open>auto simp: distinct_map dest: inj_onD\<close>)
    finally show ?thesis using Some by simp
  qed
  have r: "hash_inv ?h" "hash_entries ?h = ?es @ [?e]" using hash_replace_inv [OF i f, of key x] es by simp_all
  have d': "distinct (map entry_key (hash_entries ?h))" using d by (auto simp: r(2) distinct_map_filter)
  have "hash_find ?h k = (if k = key then Some ?e else hash_find head k)"
  proof (cases "hash_find ?h k")
    case None
    then have "k \<noteq> key" "\<forall>e \<in> set ?es. entry_key e \<noteq> k" using hash_find_None_iff [OF r(1)] by (auto simp: r(2))
    then have "hash_find head k = None" using hash_find_None_iff [OF i] by auto
    with None \<open>k \<noteq> key\<close> show ?thesis by simp
  next
    case (Some e)
    then have "e \<in> set ?es \<union> {?e}" "entry_key e = k" using hash_find_distinct [OF r(1) d'] by (auto simp: r(2))
    then have "k = key \<and> e = ?e \<or> k \<noteq> key \<and> hash_find head k = Some e" using hash_find_distinct [OF i d] by auto
    with Some show ?thesis by auto
  qed
  with r(1) d' show ?thesis by simp
qed

lemma hash_int_map:
  assumes "hash_inv head" and "distinct (map entry_key (hash_entries head))" and "\<forall>e \<in> set (hash_entries head). entry_id e \<noteq> a"
  shows "map_option entry_data (hash_find_int (fst (hash_replace_int head a i x)) j) =
      (if j = i then Some x else map_option entry_data (hash_find_int head j))"
    and "map_option entry_data (hash_find_ptr (fst (hash_replace_ptr head a p x)) q) =
      (if q = p then Some x else map_option entry_data (hash_find_ptr head q))"
  using hash_replace_rep [OF assms] by (simp_all add: hash_find_int_def hash_replace_int_def hash_find_ptr_def hash_replace_ptr_def rep_key_eq_iff)

end
