(* ===== verification/Spec2Isabelle.thy ===== *)
theory Spec2Isabelle
  imports Cpp_Look Cpp_Loop Cpp_Framing Cpp_Templates Cpp_Serial Startup Prompt Support Uthash_Blocks
begin

text \<open>
  The repository holds two servers for one file-sharing protocol, and this library models both. \<open>src/tracker\<close>
  is the tracker in C over the library \<open>src/cutil\<close>; \<open>src/tracker_cpp\<close> is its rewrite in C++. A client opens
  a connection and sends lines: \<open>announce\<close> (I listen on this port, have these files, fetch these),
  \<open>update\<close>, \<open>look\<close> (which files meet these criteria) and \<open>getfile\<close> (who has the file with this key). The
  tracker answers each by a line and keeps who has what.

  The C tracker. \<open>main.c\<close> and \<open>config.c\<close> settle the options and call \<open>server_run\<close> of \<open>network.c\<close>,
  whose poll loop accepts connections, takes a reference on the client of each (\<open>client.c\<close>) and starts a thread
  that handles one request. \<open>protocol.c\<close> reads the line (\<open>socket_read_string\<close>), takes it apart with \<open>regex_exec\<close>
  (\<open>util.c\<close>) and the string functions, and works on the tables of \<open>client.c\<close> and \<open>file.c\<close>. These tables are
  \<open>hash_table.c\<close> over \<open>uthash.h\<close>, the answers are built in lists (\<open>list.c\<close>). A second thread runs the console of
  \<open>prompt.c\<close>. The C++ tracker. \<open>main.cpp\<close> registers a \<open>p2pListener\<close> with the \<open>EventManager\<close>, whose loop waits
  for events and calls their handlers; a \<open>Peer\<close> is a \<open>ClientSocket\<close> that collects bytes in a \<open>CircularBuffer\<close>,
  handles the whole lines in it and answers through a second buffer and its \<open>SocketWriter\<close>. Files are in \<open>FileMgr\<close>.

  \<^bold>\<open>Theories of the C tracker.\<close> Functions keep the names of the source; a name that HOL has taken gets a suffix.
  \<^item> \<open>Prelude\<close>: outcomes, sequencing, the collection \<open>result_simps\<close>, lemmas on lists and maps.
  \<^item> \<open>CList\<close>: \<open>cutil/list.c\<close> over a heap of nodes, cursor cache included. Abstraction \<open>list_rel\<close>; interface
    \<open>list_reader\<close> extended by \<open>list_builder\<close>, interpreted by the list.
  \<^item> \<open>Uthash\<close>, \<open>Uthash_More\<close>, \<open>Uthash_Blocks\<close>: \<open>cutil/uthash.h\<close>; buckets, expansion, deletion and the integrity
    check first, the operations and hash functions no caller uses second, what depends on the machine
    and keys that are numbers third.
  \<^item> \<open>HashTable\<close>: \<open>hash_table.c\<close>; interface \<open>dictionary\<close>, interpreted by the table.
  \<^item> \<open>Libc\<close>, \<open>String2\<close>, \<open>Regex\<close>, \<open>Stack\<close>, \<open>Yaml\<close>, \<open>Support\<close>: what is used of the C library, \<open>string2.c\<close>,
    \<open>regex_exec\<close>, \<open>stack.c\<close> (interface \<open>bounded_stack\<close>), \<open>yaml2.c\<close>, and \<open>err.h\<close>, \<open>data.c\<close>, \<open>error.c\<close>, \<open>md5.c\<close>.
  \<^item> \<open>Tracker_State\<close>, \<open>Files\<close>, \<open>Clients\<close>: the structures of \<open>file.h\<close> and \<open>client.h\<close> in an explicit memory, the
    tables, reference counts and the invariant \<open>tracker_inv\<close>.
  \<^item> \<open>Protocol\<close>, \<open>Announce\<close>, \<open>Look\<close>, \<open>Requests\<close>: the handlers of \<open>protocol.c\<close>, then what they do.
  \<^item> \<open>SocketRead\<close>, \<open>Network\<close>: the line reader and the poll loop of \<open>network.c\<close>, and the server as a step relation.
  \<^item> \<open>Config\<close>, \<open>Socket_Setup\<close>, \<open>Startup\<close>: options and configuration file; how both trackers make, name and close their
    sockets, over a table of the descriptors the system has open; \<open>main\<close> up to the first round of the poll loop.
  \<^item> \<open>Prompt\<close>: the console.

  \<^bold>\<open>Theories of the C++ tracker.\<close>
  \<^item> \<open>Circular_Buffer\<close>: \<open>CircularBuffer.cpp\<close>; \<open>cb_rel\<close> relates the ring to the queue of bytes it holds.
  \<^item> \<open>Cpp_Streams\<close>, \<open>Cpp_Files\<close>: the string streams and conversions used; \<open>File\<close>, \<open>FileMap\<close>, \<open>FileMgr\<close>, \<open>Criterion\<close>.
  \<^item> \<open>Cpp_Peer\<close>, \<open>Cpp_Safe\<close>, \<open>Cpp_Look\<close>: every handler of \<open>Peer.cpp\<close> and \<open>readHandler\<close>; the invariant \<open>cpp_inv\<close>
    and the reachable states \<open>cpp_reach\<close>; what a look request selects.
  \<^item> \<open>Cpp_Sockets\<close>, \<open>Cpp_Server\<close>, \<open>Cpp_Loop\<close>: events, event manager, writer and the sending half of \<open>ClientSocket\<close>;
    the event handlers, accepting, deleting and the main loop; the invariant \<open>srv_inv\<close> of the loop.
  \<^item> \<open>Cpp_Framing\<close>: these together, from the bytes a connection delivers to the bytes its writer sends.
  \<^item> \<open>Cpp_Containers\<close>, \<open>Cpp_Serial\<close>: \<open>List.cpp\<close> and \<open>HashTable.cpp\<close>, \<open>BufferWriter\<close> and \<open>BufferReader\<close>.
  \<^item> \<open>Cpp_Templates\<close>: the abstract class \<open>Buffer\<close> as the interface \<open>byte_buffer\<close>, interpreted by the ring, a second
    interpretation of \<open>list_builder\<close> by the C++ list, and the templates and macros nothing calls.

  \<^bold>\<open>How the code is modelled.\<close> A structure is a record and objects that are shared or freed live in a map from
  addresses, from which freeing removes them; an allocator hands out rising addresses, so that a stale pointer is
  always seen. A call that may hit undefined behaviour returns \<open>fault + 'a\<close>: a read of freed memory, an access out of
  bounds, a null pointer, an uninitialised value, a division by zero, a word read at an odd address, a failed assertion and a call of \<open>exit\<close> are
  values of \<open>fault\<close>, and \<open>rbind\<close> sequences such calls. The errors the code itself returns are ordinary values. What a
  system call or a foreign library delivers is an argument of the definition that uses it: the chunks \<open>read\<close> yields,
  what \<open>write\<close> takes, the names \<open>getpeername\<close> gives, the events of libyaml, the digest of OpenSSL, the lines of
  readline. Counters and file sizes are words of the width they have in C. Locks make the operations they protect
  atomic and are not part of the state; the threads of the C tracker appear as the multiset of references held by
  requests that have not ended, in any order of the steps of \<open>server_step\<close>.

  \<^bold>\<open>What the lemmas show.\<close>
  \<^item> Invariants and reachability. \<open>tracker_inv\<close> and \<open>reachable\<close> (C1, C2, C8, C26): tables consistent, reference counts
    exact, no round of the poll loop faults; \<open>cpp_inv\<close> and \<open>cpp_reach\<close> (C9); \<open>srv_inv\<close> and \<open>srv_reach\<close> (C13), and
    what breaks them (C15, C19, C20).
  \<^item> What requests do: C3 to C7 for the C tracker, C10 to C12 for the C++ tracker.
  \<^item> Data structures against their abstractions: lists C23, C24; hash tables C21, C22, C36, C40; ring buffer C16
    to C18; stack C34; and the round trips C25 and C39.
  \<^item> Input and bounds: C27 to C30, C33; digests and hash functions: C35, C37, C38. Start and console: C31, C32.
  \<^item> Liveness: a message handed to a connection of the C++ tracker is sent (C14).

  \<^bold>\<open>Loops, bounds and fuel.\<close> Loops over counters and lists are structural or have a measure. The pointer loops of
  the lists (\<open>free_nodes\<close>, \<open>remove_value_loop\<close>, \<open>delete_nodes\<close>), the loop of \<open>string_split2\<close> and
  \<open>clean_delete_list\<close> may run for ever on a broken heap; they are \<open>partial_function (option)\<close> and are proved to
  return. \<open>read_handler\<close> is the only definition with fuel: it uses one unit for each line in
  the buffer and one to see that there is no other, and \<open>read_handler_lines\<close> shows for every larger amount what it does. The growth of the write buffer
  multiplies by 1.5 in single precision; \<open>make_room\<close> would not end if the capacity did not grow, and \<open>make_room_rel\<close>
  shows it does from capacity 16 on, and buffers start with 32768. Ports have at most five digits, keys 32 characters.

  \<^bold>\<open>Not modelled.\<close>
  \<^item> Allocation that fails; the state of locks; the text of diagnostics (\<open>rz_debug\<close>), translation of messages.
  \<^item> \<open>tracker_cpp/common/containers/uthash.h\<close>, which is \<open>cutil/uthash.h\<close> byte for byte; \<open>HashTable.cpp\<close> is stated over the
    model of the latter. Likewise \<open>err.hpp\<close>, \<open>error.cpp\<close> and \<open>util/regex.c\<close>, copies of \<open>err.h\<close>, \<open>error.c\<close> and a
    part of \<open>util.c\<close>. Of \<open>Stack.hpp\<close> the function \<open>pop\<close>, which cannot be instantiated: the constructors of the exception
    it throws are private.
  \<^item> \<open>client_java\<close> (the clients), \<open>client_glib\<close> (a listener that uses undeclared variables and does not compile),
    \<open>sandbox\<close>, \<open>scripts\<close>; the handling of terminal signals in \<open>prompt.c\<close>, which are calls of readline and \<open>longjmp\<close>.
\<close>

section \<open>Properties that span components\<close>

text \<open>
  C20: A client that announces again with another port keeps its old address listed for its files,
  because \<open>client_set_listening_port\<close> overwrites the key the entries were made with. When the
  client is freed that entry stays, and the next getfile request of anyone else for the file reads
  the freed client.
\<close>

theorem re_announce_use_after_free:
  assumes "tracker_inv st" and "client_mem st c = Some y" and "listen_addr_key y = Some k"
    and "peers st f k = Some c" and "files st f = Some x" and "str_trim_prot_getfile (md5_str x) = md5_str x"
    and "length (md5_str x) = keyhash_strsize"
    and "p \<noteq> []" and "length p \<le> 5" and "\<forall>d \<in> set p. c_isdigit d" and "bracket_free s" and "bracket_free t"
    and "seed_str_ok s" and "word_of_int (digits_value p) \<noteq> listening_port y" and "d \<noteq> c"
  shows "\<exists>st1 st2. prot_announce st c (announce_msg p s t) = Inr (0, st1) \<and> delete_client st1 c = Inr st2 \<and>
    tracker_inv st2 \<and> prot_getfile st2 d (md5_str x) = Inl Use_After_Free"
proof -
  obtain m0 m1 m2 m3 where m: "regex_exec announce_re (announce_msg p s t) = Some [m0, m1, m2, m3]"
      "announce_port (drop (fst m1) (announce_msg p s t)) = word_of_int (digits_value p)"
      "strndup (announce_msg p s t) m2 = s"
    using announce_msg_captures [OF assms(8-12)] by blast
  have "seed_str_ok (strndup (announce_msg p s t) m2)"
    and "announce_port (drop (fst m1) (announce_msg p s t)) \<noteq> listening_port y"
    by (simp_all only: m(2,3) assms(13,14) not_False_eq_True)
  from re_announce_stale [OF assms(1-4) m(1) this] obtain st1 st2 where
    s: "prot_announce st c (announce_msg p s t) = Inr (0, st1)" "delete_client st1 c = Inr st2" "tracker_inv st2"
      "peers st2 f k = Some c" "client_mem st2 c = None" "keeps_files st st2"
    by blast
  then obtain x' where x': "files st2 f = Some x'" "md5_str x' = md5_str x"
    using assms(5) by (auto simp: keeps_files_def)
  have "files_inv st2" using s(3) by (simp add: tracker_inv_def)
  from prot_getfile_dangling [OF this s(4,5) assms(15) [symmetric] x'(1)] assms(6,7) x'(2) s(1-3)
  show ?thesis by auto
qed

lemma re_announce_use_after_free_witness:
  "\<exists>c st0 st st1 st2. prot_announce st0 c (announce_msg ''2222'' demo_seed []) = Inr (0, st) \<and>
    prot_announce st c (announce_msg ''2223'' [] []) = Inr (0, st1) \<and> delete_client st1 c = Inr st2 \<and>
    prot_getfile st2 (Suc c) ''8905e92afeb80fc7722ec89eb0bf0966'' = Inl Use_After_Free"
proof -
  obtain c st0 st y k f x where s: "prot_announce st0 c (announce_msg ''2222'' demo_seed []) = Inr (0, st)"
      "tracker_inv st" "client_mem st c = Some y" "listen_addr_key y = Some k" "peers st f k = Some c"
      "files st f = Some x" "md5_str x = ''8905e92afeb80fc7722ec89eb0bf0966''" "listening_port y = 2222"
    using demo_announced by blast
  have t: "str_trim_prot_getfile (md5_str x) = md5_str x" "length (md5_str x) = keyhash_strsize"
    by (simp_all add: s(7) str_trim_prot_getfile_def keyhash_strsize_def)
  have p: "''2223'' \<noteq> []" "length ''2223'' \<le> 5" "\<forall>d \<in> set ''2223''. c_isdigit d"
    by (simp_all add: c_isdigit_def)
  have "tokens '' '' [] = []" by (simp add: tokens_def)
  then have e: "seed_str_ok []" by (simp add: seed_str_ok_def seed_ok_def)
  have n: "word_of_int (digits_value ''2223'') \<noteq> listening_port y"
    by (simp add: s(8) digits_value_def)
  have d: "Suc c \<noteq> c" by simp
  from re_announce_use_after_free [OF s(2-6) t p demo_port(4) demo_port(4) e n d] s(1) show ?thesis
    unfolding s(7) by blast
qed

end
